(* ===== verification/Prelude.thy ===== *)
theory Prelude
  imports Main "HOL-Library.Word"
begin

unbundle bit_operations_syntax

text \<open>
  Shared vocabulary of the development: the machine integer types of
  \<^verbatim>\<open>include/klibc/stdint.h\<close>, the error values of the model, the error monad the
  stateful operations are written in, the rounding macros of \<^verbatim>\<open>klibc/math.h\<close> and
  \<^verbatim>\<open>mm/mm.h\<close>, and the lemmas on words, loops and results that every component uses.
\<close>

section \<open>Machine integers\<close>

type_synonym u8 = "8 word"
type_synonym u16 = "16 word"
type_synonym u32 = "32 word"
type_synonym u64 = "64 word"

named_theorems kernel_consts \<open>unfolding rules of the constants the C macros define\<close>
named_theorems res_simps \<open>rules that evaluate the error monad\<close>

section \<open>Errors as values\<close>

text \<open>
  What can end an operation other than a normal return: \<open>panic\<close> with its message (an
  \<open>assert\<close> is a panic), a \<open>while (1) hlt\<close> loop, an access through an unmapped virtual
  address, an access outside a static array, and a loop that never ends.
\<close>

datatype kerror = Panic string | Halted | PageFault u32 | OutOfBounds nat | Diverges

type_synonym 'a res = "kerror + 'a"

definition rbind :: "'a res \<Rightarrow> ('a \<Rightarrow> 'b res) \<Rightarrow> 'b res" where
  "rbind r f = (case r of Inl e \<Rightarrow> Inl e | Inr x \<Rightarrow> f x)"

definition assert_k :: "bool \<Rightarrow> unit res" where
  "assert_k b = (if b then Inr () else Inl (Panic ''Assert failed''))"

definition of_loop :: "'a option \<Rightarrow> 'a res" where
  "of_loop r = (case r of None \<Rightarrow> Inl Diverges | Some x \<Rightarrow> Inr x)"

lemma rbind_Inr [simp, res_simps]: "rbind (Inr x) f = f x"
  by (simp add: rbind_def)

lemma rbind_Inl [simp, res_simps]: "rbind (Inl e) f = Inl e"
  by (simp add: rbind_def)

lemma rbind_eq_Inr: "rbind r f = Inr y \<longleftrightarrow> (\<exists>x. r = Inr x \<and> f x = Inr y)"
  by (cases r) simp_all

lemma rbind_eq_InrE:
  assumes "rbind r f = Inr y"
  obtains x where "r = Inr x" and "f x = Inr y"
  using assms by (auto simp: rbind_eq_Inr)

lemma assert_k_simps [simp, res_simps]:
  "assert_k True = Inr ()"
  "assert_k False = Inl (Panic ''Assert failed'')"
  by (simp_all add: assert_k_def)

lemma of_loop_simps [simp, res_simps]:
  "of_loop (Some x) = Inr x"
  "of_loop None = Inl Diverges"
  by (simp_all add: of_loop_def)

section \<open>Stateful operations\<close>

text \<open>
  An operation on a state \<open>'s\<close> either ends in an error or returns a value and the new state.
  \<open>sfor i n f\<close> is the loop \<open>for (k = i; k < i + n; k++) f(k)\<close>.
\<close>

type_synonym ('s, 'a) op = "'s \<Rightarrow> ('a \<times> 's) res"

definition sret :: "'a \<Rightarrow> ('s, 'a) op" where
  "sret x s = Inr (x, s)"

definition sfail :: "kerror \<Rightarrow> ('s, 'a) op" where
  "sfail e s = Inl e"

definition sbind :: "('s, 'a) op \<Rightarrow> ('a \<Rightarrow> ('s, 'b) op) \<Rightarrow> ('s, 'b) op" where
  "sbind f g s = (case f s of Inl e \<Rightarrow> Inl e | Inr (x, t) \<Rightarrow> g x t)"

definition sthen :: "('s, 'a) op \<Rightarrow> ('s, 'b) op \<Rightarrow> ('s, 'b) op" where
  "sthen f g = sbind f (\<lambda>_. g)"

definition sget :: "('s \<Rightarrow> 'a) \<Rightarrow> ('s, 'a) op" where
  "sget f s = Inr (f s, s)"

definition smod :: "('s \<Rightarrow> 's) \<Rightarrow> ('s, unit) op" where
  "smod f s = Inr ((), f s)"

definition sassert :: "bool \<Rightarrow> ('s, unit) op" where
  "sassert b = (if b then sret () else sfail (Panic ''Assert failed''))"

definition swhen :: "bool \<Rightarrow> ('s, unit) op \<Rightarrow> ('s, unit) op" where
  "swhen b f = (if b then f else sret ())"

primrec sfor :: "nat \<Rightarrow> nat \<Rightarrow> (nat \<Rightarrow> ('s, unit) op) \<Rightarrow> ('s, unit) op" where
  "sfor i 0 f = sret ()"
| "sfor i (Suc n) f = sthen (f i) (sfor (Suc i) n f)"

text \<open>\<open>siter f xs\<close> is the iteration of \<open>f\<close> over the elements of a list, \<open>sfold\<close> one with an accumulator.\<close>

primrec siter :: "('b \<Rightarrow> ('s, unit) op) \<Rightarrow> 'b list \<Rightarrow> ('s, unit) op" where
  "siter f [] = sret ()"
| "siter f (x # xs) = sthen (f x) (siter f xs)"

primrec sfold :: "('b \<Rightarrow> 'a \<Rightarrow> ('s, 'a) op) \<Rightarrow> 'b list \<Rightarrow> 'a \<Rightarrow> ('s, 'a) op" where
  "sfold f [] a = sret a"
| "sfold f (x # xs) a = sbind (f x a) (sfold f xs)"

lemma sret_apply [simp, res_simps]: "sret x s = Inr (x, s)"
  by (simp add: sret_def)

lemma sfail_apply [simp, res_simps]: "sfail e s = Inl e"
  by (simp add: sfail_def)

lemma sget_apply [simp, res_simps]: "sget f s = Inr (f s, s)"
  by (simp add: sget_def)

lemma smod_apply [simp, res_simps]: "smod f s = Inr ((), f s)"
  by (simp add: smod_def)

lemma sassert_simps [simp, res_simps]:
  "sassert True = sret ()" "sassert False = sfail (Panic ''Assert failed'')"
  by (simp_all add: sassert_def)

lemma swhen_simps [simp, res_simps]: "swhen True f = f" "swhen False f = sret ()"
  by (simp_all add: swhen_def)

lemma sbind_Inr [res_simps]: "f s = Inr (x, t) \<Longrightarrow> sbind f g s = g x t"
  by (simp add: sbind_def)

lemma sbind_Inl [res_simps]: "f s = Inl e \<Longrightarrow> sbind f g s = Inl e"
  by (simp add: sbind_def)

lemma sthen_Inr [res_simps]: "f s = Inr (x, t) \<Longrightarrow> sthen f g s = g t"
  by (simp add: sthen_def sbind_def)

lemma sthen_Inl [res_simps]: "f s = Inl e \<Longrightarrow> sthen f g s = Inl e"
  by (simp add: sthen_def sbind_def)

lemma sthen_apply: "sthen f g s = (case f s of Inl e \<Rightarrow> Inl e | Inr (x, t) \<Rightarrow> g t)"
  by (simp add: sthen_def sbind_def)

lemma sbind_eq_Inr: "sbind f g s = Inr y \<longleftrightarrow> (\<exists>x t. f s = Inr (x, t) \<and> g x t = Inr y)"
  by (auto simp: sbind_def split: sum.splits)

lemma sthen_eq_Inr: "sthen f g s = Inr y \<longleftrightarrow> (\<exists>x t. f s = Inr (x, t) \<and> g t = Inr y)"
  by (simp add: sthen_def sbind_eq_Inr)

text \<open>A loop keeps what each of its iterations keeps, and returns when they all do.\<close>

lemma sfor_keeps:
  assumes "\<And>k s. i \<le> k \<Longrightarrow> k < i + n \<Longrightarrow> P k s \<Longrightarrow> \<exists>t. f k s = Inr ((), t) \<and> P (Suc k) t"
    and "P i s"
  shows "\<exists>t. sfor i n f s = Inr ((), t) \<and> P (i + n) t"
  using assms
proof (induction n arbitrary: i s)
  case 0
  then show ?case by simp
next
  case (Suc n)
  obtain t where t: "f i s = Inr ((), t)" "P (Suc i) t" using Suc.prems(1) [of i s] Suc.prems(2) by auto
  have "\<exists>u. sfor (Suc i) n f t = Inr ((), u) \<and> P (Suc i + n) u"
    using Suc.prems(1) by (intro Suc.IH t(2)) simp
  with t(1) show ?case by (simp add: sthen_Inr)
qed

text \<open>
  Loops that may not end. One round on the loop variable \<open>b\<close> ends the loop with a result
  (\<open>Inl\<close>) or goes on with a new value (\<open>Inr\<close>); a loop that never ends is the error \<open>Diverges\<close>.
\<close>

partial_function (option) srounds :: "('b \<Rightarrow> ('s, 'a + 'b) op) \<Rightarrow> 'b \<Rightarrow> 's \<Rightarrow> ('a \<times> 's) res option" where
  [code]: "srounds f b s =
     (case f b s of
        Inl e \<Rightarrow> Some (Inl e)
      | Inr r \<Rightarrow> (case fst r of Inl x \<Rightarrow> Some (Inr (x, snd r)) | Inr b' \<Rightarrow> srounds f b' (snd r)))"

definition sloop :: "('b \<Rightarrow> ('s, 'a + 'b) op) \<Rightarrow> 'b \<Rightarrow> ('s, 'a) op" where
  "sloop f b s = (case srounds f b s of None \<Rightarrow> Inl Diverges | Some r \<Rightarrow> r)"

lemma sloop_unfold: "sloop f b s = sbind (f b) (\<lambda>r. case r of Inl x \<Rightarrow> sret x | Inr b' \<Rightarrow> sloop f b') s"
  by (simp add: sloop_def sbind_def srounds.simps [of f b s] split: sum.splits prod.splits)

section \<open>Rounding macros\<close>

abbreviation (input) PAGE_SIZE :: u32 where
  "PAGE_SIZE \<equiv> 0x1000"

definition ROUND_UP :: "u32 \<Rightarrow> u32 \<Rightarrow> u32" where
  "ROUND_UP N S = ((N + S - 1) div S) * S"

definition ROUND_DOWN :: "u32 \<Rightarrow> u32 \<Rightarrow> u32" where
  "ROUND_DOWN N S = (N div S) * S"

definition ALIGN :: "u32 \<Rightarrow> u32" where
  "ALIGN addr = (addr + PAGE_SIZE - 1) AND NOT (PAGE_SIZE - 1)"

section \<open>Words\<close>

lemma unat_add_small:
  fixes a b :: u32
  assumes "unat a + unat b < 2 ^ 32"
  shows "unat (a + b) = unat a + unat b"
  using assms by (simp add: unat_word_ariths)

lemma unat_of_nat_small:
  assumes "n < 2 ^ 32"
  shows "unat (of_nat n :: u32) = n"
  using assms by (simp add: unat_of_nat)

lemma of_nat_inj_2p32:
  assumes "i < 2 ^ 32" and "j < 2 ^ 32"
  shows "(of_nat i :: u32) = of_nat j \<longleftrightarrow> i = j"
  using assms by (metis unat_of_nat_small)

lemma of_nat_u32_inj [simp]:
  assumes "i < 4294967296" and "j < 4294967296"
  shows "(of_nat i :: u32) = of_nat j \<longleftrightarrow> i = j"
  using of_nat_inj_2p32 [of i j] assms by simp

lemma of_nat_pred: "0 < n \<Longrightarrow> (of_nat n :: u32) - 1 = of_nat (n - 1)"
  by (cases n) simp_all

lemma of_nat_Suc_u32: "(of_nat n :: u32) + 1 = of_nat (Suc n)"
  by simp

lemma of_nat_less_iff_u32:
  assumes "i < 2 ^ 32" and "j < 2 ^ 32"
  shows "(of_nat i :: u32) < of_nat j \<longleftrightarrow> i < j"
  using assms by (simp add: word_less_nat_alt unat_of_nat_small)

lemma unat_less_2p32 [simp]: "unat (w :: u32) < 4294967296"
  using unsigned_less [of w, where 'a = nat] by simp

lemma sint_small:
  fixes w :: u32
  assumes "unat w < 2 ^ 31"
  shows "sint w = int (unat w)"
proof -
  have u: "uint w = int (unat w)" by simp
  have "int (unat w) < int (2 ^ 31)" using assms by (simp only: of_nat_less_iff)
  then have "uint w < 2 ^ 31" by (simp only: u of_nat_power of_nat_numeral)
  moreover have "- (2 ^ 31) \<le> uint w" by (rule order_trans [of _ 0]) simp_all
  ultimately have "signed_take_bit 31 (uint w) = uint w"
    by (rule signed_take_bit_int_eq_self [rotated])
  then show ?thesis by (simp add: sint_uint)
qed

section \<open>Alignment\<close>

definition aligned :: "nat \<Rightarrow> u32 \<Rightarrow> bool" where
  "aligned n a \<longleftrightarrow> a AND mask n = 0"

lemma aligned_0 [simp]: "aligned n 0"
  by (simp add: aligned_def)

lemma aligned_offset: "aligned n a \<Longrightarrow> (a + k) AND mask n = k AND mask n"
  unfolding aligned_def by (metis add_0 mask_eqs(1))

lemma aligned_add: "aligned n a \<Longrightarrow> aligned n (a + b) \<longleftrightarrow> aligned n b"
  by (simp add: aligned_def [of n "a + b"] aligned_offset) (simp add: aligned_def)

lemma aligned_minus:
  assumes "aligned n a" and "aligned n b"
  shows "aligned n (a - b)"
  using assms aligned_add [of n b "a - b"] by simp

text \<open>An aligned base and a small offset are determined by their sum.\<close>

lemma aligned_add_inj:
  assumes "aligned n a" "aligned n b" "i < 2 ^ n" "j < 2 ^ n"
  shows "a + i = b + j \<longleftrightarrow> a = b \<and> i = j"
  using assms by (metis add_right_cancel aligned_offset less_mask_eq)

lemma aligned_mask [simp]: "aligned n (a AND NOT (mask n))"
  by (simp add: aligned_def bit_eq_iff bit_simps)

lemma aligned_mono: "m \<le> n \<Longrightarrow> aligned n a \<Longrightarrow> aligned m a"
  by (auto simp add: aligned_def bit_eq_iff bit_simps)

lemma aligned_dvd: "aligned n a \<longleftrightarrow> 2 ^ n dvd unat a"
  by (simp add: aligned_def and_mask_dvd_nat)

lemma aligned_numeral [simp]:
  "aligned 2 (numeral k) \<longleftrightarrow> (numeral k :: u32) AND 3 = 0"
  "aligned 3 (numeral k) \<longleftrightarrow> (numeral k :: u32) AND 7 = 0"
  "aligned 12 (numeral k) \<longleftrightarrow> (numeral k :: u32) AND 0xFFF = 0"
  by (simp_all add: aligned_def mask_eq_exp_minus_1)

lemma mask_split: "(w AND NOT (mask n)) + (w AND mask n) = w" for w :: "'a :: len word"
proof -
  have "(w AND NOT (mask n)) AND (w AND mask n) = 0" by (auto simp: bit_eq_iff bit_simps)
  then have "(w AND NOT (mask n)) + (w AND mask n) = (w AND NOT (mask n)) OR (w AND mask n)"
    by (rule disjunctive_add_eq_or)
  also have "\<dots> = w" by (auto simp: bit_eq_iff bit_simps)
  finally show ?thesis .
qed

lemma u32_bit: "bit w n \<Longrightarrow> n < 32" for w :: u32
  using bit_imp_le_length [of w n] by simp

lemma drop_bit_eq_iff: "drop_bit k u = drop_bit k v \<longleftrightarrow> (\<forall>n \<ge> k. bit u n = bit v n)" for u v :: u32
proof
  assume e: "drop_bit k u = drop_bit k v"
  have "bit w n = bit (drop_bit k w) (n - k)" if "k \<le> n" for w :: u32 and n
    using that by (simp add: bit_drop_bit_eq)
  with e show "\<forall>n \<ge> k. bit u n = bit v n" by simp
qed (rule bit_word_eqI, simp add: bit_drop_bit_eq)

lemma slice_eq_iff:
  "drop_bit k u AND mask l = drop_bit k v AND mask l \<longleftrightarrow> (\<forall>n. k \<le> n \<and> n < k + l \<longrightarrow> bit u n = bit v n)" for u v :: u32
proof
  assume e: "drop_bit k u AND mask l = drop_bit k v AND mask l"
  have "bit w n = bit (drop_bit k w AND mask l) (n - k)" if "k \<le> n" "n < k + l" for w :: u32 and n
    using that u32_bit [of w n] by (auto simp: bit_simps)
  with e show "\<forall>n. k \<le> n \<and> n < k + l \<longrightarrow> bit u n = bit v n" by simp
qed (rule bit_word_eqI, auto simp: bit_simps)

section \<open>Frame conditions\<close>

text \<open>
  What an operation leaves alone, as a reflexive and transitive relation between the states before
  and after it: an operation composed of ones that keep the relation keeps it.
\<close>

locale frame_rel =
  fixes R :: "'s \<Rightarrow> 's \<Rightarrow> bool"
  assumes R_refl: "R s s" and R_trans: "R s t \<Longrightarrow> R t u \<Longrightarrow> R s u"
begin

definition keeps :: "('s, 'a) op \<Rightarrow> bool" where
  "keeps f \<longleftrightarrow> (\<forall>s x t. f s = Inr (x, t) \<longrightarrow> R s t)"

lemma keepsD: "keeps f \<Longrightarrow> f s = Inr (x, t) \<Longrightarrow> R s t"
  by (simp add: keeps_def)

lemma keeps_sret: "keeps (sret x)"
  by (simp add: keeps_def R_refl)

lemma keeps_sfail: "keeps (sfail e)"
  by (simp add: keeps_def)

lemma keeps_sget: "keeps (sget f)"
  by (simp add: keeps_def R_refl)

lemma keeps_sassert: "keeps (sassert b)"
  by (cases b) (simp_all add: keeps_def R_refl)

lemma keeps_smod: "(\<And>s. R s (f s)) \<Longrightarrow> keeps (smod f)"
  by (simp add: keeps_def)

lemma keeps_sbind: "keeps f \<Longrightarrow> (\<And>x. keeps (g x)) \<Longrightarrow> keeps (sbind f g)"
proof -
  assume f: "keeps f" and g: "\<And>x. keeps (g x)"
  show ?thesis
    unfolding keeps_def
  proof (intro allI impI)
    fix s y u assume "sbind f g s = Inr (y, u)"
    then obtain x t where "f s = Inr (x, t)" "g x t = Inr (y, u)" by (auto simp: sbind_eq_Inr)
    then show "R s u" using R_trans keepsD [OF f] keepsD [OF g] by blast
  qed
qed

lemma keeps_sthen: "keeps f \<Longrightarrow> keeps g \<Longrightarrow> keeps (sthen f g)"
  unfolding sthen_def by (rule keeps_sbind)

lemma keeps_swhen: "(b \<Longrightarrow> keeps f) \<Longrightarrow> keeps (swhen b f)"
  by (cases b) (simp_all add: keeps_sret)

lemma keeps_if: "(b \<Longrightarrow> keeps f) \<Longrightarrow> (\<not> b \<Longrightarrow> keeps g) \<Longrightarrow> keeps (if b then f else g)"
  by simp

lemma keeps_siter: "(\<And>x. keeps (f x)) \<Longrightarrow> keeps (siter f xs)"
  by (induction xs) (simp_all add: keeps_sret keeps_sthen)

lemmas keeps_intros = keeps_sret keeps_sfail keeps_sget keeps_sassert keeps_sbind keeps_sthen keeps_swhen keeps_if keeps_siter

end

section \<open>The first index of a search\<close>

definition first_match :: "(nat \<Rightarrow> bool) \<Rightarrow> nat \<Rightarrow> nat \<Rightarrow> nat option" where
  "first_match P i n = find P [i ..< i + n]"

lemma first_match_0 [simp]: "first_match P i 0 = None"
  by (simp add: first_match_def)

lemma first_match_Suc: "first_match P i (Suc n) = (if P i then Some i else first_match P (Suc i) n)"
proof -
  have "[i ..< i + Suc n] = i # [Suc i ..< Suc i + n]" by (simp add: upt_conv_Cons)
  then show ?thesis by (simp add: first_match_def)
qed

lemma first_match_split:
  "first_match P i (n + k) = (case first_match P i n of None \<Rightarrow> first_match P (i + n) k | Some j \<Rightarrow> Some j)"
  by (induction n arbitrary: i) (auto simp: first_match_Suc split: option.splits)

lemma first_match_Some:
  assumes "first_match P i n = Some j"
  shows "P j \<and> i \<le> j \<and> j < i + n \<and> (\<forall>k. i \<le> k \<and> k < j \<longrightarrow> \<not> P k)"
  using assms unfolding first_match_def find_Some_iff by (auto simp: less_diff_conv add.commute) (metis le_add_diff_inverse2 less_diff_conv2 add.commute)

end
