(* ===== verification/Memory.thy ===== *)
theory Memory
  imports Prelude
begin

unbundle bit_operations_syntax

text \<open>
  The flat byte memory the C code runs on. A pointer is a \<open>u32\<close>, memory maps every address
  to a byte, and 16- and 32-bit accesses are little-endian, as on the i386 the kernel is
  built for. The read-over-write laws at the end are what every pointer structure of the
  kernel (lists, heap chunks, ELF tables) is verified with; the locale \<open>word_store\<close> states
  the ones that a store of 32-bit words gives its clients.
\<close>

section \<open>Loads and stores\<close>

type_synonym mem = "u32 \<Rightarrow> u8"

definition ld16 :: "mem \<Rightarrow> u32 \<Rightarrow> u16" where
  "ld16 m a = ucast (m a) OR push_bit 8 (ucast (m (a + 1)))"

definition st16 :: "mem \<Rightarrow> u32 \<Rightarrow> u16 \<Rightarrow> mem" where
  "st16 m a v = m(a := ucast v, a + 1 := ucast (drop_bit 8 v))"

definition ld32 :: "mem \<Rightarrow> u32 \<Rightarrow> u32" where
  "ld32 m a = ucast (m a) OR push_bit 8 (ucast (m (a + 1)))
     OR push_bit 16 (ucast (m (a + 2))) OR push_bit 24 (ucast (m (a + 3)))"

definition st32 :: "mem \<Rightarrow> u32 \<Rightarrow> u32 \<Rightarrow> mem" where
  "st32 m a v = m(a := ucast v, a + 1 := ucast (drop_bit 8 v),
     a + 2 := ucast (drop_bit 16 v), a + 3 := ucast (drop_bit 24 v))"

abbreviation word_al :: "u32 \<Rightarrow> bool" where
  "word_al \<equiv> aligned 2"

section \<open>A store of words, as an interface\<close>

text \<open>
  What the pointer code relies on: a read after a write to the same valid address gives the
  written word, and a write to one valid address does not disturb another.
\<close>

locale word_store =
  fixes rd :: "'m \<Rightarrow> u32 \<Rightarrow> u32"
    and wr :: "'m \<Rightarrow> u32 \<Rightarrow> u32 \<Rightarrow> 'm"
    and valid :: "u32 \<Rightarrow> bool"
  assumes rd_wr_same: "valid a \<Longrightarrow> rd (wr m a v) a = v"
    and rd_wr_other: "valid a \<Longrightarrow> valid b \<Longrightarrow> a \<noteq> b \<Longrightarrow> rd (wr m a v) b = rd m b"
begin

lemma rd_wr: "valid a \<Longrightarrow> valid b \<Longrightarrow> rd (wr m a v) b = (if a = b then v else rd m b)"
  by (simp add: rd_wr_same rd_wr_other)

text \<open>Writing a constant to a run of words.\<close>

primrec fill :: "'m \<Rightarrow> u32 \<Rightarrow> u32 \<Rightarrow> nat \<Rightarrow> 'm" where
  "fill m a v 0 = m"
| "fill m a v (Suc n) = wr (fill m a v n) (a + 4 * of_nat n) v"

lemma rd_fill_out:
  assumes "valid b" and "\<And>i. i < n \<Longrightarrow> valid (a + 4 * of_nat i)"
    and "\<And>i. i < n \<Longrightarrow> b \<noteq> a + 4 * of_nat i"
  shows "rd (fill m a v n) b = rd m b"
  using assms by (induction n) (auto simp: rd_wr)

lemma rd_fill_in:
  assumes "\<And>i. i < n \<Longrightarrow> valid (a + 4 * of_nat i)" and "i < n"
  shows "rd (fill m a v n) (a + 4 * of_nat i) = v"
  using assms
proof (induction n)
  case 0
  then show ?case by simp
next
  case (Suc n)
  show ?case
  proof (cases "a + 4 * of_nat n = a + 4 * (of_nat i :: u32)")
    case True
    have "rd (wr (fill m a v n) (a + 4 * of_nat n) v) (a + 4 * of_nat n) = v"
      using Suc.prems(1) by (intro rd_wr_same) simp
    with True show ?thesis by simp
  next
    case False
    then have "i < n" using Suc.prems(2) by (cases "i = n") auto
    with Suc False show ?thesis by (simp add: rd_wr)
  qed
qed

end

section \<open>The byte memory is such a store on aligned addresses\<close>

lemma ucast_bytes32:
  fixes v :: u32
  shows "ucast (ucast v :: u8) OR push_bit 8 (ucast (ucast (drop_bit 8 v) :: u8))
     OR push_bit 16 (ucast (ucast (drop_bit 16 v) :: u8))
     OR push_bit 24 (ucast (ucast (drop_bit 24 v) :: u8)) = v" (is "?l = v")
proof (rule bit_word_eqI)
  fix n assume "n < LENGTH(32)"
  then have n: "n < 32" by simp
  consider "n < 8" | "8 \<le> n" "n < 16" | "16 \<le> n" "n < 24" | "24 \<le> n" by linarith
  then show "bit ?l n = bit v n"
    using n by cases (auto simp: bit_simps)
qed

lemma ucast_bytes16:
  fixes v :: u16
  shows "ucast (ucast v :: u8) OR push_bit 8 (ucast (ucast (drop_bit 8 v) :: u8)) = v" (is "?l = v")
proof (rule bit_word_eqI)
  fix n assume "n < LENGTH(16)"
  then have n: "n < 16" by simp
  consider "n < 8" | "8 \<le> n" by linarith
  then show "bit ?l n = bit v n"
    using n by cases (auto simp: bit_simps)
qed

lemma ld32_st32_same [simp]: "ld32 (st32 m a v) a = v"
  by (simp add: ld32_def st32_def ucast_bytes32)

lemma ld16_st16_same [simp]: "ld16 (st16 m a v) a = v"
  by (simp add: ld16_def st16_def ucast_bytes16)

lemma st32_other:
  assumes "\<And>k. k \<in> {0, 1, 2, 3} \<Longrightarrow> b \<noteq> a + k"
  shows "st32 m a v b = m b"
  using assms [of 0] assms [of 1] assms [of 2] assms [of 3] by (simp add: st32_def)

lemma st16_other: "b \<noteq> a \<Longrightarrow> b \<noteq> a + 1 \<Longrightarrow> st16 m a v b = m b"
  by (simp add: st16_def)

lemma word_al_disjoint:
  assumes "word_al a" "word_al b" "a \<noteq> b" "j \<in> {0, 1, 2, 3}" "k \<in> {0, 1, 2, 3}"
  shows "b + j \<noteq> a + k"
  using assms aligned_add_inj [of 2 b a j k] by auto

lemma ld32_st32_other:
  assumes "word_al a" and "word_al b" and "a \<noteq> b"
  shows "ld32 (st32 m a v) b = ld32 m b"
proof -
  have "st32 m a v (b + j) = m (b + j)" if "j \<in> {0, 1, 2, 3}" for j
    using assms that by (intro st32_other word_al_disjoint)
  from this [of 0] this [of 1] this [of 2] this [of 3] show ?thesis
    by (simp add: ld32_def)
qed

interpretation bytes: word_store ld32 st32 word_al
  by unfold_locales (simp_all add: ld32_st32_other)

lemma ld32_byte:
  fixes m :: mem
  shows "m a = ucast (ld32 m a)" "m (a + 1) = ucast (drop_bit 8 (ld32 m a))"
    "m (a + 2) = ucast (drop_bit 16 (ld32 m a))" "m (a + 3) = ucast (drop_bit 24 (ld32 m a))"
  by (auto simp: ld32_def bit_eq_iff bit_simps dest: bit_imp_le_length)

lemma word_split: "\<exists>b k. word_al b \<and> k \<in> {0, 1, 2, 3} \<and> a = b + k"
proof -
  have a: "a = (a AND NOT (mask 2)) + (a AND mask 2)" by (simp only: mask_split)
  have "unat (a AND mask 2) < 4"
    using and_mask_less' [of 2 a] by (simp add: word_less_nat_alt)
  then have "unat (a AND mask 2) \<in> {0, 1, 2, 3}" by auto
  then have "a AND mask 2 \<in> {0, 1, 2, 3}" by (auto simp: word_unat_eq_iff)
  with a show ?thesis using aligned_mask by blast
qed

lemma mem_eqI:
  fixes m m' :: mem
  assumes "\<And>a. word_al a \<Longrightarrow> ld32 m a = ld32 m' a"
  shows "m = m'"
proof
  fix a
  obtain b k where b: "word_al b" "k \<in> {0, 1, 2, 3}" "a = b + k" using word_split by blast
  with assms [OF b(1)] ld32_byte [of m b] ld32_byte [of m' b] show "m a = m' a" by auto
qed

section \<open>A sequence of bytes at an address\<close>

definition bytes_at :: "mem \<Rightarrow> u32 \<Rightarrow> u8 list \<Rightarrow> bool" where
  "bytes_at m a bs \<longleftrightarrow> (\<forall>i < length bs. m (a + of_nat i) = bs ! i)"

lemma bytes_at_Nil [simp]: "bytes_at m a []"
  by (simp add: bytes_at_def)

lemma bytes_at_Cons [simp]: "bytes_at m a (b # bs) \<longleftrightarrow> m a = b \<and> bytes_at m (a + 1) bs"
  by (auto simp: bytes_at_def nth_Cons less_Suc_eq_0_disj add.assoc split: nat.splits)

lemma bytes_at_append [simp]: "bytes_at m a (bs @ cs) \<longleftrightarrow> bytes_at m a bs \<and> bytes_at m (a + of_nat (length bs)) cs"
  by (induction bs arbitrary: a) (auto simp: add.assoc)

end
