(* ===== verification/Cstring.thy ===== *)
theory Cstring
  imports Memory
begin

text \<open>
  The string and memory routines of \<^verbatim>\<open>src/klibc/string.c\<close> and \<open>abs\<close> of
  \<^verbatim>\<open>src/klibc/math.c\<close>, over the flat byte memory. A routine that scans for a NUL byte
  returns \<open>None\<close> when the C loop never ends; \<open>_vtoa\<close> also returns \<open>None\<close> where the C
  code divides by zero or indexes outside its digit string. The correctness lemmas relate
  memory to lists of bytes through \<open>bytes\<close> and \<open>cstr\<close>.
\<close>

section \<open>Definitions\<close>

partial_function (option) strlen_loop :: "mem \<Rightarrow> u32 \<Rightarrow> u32 \<Rightarrow> u32 option" where
  [code]: "strlen_loop m str len =
     (if m (str + len) \<noteq> 0 then strlen_loop m str (len + 1) else Some (len + 1))"

definition strlen :: "mem \<Rightarrow> u32 \<Rightarrow> u32 option" where
  "strlen m str = map_option (\<lambda>len. len - 1) (strlen_loop m str 0)"

text \<open>The loop \<open>for (i = 0; i < n; i++) *dst++ = *src++\<close>; it also returns the final \<open>dst\<close>.\<close>

primrec copy_loop :: "nat \<Rightarrow> mem \<Rightarrow> u32 \<Rightarrow> u32 \<Rightarrow> mem \<times> u32" where
  "copy_loop 0 m src dst = (m, dst)"
| "copy_loop (Suc n) m src dst = copy_loop n (m(dst := m src)) (src + 1) (dst + 1)"

definition strcpy :: "mem \<Rightarrow> u32 \<Rightarrow> u32 \<Rightarrow> mem option" where
  "strcpy m src dst = Option.bind (strlen m src) (\<lambda>len.
     let (m', dst') = copy_loop (unat len) m src dst in Some (m'(dst' := 0)))"

definition strncpy :: "mem \<Rightarrow> u32 \<Rightarrow> u32 \<Rightarrow> u32 \<Rightarrow> mem option" where
  "strncpy m src dst max_len = Option.bind (strlen m src) (\<lambda>l.
     let len = l + 1;
         len = (if len > max_len then max_len else len);
         (m', dst') = copy_loop (unat len) m src dst
     in Some (m'(dst' := 0)))"

partial_function (option) strcmp_loop :: "mem \<Rightarrow> u32 \<Rightarrow> u32 \<Rightarrow> int option" where
  [code]: "strcmp_loop m s1 s2 =
     (if m s1 \<noteq> 0 \<and> m s2 \<noteq> 0 then
        (if m s1 \<noteq> m s2 then Some 1 else strcmp_loop m (s1 + 1) (s2 + 1))
      else Some 0)"

definition strcmp :: "mem \<Rightarrow> u32 \<Rightarrow> u32 \<Rightarrow> int option" where
  "strcmp m s1 s2 = Option.bind (strlen m s1) (\<lambda>l1. Option.bind (strlen m s2) (\<lambda>l2.
     if l1 \<noteq> l2 then Some 1 else strcmp_loop m s1 s2))"

primrec strncmp_loop :: "nat \<Rightarrow> mem \<Rightarrow> u32 \<Rightarrow> u32 \<Rightarrow> int" where
  "strncmp_loop 0 m s1 s2 = 0"
| "strncmp_loop (Suc n) m s1 s2 =
     (if m s1 \<noteq> m s2 then 1 else strncmp_loop n m (s1 + 1) (s2 + 1))"

definition strncmp :: "mem \<Rightarrow> u32 \<Rightarrow> u32 \<Rightarrow> u32 \<Rightarrow> int" where
  "strncmp m s1 s2 len = strncmp_loop (unat len) m s1 s2"

lemma unat_pred_less:
  fixes a b :: u32
  assumes "a < b"
  shows "unat (b - 1) < unat b"
proof -
  have "b \<noteq> 0" using assms by auto
  then show ?thesis by (simp add: unat_minus_one unat_gt_0)
qed

function reverse_loop :: "mem \<Rightarrow> u32 \<Rightarrow> u32 \<Rightarrow> u32 \<Rightarrow> mem" where
  "reverse_loop m str start_index end_index =
     (if start_index < end_index then
        let temp_buffer = m (str + start_index);
            m1 = m(str + start_index := m (str + end_index));
            m2 = m1(str + end_index := temp_buffer)
        in reverse_loop m2 str (start_index + 1) (end_index - 1)
      else m)"
  by pat_completeness auto
termination
  by (relation "measure (\<lambda>(m, str, s, e). unat e)") (auto intro: unat_pred_less)

definition reverse :: "mem \<Rightarrow> u32 \<Rightarrow> mem option" where
  "reverse m str = Option.bind (strlen m str) (\<lambda>len.
     let end_index = (if len > 0 then len - 1 else 0)
     in Some (reverse_loop m str 0 end_index))"

definition vtoa_digits :: "u8 list" where
  "vtoa_digits =
     map of_char ''zyxwvutsrqponmlkjihgfedcba9876543210123456789abcdefghijklmnopqrstuvwxyz''"

partial_function (option) vtoa_loop :: "mem \<Rightarrow> u32 \<Rightarrow> u32 \<Rightarrow> u32 \<Rightarrow> (mem \<times> u32 \<times> u32) option" where
  [code]: "vtoa_loop m ptr base value =
     (if base = 0 then None
      else
        (let tmp_value = value;
             value' = value div base;
             idx = unat (35 + (tmp_value - value' * base))
         in if idx < 71 then
              (let m' = m(ptr := vtoa_digits ! idx)
               in if value' \<noteq> 0 then vtoa_loop m' (ptr + 1) base value'
                  else Some (m', ptr + 1, tmp_value))
            else None))"

function swap_loop :: "mem \<Rightarrow> u32 \<Rightarrow> u32 \<Rightarrow> mem" where
  "swap_loop m ptr1 ptr =
     (if ptr1 < ptr then
        let tmp_char = m ptr;
            m1 = m(ptr := m ptr1);
            m2 = m1(ptr1 := tmp_char)
        in swap_loop m2 (ptr1 + 1) (ptr - 1)
      else m)"
  by pat_completeness auto
termination
  by (relation "measure (\<lambda>(m, s, e). unat e)") (auto intro: unat_pred_less)

definition vtoa :: "mem \<Rightarrow> u32 \<Rightarrow> u32 \<Rightarrow> u32 \<Rightarrow> mem option" where
  "vtoa m result base value =
     (let m0 = (if base < 2 \<or> base > 36 then m(result := 0) else m)
      in Option.bind (vtoa_loop m0 result base value) (\<lambda>(m1, ptr, tmp_value).
        let (m2, ptr) = (if sint tmp_value < 0 then (m1(ptr := 0x2D), ptr + 1) else (m1, ptr));
            m3 = m2(ptr := 0)
        in Some (swap_loop m3 result (ptr - 1))))"

definition itoa :: "mem \<Rightarrow> u32 \<Rightarrow> u32 \<Rightarrow> mem option" where
  "itoa m n str = vtoa m str 10 n"

definition htoa :: "mem \<Rightarrow> u32 \<Rightarrow> u32 \<Rightarrow> mem option" where
  "htoa m n str = vtoa m str 16 n"

function utoa_loop :: "mem \<Rightarrow> u32 \<Rightarrow> u32 \<Rightarrow> u32 \<Rightarrow> mem \<times> u32" where
  "utoa_loop m str i n =
     (if n > 0 then utoa_loop (m(str + i := ucast (n mod 10) + 0x30)) str (i + 1) (n div 10)
      else (m, i))"
  by pat_completeness auto
termination
proof (relation "measure (\<lambda>(m, str, i, n). unat n)", goal_cases)
  case (2 m str i n)
  then have "0 < unat n" by (simp add: unat_gt_0)
  then show ?case by (simp add: unat_div)
qed simp

definition utoa :: "mem \<Rightarrow> u32 \<Rightarrow> u32 \<Rightarrow> mem option" where
  "utoa m n str =
     (let (m0, i0) = (if n = 0 then (m(str := 0x30), 1) else (m, 0));
          (m1, i) = utoa_loop m0 str i0 n;
          m2 = m1(str + i := 0)
      in reverse m2 str)"

partial_function (option) atou_loop :: "mem \<Rightarrow> u32 \<Rightarrow> u32 \<Rightarrow> u32 option" where
  [code]: "atou_loop m str result =
     (if m str \<noteq> 0 then atou_loop m (str + 1) (result * 10 + (scast (m str) - 0x30))
      else Some result)"

definition atou :: "mem \<Rightarrow> u32 \<Rightarrow> u32 option" where
  "atou m str = atou_loop m str 0"

partial_function (option) strcat_loop :: "mem \<Rightarrow> u32 \<Rightarrow> u32 \<Rightarrow> mem option" where
  [code]: "strcat_loop m end_ptr src =
     (if m src \<noteq> 0 then strcat_loop (m(end_ptr := m src)) (end_ptr + 1) (src + 1)
      else Some (m(end_ptr := 0)))"

definition strcat :: "mem \<Rightarrow> u32 \<Rightarrow> u32 \<Rightarrow> mem option" where
  "strcat m dst src = Option.bind (strlen m dst) (\<lambda>len. strcat_loop m (dst + len) src)"

definition memcpy :: "mem \<Rightarrow> u32 \<Rightarrow> u32 \<Rightarrow> u32 \<Rightarrow> mem" where
  "memcpy m src dst count = fst (copy_loop (unat count) m src dst)"

primrec memcpy32_loop :: "nat \<Rightarrow> mem \<Rightarrow> u32 \<Rightarrow> u32 \<Rightarrow> mem" where
  "memcpy32_loop 0 m src dst = m"
| "memcpy32_loop (Suc n) m src dst = memcpy32_loop n (st32 m dst (ld32 m src)) (src + 4) (dst + 4)"

definition memcpy32 :: "mem \<Rightarrow> u32 \<Rightarrow> u32 \<Rightarrow> u32 \<Rightarrow> mem" where
  "memcpy32 m src dst count = memcpy32_loop (unat count) m src dst"

primrec memset_loop :: "nat \<Rightarrow> mem \<Rightarrow> u32 \<Rightarrow> u8 \<Rightarrow> mem" where
  "memset_loop 0 m dst v = m"
| "memset_loop (Suc n) m dst v = memset_loop n (m(dst := v)) (dst + 1) v"

definition memset :: "mem \<Rightarrow> u32 \<Rightarrow> u8 \<Rightarrow> u32 \<Rightarrow> mem" where
  "memset m dst v count = memset_loop (unat count) m dst v"

primrec memset32_loop :: "nat \<Rightarrow> mem \<Rightarrow> u32 \<Rightarrow> u32 \<Rightarrow> mem" where
  "memset32_loop 0 m dst v = m"
| "memset32_loop (Suc n) m dst v = memset32_loop n (st32 m dst v) (dst + 4) v"

definition memset32 :: "mem \<Rightarrow> u32 \<Rightarrow> u32 \<Rightarrow> u32 \<Rightarrow> mem" where
  "memset32 m dst v count = memset32_loop (unat count) m dst v"

text \<open>\<open>abs\<close> of \<^verbatim>\<open>math.c\<close>, on the two's complement representation.\<close>

definition abs_c :: "u32 \<Rightarrow> u32" where
  "abs_c n = (if sint n < 0 then - n else n)"

declare reverse_loop.simps [simp del] swap_loop.simps [simp del] utoa_loop.simps [simp del]

section \<open>Bytes in memory as lists\<close>

definition bytes :: "mem \<Rightarrow> u32 \<Rightarrow> nat \<Rightarrow> u8 list" where
  "bytes m p n = map (\<lambda>i. m (p + of_nat i)) [0..<n]"

definition cstr :: "mem \<Rightarrow> u32 \<Rightarrow> u8 list \<Rightarrow> bool" where
  "cstr m p bs \<longleftrightarrow> bytes m p (length bs) = bs \<and> 0 \<notin> set bs \<and>
     m (p + of_nat (length bs)) = 0 \<and> length bs < 2 ^ 32"

text \<open>Two memories agree outside the \<open>n\<close> bytes from \<open>p\<close> on: what a routine may write.\<close>

definition same_outside :: "mem \<Rightarrow> mem \<Rightarrow> u32 \<Rightarrow> nat \<Rightarrow> bool" where
  "same_outside m m' p n \<longleftrightarrow> (\<forall>a. (\<forall>i < n. a \<noteq> p + of_nat i) \<longrightarrow> m' a = m a)"

lemma same_outside_refl [simp]: "same_outside m m p n"
  by (simp add: same_outside_def)

lemma same_outside_trans:
  assumes "same_outside m m1 p n" and "same_outside m1 m2 p n"
  shows "same_outside m m2 p n"
  using assms by (simp add: same_outside_def)

lemma same_outside_mono: "same_outside m m' p n \<Longrightarrow> n \<le> n' \<Longrightarrow> same_outside m m' p n'"
  by (auto simp: same_outside_def)

lemma same_outside_upd: "k < n \<Longrightarrow> same_outside m m' p n \<Longrightarrow> same_outside m (m'(p + of_nat k := v)) p n"
  by (auto simp: same_outside_def)

lemma same_outside_shift:
  assumes "same_outside m m' (p + 1) n" shows "same_outside m m' p (Suc n)"
  unfolding same_outside_def
proof (intro allI impI)
  fix a assume a: "\<forall>i < Suc n. a \<noteq> p + of_nat i"
  have "a \<noteq> p + 1 + of_nat i" if "i < n" for i
    using a [rule_format, of "Suc i"] that by (simp add: algebra_simps)
  with assms show "m' a = m a" by (simp add: same_outside_def)
qed

lemma bytes_same_outside:
  assumes "same_outside m m' p n" and "\<And>i j. i < k \<Longrightarrow> j < n \<Longrightarrow> q + of_nat i \<noteq> p + of_nat j"
  shows "bytes m' q k = bytes m q k"
  using assms by (auto simp: bytes_def same_outside_def)

lemma length_bytes [simp]: "length (bytes m p n) = n"
  by (simp add: bytes_def)

lemma nth_bytes [simp]: "i < n \<Longrightarrow> bytes m p n ! i = m (p + of_nat i)"
  by (simp add: bytes_def)

lemma bytes_0 [simp]: "bytes m p 0 = []"
  by (simp add: bytes_def)

lemma bytes_Suc: "bytes m p (Suc n) = m p # bytes m (p + 1) n"
  by (rule nth_equalityI) (auto simp: nth_Cons' add.assoc)

lemma bytes_snoc: "bytes m p (Suc n) = bytes m p n @ [m (p + of_nat n)]"
  by (simp add: bytes_def)

lemma bytes_eq_iff: "bytes m p n = bs \<longleftrightarrow> length bs = n \<and> (\<forall>i < n. m (p + of_nat i) = bs ! i)"
  by (auto simp: list_eq_iff_nth_eq)

lemma cstr_iff: "cstr m p bs \<longleftrightarrow> (\<forall>i < length bs. m (p + of_nat i) = bs ! i \<and> bs ! i \<noteq> 0) \<and>
   m (p + of_nat (length bs)) = 0 \<and> length bs < 2 ^ 32"
  by (auto simp: cstr_def bytes_eq_iff in_set_conv_nth) 

lemma cstr_Cons: "cstr m p (b # bs) \<Longrightarrow> m p = b \<and> b \<noteq> 0 \<and> cstr m (p + 1) bs"
  by (auto simp: cstr_def bytes_Suc add.assoc)

lemma cstr_Nil: "cstr m p [] \<longleftrightarrow> m p = 0"
  by (simp add: cstr_def)

lemma strlen_loop_cstr:
  "cstr m (str + len) bs \<Longrightarrow> strlen_loop m str len = Some (len + of_nat (length bs) + 1)"
proof (induction bs arbitrary: len)
  case Nil
  then show ?case by (simp add: strlen_loop.simps cstr_Nil)
next
  case (Cons b bs)
  then have "m (str + len) \<noteq> 0" and "cstr m (str + (len + 1)) bs"
    by (auto dest: cstr_Cons simp: add.assoc)
  with Cons.IH [of "len + 1"] show ?case 
    by (subst strlen_loop.simps) (simp add: algebra_simps)
qed

theorem strlen_correct: "cstr m str bs \<Longrightarrow> strlen m str = Some (of_nat (length bs))"
  using strlen_loop_cstr [of m str 0 bs] by (simp add: strlen_def)

section \<open>Copying\<close>

lemma copy_loop_dst: "snd (copy_loop n m src dst) = dst + of_nat n"
  by (induction n arbitrary: m src dst) (auto simp: algebra_simps)

lemma copy_loop_frame: "same_outside m (fst (copy_loop n m src dst)) dst n"
proof (induction n arbitrary: m src dst)
  case 0
  show ?case by simp
next
  case (Suc n)
  have "same_outside m (m(dst := m src)) dst (Suc n)"
    using same_outside_upd [of 0 "Suc n" m m dst] by simp
  moreover have "same_outside (m(dst := m src)) (fst (copy_loop (Suc n) m src dst)) dst (Suc n)"
    unfolding copy_loop.simps by (rule same_outside_shift, rule Suc.IH)
  ultimately show ?case by (rule same_outside_trans)
qed

text \<open>
  The bytes read are the original ones as long as no byte is written before it is read: the
  destination does not start strictly inside the source range.
\<close>

lemma copy_loop_in:
  assumes "\<And>i. 0 < i \<Longrightarrow> i < n \<Longrightarrow> dst \<noteq> src + of_nat i" and "n \<le> 2 ^ 32" and "i < n"
  shows "fst (copy_loop n m src dst) (dst + of_nat i) = m (src + of_nat i)"
  using assms
proof (induction n arbitrary: m src dst i)
  case 0
  then show ?case by simp
next
  case (Suc n)
  have keep: "(m(dst := m src)) (src + 1 + of_nat j) = m (src + 1 + of_nat j)" if "j < n" for j
    using Suc.prems(1) [of "Suc j"] that by (auto simp: algebra_simps)
  show ?case
  proof (cases i)
    case 0
    have "dst \<noteq> dst + 1 + of_nat j" if "j < n" for j
      using of_nat_u32_inj [of 0 "Suc j"] Suc.prems(2) that by (auto simp: add.assoc)
    then have "fst (copy_loop n (m(dst := m src)) (src + 1) (dst + 1)) dst = (m(dst := m src)) dst"
      using copy_loop_frame [of "m(dst := m src)" n "src + 1" "dst + 1"]
      by (simp only: same_outside_def) blast
    with 0 show ?thesis by simp
  next
    case (Suc j)
    have "dst + 1 \<noteq> src + 1 + of_nat k" if "0 < k" "k < n" for k
      using Suc.prems(1) [of k] that by (simp add: algebra_simps)
    then have "fst (copy_loop n (m(dst := m src)) (src + 1) (dst + 1)) (dst + 1 + of_nat j)
      = (m(dst := m src)) (src + 1 + of_nat j)"
      using Suc Suc.prems by (intro Suc.IH) auto
    with keep [of j] Suc Suc.prems(3) show ?thesis by (simp add: add.assoc)
  qed
qed

lemma bytes_copy_loop:
  assumes "\<And>i. 0 < i \<Longrightarrow> i < n \<Longrightarrow> dst \<noteq> src + of_nat i" and "n \<le> 2 ^ 32"
  shows "bytes (fst (copy_loop n m src dst)) dst n = bytes m src n"
  using copy_loop_in [OF assms] by (intro nth_equalityI) auto

text \<open>A write at an offset is a list update; outside the range it changes nothing.\<close>

lemma bytes_upd:
  assumes "n \<le> 2 ^ 32" and "k < 2 ^ 32"
  shows "bytes (m(p + of_nat k := v)) p n = (bytes m p n)[k := v]"
  using assms by (intro nth_equalityI) (auto simp: nth_list_update)

lemma bytes_upd_out:
  assumes "n \<le> k" and "k < 2 ^ 32"
  shows "bytes (m(p + of_nat k := v)) p n = bytes m p n"
  using assms by (simp add: bytes_upd list_update_beyond)

lemma memcpy_correct:
  assumes "\<And>i. 0 < i \<Longrightarrow> i < unat count \<Longrightarrow> dst \<noteq> src + of_nat i"
  shows "bytes (memcpy m src dst count) dst (unat count) = bytes m src (unat count) \<and>
    same_outside m (memcpy m src dst count) dst (unat count)"
  using bytes_copy_loop [of "unat count" dst src m] assms
  by (auto simp: memcpy_def less_imp_le copy_loop_frame)

lemma strcpy_correct:
  assumes "cstr m src bs" and "\<And>i. 0 < i \<Longrightarrow> i < length bs \<Longrightarrow> dst \<noteq> src + of_nat i"
  shows "\<exists>m'. strcpy m src dst = Some m' \<and> cstr m' dst bs \<and> same_outside m m' dst (Suc (length bs))"
proof -
  let ?n = "length bs"
  let ?c = "fst (copy_loop ?n m src dst)"
  have n: "?n < 2 ^ 32" and src: "bytes m src ?n = bs"
    using assms(1) by (simp_all add: cstr_def)
  have "strcpy m src dst = Some (?c(dst + of_nat ?n := 0))"
    using strlen_correct [OF assms(1)] copy_loop_dst [of ?n m src dst] n
    by (simp add: strcpy_def unat_of_nat_small case_prod_unfold)
  moreover have "bytes ?c dst ?n = bs"
    using bytes_copy_loop [of ?n dst src m] assms(2) n src by auto
  then have "cstr (?c(dst + of_nat ?n := 0)) dst bs"
    using assms(1) n by (auto simp: cstr_def bytes_upd_out)
  moreover have "same_outside m (?c(dst + of_nat ?n := 0)) dst (Suc ?n)"
    using copy_loop_frame [of m ?n src dst] by (simp add: same_outside_upd same_outside_mono)
  ultimately show ?thesis by blast
qed

text \<open>
  What \<open>strncpy\<close> writes: the first \<open>n\<close> bytes of the string and its NUL, and then always one
  more NUL behind them.
\<close>

lemma strncpy_writes:
  assumes "cstr m src bs" and "length bs + 1 < 2 ^ 32"
    and n: "n = min (length bs + 1) (unat max_len)"
    and "\<And>i. 0 < i \<Longrightarrow> i < n \<Longrightarrow> dst \<noteq> src + of_nat i"
  shows "\<exists>m'. strncpy m src dst max_len = Some m' \<and>
    bytes m' dst (Suc n) = take n (bs @ [0]) @ [0] \<and> same_outside m m' dst (Suc n)"
proof -
  let ?c = "fst (copy_loop n m src dst)"
  let ?l = "of_nat (length bs) + 1 :: u32"
  have l: "unat ?l = length bs + 1"
    using unat_of_nat_small [OF assms(2)] by (simp add: add.commute)
  have n32: "n < 2 ^ 32" using n assms(2) by simp
  have len: "unat (if ?l > max_len then max_len else ?l) = n"
    using l n by (auto simp: word_less_nat_alt)
  have "strncpy m src dst max_len = Some (?c(dst + of_nat n := 0))"
    using strlen_correct [OF assms(1)] copy_loop_dst [of n m src dst] len
    by (simp add: strncpy_def Let_def case_prod_unfold)
  moreover have src: "bytes m src (length bs + 1) = bs @ [0]"
    using assms(1) bytes_snoc [of m src "length bs"] by (simp add: cstr_def)
  have "bytes m src n = take n (bytes m src (length bs + 1))"
    using n by (intro nth_equalityI) auto
  then have "bytes ?c dst n = take n (bs @ [0])"
    using bytes_copy_loop [of n dst src m] assms(4) n32 src by auto
  then have "bytes (?c(dst + of_nat n := 0)) dst (Suc n) = take n (bs @ [0]) @ [0]"
    using n32 by (simp add: bytes_snoc bytes_upd_out)
  moreover have "same_outside m (?c(dst + of_nat n := 0)) dst (Suc n)"
    using copy_loop_frame [of m n src dst] by (simp add: same_outside_upd same_outside_mono)
  ultimately show ?thesis by blast
qed

section \<open>Comparing\<close>

lemma strcmp_loop_cstr:
  assumes "cstr m s1 xs" and "cstr m s2 ys" and "length xs = length ys"
  shows "strcmp_loop m s1 s2 = Some (if xs = ys then 0 else 1)"
  using assms(3,1,2)
proof (induction xs ys arbitrary: s1 s2 rule: list_induct2)
  case Nil
  then show ?case by (simp add: cstr_Nil strcmp_loop.simps)
next
  case (Cons x xs y ys)
  from cstr_Cons [OF Cons.prems(1)] cstr_Cons [OF Cons.prems(2)] Cons.IH
  show ?case by (subst strcmp_loop.simps) auto
qed

lemma strcmp_correct:
  assumes "cstr m s1 xs" and "cstr m s2 ys"
  shows "strcmp m s1 s2 = Some (if xs = ys then 0 else 1)"
proof (cases "length xs = length ys")
  case True
  then show ?thesis
    using assms by (simp add: strcmp_def strlen_correct strcmp_loop_cstr)
next
  case False
  moreover have "length xs < 2 ^ 32" "length ys < 2 ^ 32"
    using assms by (simp_all add: cstr_def)
  ultimately show ?thesis
    using assms by (auto simp: strcmp_def strlen_correct)
qed

section \<open>Reversing in place\<close>

lemma reverse_loop_nth:
  assumes "s < 2 ^ 32" and "e < 2 ^ 32" and "k < 2 ^ 32"
  shows "reverse_loop m str (of_nat s) (of_nat e) (str + of_nat k) =
    (if s \<le> k \<and> k \<le> e then m (str + of_nat (s + e - k)) else m (str + of_nat k))"
  using assms
proof (induction e arbitrary: m s rule: less_induct)
  case (less e)
  show ?case
  proof (cases "s < e")
    case False
    then have "reverse_loop m str (of_nat s) (of_nat e) = m"
      using less.prems by (subst reverse_loop.simps) (simp add: of_nat_less_iff_u32)
    with False show ?thesis by (cases "k = s") auto
  next
    case True
    define m2 where
      "m2 = m(str + of_nat s := m (str + of_nat e), str + of_nat e := m (str + of_nat s))"
    have step: "reverse_loop m str (of_nat s) (of_nat e) =
      reverse_loop m2 str (of_nat (Suc s)) (of_nat (e - 1))"
      using less.prems True
      by (subst reverse_loop.simps)
        (simp only: of_nat_less_iff_u32 of_nat_pred [of e] of_nat_Suc_u32 Let_def if_True m2_def)
    have idx: "Suc s + (e - 1) - k = s + e - k" using True by simp
    have eq: "reverse_loop m str (of_nat s) (of_nat e) (str + of_nat k) =
      (if Suc s \<le> k \<and> k \<le> e - 1 then m2 (str + of_nat (s + e - k)) else m2 (str + of_nat k))"
      unfolding step idx [symmetric] using True less.prems by (intro less.IH) auto
    show ?thesis
    proof (cases "Suc s \<le> k \<and> k \<le> e - 1")
      case True
      then have "s + e - k < 2 ^ 32" "s + e - k \<noteq> s" "s + e - k \<noteq> e" using less.prems by auto
      with True eq less.prems show ?thesis by (auto simp: m2_def)
    next
      case out: False
      show ?thesis using eq out True less.prems by (auto simp: m2_def)
    qed
  qed
qed

lemma swap_loop_reverse:
  assumes "unat p + e < 2 ^ 32" and "unat p + s < 2 ^ 32"
  shows "swap_loop m (p + of_nat s) (p + of_nat e) = reverse_loop m p (of_nat s) (of_nat e)"
  using assms
proof (induction e arbitrary: m s rule: less_induct)
  case (less e)
  have e: "unat (p + of_nat e) = unat p + e" "e < 2 ^ 32"
    using less.prems by (auto simp: unat_add_small unat_of_nat_small)
  show ?case
  proof (cases "s < e")
    case True
    have s: "unat (p + of_nat s) = unat p + s"
      using less.prems True by (simp add: unat_add_small unat_of_nat_small)
    define m2 where "m2 = m(p + of_nat s := m (p + of_nat e), p + of_nat e := m (p + of_nat s))"
    have m2: "m(p + of_nat e := m (p + of_nat s), p + of_nat s := m (p + of_nat e)) = m2"
      unfolding m2_def by (rule fun_upd_twist) (use True e less.prems in auto)
    have lt: "p + of_nat s < p + of_nat e" "(of_nat s :: u32) < of_nat e"
      using True e s less.prems by (simp_all add: word_less_nat_alt unat_of_nat_small)
    have pe: "p + of_nat e - 1 = p + of_nat (e - 1)"
      using True of_nat_pred [of e] by (simp add: algebra_simps)
    have "swap_loop m (p + of_nat s) (p + of_nat e) = swap_loop m2 (p + of_nat (Suc s)) (p + of_nat (e - 1))"
      using lt pe m2 by (subst swap_loop.simps) (simp add: algebra_simps)
    also have "\<dots> = reverse_loop m2 p (of_nat (Suc s)) (of_nat (e - 1))"
      using True less.prems by (intro less.IH) auto
    also have "\<dots> = reverse_loop m p (of_nat s) (of_nat e)"
      using lt True by (subst (2) reverse_loop.simps)
        (simp only: of_nat_pred [of e] of_nat_Suc_u32 Let_def if_True m2_def)
    finally show ?thesis .
  next
    case False
    have "unat (p + of_nat s) = unat p + s" "s < 2 ^ 32"
      using less.prems by (auto simp: unat_add_small unat_of_nat_small)
    with False e have "\<not> p + of_nat s < p + of_nat e" by (simp add: word_less_nat_alt)
    with False less.prems show ?thesis
      by (subst swap_loop.simps, subst reverse_loop.simps) (simp add: of_nat_less_iff_u32)
  qed
qed

section \<open>Digits\<close>

text \<open>The digits of a number in a base, least significant first; none for zero.\<close>

fun ldigits :: "nat \<Rightarrow> nat \<Rightarrow> nat list" where
  "ldigits b n = (if b < 2 \<or> n = 0 then [] else n mod b # ldigits b (n div b))"

declare ldigits.simps [simp del]

definition udigits :: "nat \<Rightarrow> nat \<Rightarrow> nat list" where
  "udigits b n = (if n = 0 then [0] else ldigits b n)"

definition digit_char :: "nat \<Rightarrow> u8" where
  "digit_char d = vtoa_digits ! (35 + d)"

text \<open>The text of a number: its digits, most significant first.\<close>

definition utext :: "nat \<Rightarrow> nat \<Rightarrow> u8 list" where
  "utext b n = map digit_char (rev (udigits b n))"

lemma ldigits_0 [simp]: "ldigits b 0 = []"
  by (simp add: ldigits.simps)

lemma ldigits_pos: "2 \<le> b \<Longrightarrow> 0 < n \<Longrightarrow> ldigits b n = n mod b # ldigits b (n div b)"
  by (subst ldigits.simps) simp

lemma udigits_Cons: "2 \<le> b \<Longrightarrow> udigits b n = n mod b # ldigits b (n div b)"
  by (simp add: udigits_def ldigits_pos)

lemma ldigits_less: "d \<in> set (ldigits b n) \<Longrightarrow> d < b"
  by (induction b n rule: ldigits.induct) (subst (asm) (2) ldigits.simps, auto split: if_splits)

lemma udigits_less: "2 \<le> b \<Longrightarrow> d \<in> set (udigits b n) \<Longrightarrow> d < b"
  by (auto simp: udigits_def ldigits_less split: if_splits)

lemma length_ldigits: "n < 2 ^ k \<Longrightarrow> length (ldigits b n) \<le> k"
proof (induction k arbitrary: n)
  case 0
  then show ?case by simp
next
  case (Suc k)
  show ?case
  proof (cases "b < 2 \<or> n = 0")
    case True
    then show ?thesis by (subst ldigits.simps) simp
  next
    case False
    then have "n div b \<le> n div 2" by (intro div_le_mono2) auto
    also have "\<dots> < 2 ^ k" using Suc.prems by auto
    finally show ?thesis using Suc.IH False by (subst ldigits.simps) simp
  qed
qed

lemma length_udigits: "n < 2 ^ k \<Longrightarrow> 0 < k \<Longrightarrow> length (udigits b n) \<le> k"
  by (auto simp: udigits_def length_ldigits)

lemma eval_ldigits: "2 \<le> b \<Longrightarrow> foldr (\<lambda>d r. r * b + d) (ldigits b n) 0 = n"
proof (induction b n rule: ldigits.induct)
  case (1 b n)
  then show ?case by (cases "n = 0") (simp_all add: ldigits_pos)
qed

lemma eval_udigits: "2 \<le> b \<Longrightarrow> foldr (\<lambda>d r. r * b + d) (udigits b n) 0 = n"
  by (simp add: udigits_def eval_ldigits)

lemma digit_char_dec: "d < 10 \<Longrightarrow> digit_char d = of_nat d + 0x30"
  by (auto simp: digit_char_def vtoa_digits_def numeral_eq_Suc less_Suc_eq)

lemma digit_char_nz: "d < 36 \<Longrightarrow> digit_char d \<noteq> 0"
proof -
  assume "d < 36"
  then have "digit_char d \<in> set vtoa_digits"
    unfolding digit_char_def by (intro nth_mem) (simp add: vtoa_digits_def)
  moreover have "0 \<notin> set vtoa_digits" by (simp add: vtoa_digits_def)
  ultimately show ?thesis by metis
qed


lemma reverse_eq_loop:
  assumes "cstr m str bs"
  shows "reverse m str = Some (reverse_loop m str (of_nat 0) (of_nat (length bs - 1)))"
proof -
  have len: "length bs < 2 ^ 32" using assms by (simp add: cstr_def)
  have e: "(if 0 < (of_nat (length bs) :: u32) then of_nat (length bs) - 1 else 0)
    = (of_nat (length bs - 1) :: u32)"
    using len of_nat_less_iff_u32 [of 0 "length bs"] of_nat_pred [of "length bs"] by auto
  show ?thesis using e by (simp add: reverse_def strlen_correct [OF assms] Let_def)
qed

lemma reverse_correct:
  assumes "cstr m str bs"
  shows "\<exists>m'. reverse m str = Some m' \<and> cstr m' str (rev bs) \<and> same_outside m m' str (length bs)"
proof -
  let ?e = "length bs - 1"
  let ?m = "reverse_loop m str (of_nat 0) (of_nat ?e)"
  have len: "length bs < 2 ^ 32" using assms by (simp add: cstr_def)
  have "reverse m str = Some ?m" by (rule reverse_eq_loop [OF assms])
  moreover have nth: "?m (str + of_nat k) = (if k \<le> ?e then m (str + of_nat (?e - k)) else m (str + of_nat k))"
    if "k < 2 ^ 32" for k
    using reverse_loop_nth [of 0 ?e k m str] len that by simp
  have "cstr ?m str (rev bs)"
    unfolding cstr_iff
  proof (intro conjI allI impI)
    fix i assume "i < length (rev bs)"
    then have i: "i < length bs" by simp
    then have r: "rev bs ! i = bs ! (?e - i)" by (simp add: rev_nth)
    have "?e - i < length bs" using i by simp
    then have b: "m (str + of_nat (?e - i)) = bs ! (?e - i)"
      using assms by (simp only: cstr_iff)
    have "i \<le> ?e" "i < 2 ^ 32" using i len by auto
    then have "?m (str + of_nat i) = m (str + of_nat (?e - i))"
      using nth [of i] by (simp only: if_True)
    then show "?m (str + of_nat i) = rev bs ! i" using b r by simp
    show "rev bs ! i \<noteq> 0"
      using r i assms by (auto simp: cstr_iff)
  qed (use nth [of "length bs"] assms len in \<open>auto simp: cstr_iff split: if_splits\<close>)
  moreover have "same_outside m ?m str (length bs)"
    unfolding same_outside_def
  proof (intro allI impI)
    fix a assume a: "\<forall>i < length bs. a \<noteq> str + of_nat i"
    let ?k = "unat (a - str)"
    have k: "str + of_nat ?k = a" by simp
    have "\<not> ?k < length bs" using a k by metis
    then show "?m a = m a" using nth [of ?k] k by (cases bs) (auto simp: unat_eq_zero)
  qed
  ultimately show ?thesis by blast
qed

lemma ucast_digit: "(ucast (n mod 10 :: u32) :: u8) + 0x30 = digit_char (unat n mod 10)"
proof -
  have "(ucast (n mod 10 :: u32) :: u8) = of_nat (unat (n mod 10))"
    by (rule of_nat_unat [symmetric])
  then have "(ucast (n mod 10 :: u32) :: u8) = of_nat (unat n mod 10)"
    by (simp add: unat_mod del: of_nat_unat)
  then show ?thesis by (simp add: digit_char_dec)
qed

lemma utoa_loop_bytes:
  assumes "i + length (ldigits 10 (unat n)) < 2 ^ 32"
  shows "\<exists>m'. utoa_loop m str (of_nat i) n = (m', of_nat (i + length (ldigits 10 (unat n)))) \<and>
    bytes m' str (i + length (ldigits 10 (unat n))) =
      bytes m str i @ map digit_char (ldigits 10 (unat n)) \<and>
    same_outside m m' str (i + length (ldigits 10 (unat n)))"
  using assms
proof (induction "unat n" arbitrary: m i n rule: less_induct)
  case less
  show ?case
  proof (cases "n = 0")
    case True
    then show ?thesis by (subst utoa_loop.simps) simp
  next
    case False
    let ?m = "m(str + of_nat i := digit_char (unat n mod 10))"
    let ?d = "ldigits 10 (unat (n div 10))"
    have n: "0 < unat n" using False by (simp add: unat_gt_0)
    then have ds: "ldigits 10 (unat n) = unat n mod 10 # ?d"
      by (simp add: ldigits_pos unat_div)
    have step: "utoa_loop m str (of_nat i) n = utoa_loop ?m str (of_nat (Suc i)) (n div 10)"
      using False by (subst utoa_loop.simps)
        (simp only: ucast_digit word_gt_0 of_nat_Suc_u32 neq_commute [of 0] not_False_eq_True if_True)
    obtain m' where m': "utoa_loop ?m str (of_nat (Suc i)) (n div 10) = (m', of_nat (Suc i + length ?d))"
      "bytes m' str (Suc i + length ?d) = bytes ?m str (Suc i) @ map digit_char ?d"
      "same_outside ?m m' str (Suc i + length ?d)"
      using less.hyps [of "n div 10" "Suc i" ?m] n less.prems ds by (auto simp: unat_div)
    have "bytes ?m str (Suc i) = bytes m str i @ [digit_char (unat n mod 10)]"
      using less.prems ds by (simp add: bytes_snoc bytes_upd_out)
    moreover have "same_outside m ?m str (Suc i + length ?d)"
      by (intro same_outside_upd) auto
    then have "same_outside m m' str (Suc i + length ?d)"
      using m'(3) by (rule same_outside_trans)
    ultimately show ?thesis using m' step ds by simp
  qed
qed

lemma length_utext_32: "length (utext b (unat (n :: u32))) \<le> 32"
  using length_udigits [of "unat n" 32 b] by (simp add: utext_def)

lemma utext_nz: "2 \<le> b \<Longrightarrow> b \<le> 36 \<Longrightarrow> 0 \<notin> set (utext b n)"
proof
  assume b: "2 \<le> b" "b \<le> 36" and "0 \<in> set (utext b n)"
  then obtain d where d: "d \<in> set (udigits b n)" "digit_char d = 0"
    by (auto simp: utext_def)
  with b udigits_less have "d < 36" by fastforce
  with d digit_char_nz show False by blast
qed

lemma utoa_correct:
  "\<exists>m'. utoa m n str = Some m' \<and> cstr m' str (utext 10 (unat n)) \<and>
     same_outside m m' str (Suc (length (utext 10 (unat n))))"
proof -
  let ?ds = "udigits 10 (unat n)"
  let ?l = "length ?ds"
  have l: "?l < 2 ^ 32" using length_udigits [of "unat n" 32 10] by simp
  define m0 where "m0 = (if n = 0 then m(str := 0x30) else m)"
  define i0 where "i0 = (if n = 0 then 1 else 0 :: nat)"
  have m0: "same_outside m m0 str ?l" "bytes m0 str i0 @ map digit_char (ldigits 10 (unat n)) = map digit_char ?ds"
    "i0 + length (ldigits 10 (unat n)) = ?l"
    using same_outside_upd [of 0 1 m m str] digit_char_dec [of 0]
    by (auto simp: m0_def i0_def udigits_def bytes_Suc unat_eq_zero)
  have i0: "(if n = 0 then (m(str := 0x30), 1) else (m, 0)) = (m0, of_nat i0)"
    by (simp add: m0_def i0_def)
  obtain m1 where m1: "utoa_loop m0 str (of_nat i0) n = (m1, of_nat ?l)"
    "bytes m1 str ?l = map digit_char ?ds" "same_outside m0 m1 str ?l"
    using utoa_loop_bytes [of i0 n m0 str] m0 l by auto
  have s: "same_outside m (m1(str + of_nat ?l := 0)) str (Suc ?l)"
    using same_outside_trans [OF m0(1) m1(3)] by (simp add: same_outside_upd same_outside_mono)
  have "cstr (m1(str + of_nat ?l := 0)) str (map digit_char ?ds)"
    using m1(2) l utext_nz [of 10 "unat n"] by (simp add: cstr_def bytes_upd_out utext_def)
  then obtain m2 where "reverse (m1(str + of_nat ?l := 0)) str = Some m2"
    "cstr m2 str (utext 10 (unat n))" "same_outside (m1(str + of_nat ?l := 0)) m2 str ?l"
    using reverse_correct by (force simp: utext_def rev_map)
  moreover have "utoa m n str = reverse (m1(str + of_nat ?l := 0)) str"
    unfolding utoa_def i0 using m1(1) by simp
  ultimately show ?thesis
    using same_outside_trans [OF s] same_outside_mono [of _ m2 str ?l "Suc ?l"]
    by (auto simp: utext_def)
qed


lemma vtoa_loop_bytes:
  assumes b: "2 \<le> unat base" "unat base \<le> 36"
  shows "\<exists>m' tmp. vtoa_loop m ptr base v = Some (m', ptr + of_nat (length (udigits (unat base) (unat v))), tmp) \<and>
    unat tmp < unat base \<and>
    bytes m' ptr (length (udigits (unat base) (unat v))) = map digit_char (udigits (unat base) (unat v)) \<and>
    same_outside m m' ptr (length (udigits (unat base) (unat v)))"
proof (induction "unat v" arbitrary: m ptr v rule: less_induct)
  case less
  let ?b = "unat base"
  let ?m = "m(ptr := digit_char (unat v mod ?b))"
  let ?v = "v div base"
  have v: "unat ?v = unat v div ?b" by (simp add: unat_div)
  have r: "v - ?v * base = v mod base" by (simp add: minus_div_mult_eq_mod)
  have mod: "unat v mod ?b < ?b" using b by simp
  have "unat (35 + v mod base) = 35 + unat v mod ?b"
    using b mod unat_add_small [of 35 "v mod base"]
    by (simp add: unat_mod less_trans [OF mod] del: mod_less_divisor)
  then have idx: "unat (35 + (v - ?v * base)) = 35 + unat v mod ?b" by (simp only: r)
  have lt: "35 + unat v mod ?b < 71" using mod b by linarith
  have b0: "base \<noteq> 0" using b by auto
  have step: "vtoa_loop m ptr base v =
    (if ?v \<noteq> 0 then vtoa_loop ?m (ptr + 1) base ?v else Some (?m, ptr + 1, v))"
    using lt b0 by (subst vtoa_loop.simps) (simp only: idx Let_def digit_char_def if_True if_False)
  have ds: "udigits ?b (unat v) = unat v mod ?b # ldigits ?b (unat ?v)"
    using b by (simp add: udigits_Cons v)
  have m: "same_outside m ?m ptr (Suc k)" for k
    using same_outside_upd [of 0 "Suc k" m m ptr] by simp
  show ?case
  proof (cases "?v = 0")
    case True
    then have "unat v < ?b" using v b by (simp add: div_eq_0_iff)
    with True step ds m [of 0] show ?thesis by (simp add: bytes_Suc)
  next
    case False
    let ?ds = "udigits ?b (unat ?v)"
    have "v \<noteq> 0" using False by auto
    then have "unat v \<noteq> 0" by (simp add: unat_eq_zero)
    then have "unat ?v < unat v" using b v by simp
    from less.hyps [OF this, of ?m "ptr + 1"] obtain m' tmp where m':
      "vtoa_loop ?m (ptr + 1) base ?v = Some (m', ptr + 1 + of_nat (length ?ds), tmp)" "unat tmp < ?b"
      "bytes m' (ptr + 1) (length ?ds) = map digit_char ?ds" "same_outside ?m m' (ptr + 1) (length ?ds)"
      by blast
    have l: "length ?ds \<le> 32" using length_udigits [of "unat ?v" 32] by simp
    have ds': "udigits ?b (unat v) = unat v mod ?b # ?ds"
      using ds False by (simp add: udigits_def unat_eq_zero)
    have "ptr \<noteq> ptr + 1 + of_nat i" if "i < length ?ds" for i
      using of_nat_u32_inj [of 0 "Suc i"] l that by (auto simp: add.assoc)
    then have "m' ptr = digit_char (unat v mod ?b)"
      using m'(4) by (simp add: same_outside_def)
    moreover have "same_outside m m' ptr (Suc (length ?ds))"
      using same_outside_trans [OF m same_outside_shift [OF m'(4)]] .
    ultimately show ?thesis
      using m' step ds' False by (simp add: bytes_Suc add.assoc)
  qed
qed

lemma vtoa_text:
  assumes b: "2 \<le> unat base" "unat base \<le> 36" and p: "unat str + 33 < 2 ^ 32"
  shows "\<exists>m'. vtoa m str base n = Some m' \<and> cstr m' str (utext (unat base) (unat n)) \<and>
     same_outside m m' str (Suc (length (utext (unat base) (unat n))))"
proof -
  let ?ds = "udigits (unat base) (unat n)"
  let ?l = "length ?ds"
  have l: "?l \<le> 32" using length_udigits [of "unat n" 32] by simp
  have l0: "0 < ?l" using b by (simp add: udigits_Cons)
  obtain m1 tmp where m1: "vtoa_loop m str base n = Some (m1, str + of_nat ?l, tmp)" "unat tmp < unat base"
    "bytes m1 str ?l = map digit_char ?ds" "same_outside m m1 str ?l"
    using vtoa_loop_bytes [OF b] by blast
  let ?m3 = "m1(str + of_nat ?l := 0)"
  have nb: "\<not> (base < 2 \<or> base > 36)" using b by (simp add: word_less_nat_alt)
  have pos: "\<not> sint tmp < 0"
    using m1(2) b by (simp add: sint_small)
  have eq: "vtoa m str base n = Some (swap_loop ?m3 str (str + of_nat ?l - 1))"
    using nb pos m1(1) by (simp add: vtoa_def)
  have s: "same_outside m ?m3 str (Suc ?l)"
    using m1(4) by (simp add: same_outside_upd same_outside_mono)
  have c: "cstr ?m3 str (map digit_char ?ds)"
    using m1(3) l utext_nz [of "unat base" "unat n"] b by (simp add: cstr_def bytes_upd_out utext_def)
  then obtain m2 where m2: "reverse ?m3 str = Some m2" "cstr m2 str (utext (unat base) (unat n))"
    "same_outside ?m3 m2 str ?l"
    using reverse_correct by (force simp: utext_def rev_map)
  have e: "str + of_nat ?l - 1 = str + of_nat (?l - 1)"
    using of_nat_pred [OF l0] by (simp add: algebra_simps)
  have "reverse_loop ?m3 str (of_nat 0) (of_nat (?l - 1)) = m2"
    using reverse_eq_loop [OF c] m2(1) by simp
  moreover have "swap_loop ?m3 (str + of_nat 0) (str + of_nat (?l - 1)) =
    reverse_loop ?m3 str (of_nat 0) (of_nat (?l - 1))"
    using l p by (intro swap_loop_reverse) auto
  ultimately have "swap_loop ?m3 str (str + of_nat ?l - 1) = m2"
    unfolding e by simp
  with eq m2 show ?thesis
    using same_outside_trans [OF s] same_outside_mono [of _ m2 str ?l "Suc ?l"]
    by (auto simp: utext_def)
qed

text \<open>C38: in every base from 2 to 36 \<open>_vtoa\<close> returns, leaves the digits of its argument read as
  an unsigned number as a terminated string, and writes nothing else. The argument of \<open>itoa\<close>
  and \<open>%d\<close> is signed, but no minus sign is ever produced.\<close>

theorem vtoa_correct:
  assumes b: "2 \<le> unat base" "unat base \<le> 36" and p: "unat str + 33 < 2 ^ 32"
  shows "\<exists>m'. vtoa m str base n = Some m' \<and> cstr m' str (utext (unat base) (unat n)) \<and>
     same_outside m m' str (Suc (length (utext (unat base) (unat n))))"
  using assms by (rule vtoa_text)


lemma scast_digit:
  assumes "d < 10"
  shows "scast (digit_char d) - 0x30 = (of_nat d :: u32)"
proof -
  have "d \<in> {0, 1, 2, 3, 4, 5, 6, 7, 8, 9}" using assms by auto
  then show ?thesis by (auto simp: digit_char_def vtoa_digits_def)
qed

lemma atou_loop_cstr:
  assumes "cstr m str (map digit_char ds)" and "\<forall>d \<in> set ds. d < 10"
  shows "atou_loop m str r = Some (foldl (\<lambda>r d. r * 10 + of_nat d) r ds)"
  using assms
proof (induction ds arbitrary: str r)
  case Nil
  then show ?case by (simp add: atou_loop.simps cstr_Nil)
next
  case (Cons d ds)
  have d: "m str = digit_char d" "digit_char d \<noteq> 0" "cstr m (str + 1) (map digit_char ds)"
    using cstr_Cons [of m str "digit_char d" "map digit_char ds"] Cons.prems by auto
  with Cons scast_digit [of d] show ?case by (subst atou_loop.simps) simp
qed

lemma foldl_of_nat:
  "foldl (\<lambda>r d. r * 10 + of_nat d) (of_nat r) ds = (of_nat (foldl (\<lambda>r d. r * 10 + d) r ds) :: u32)"
proof (induction ds arbitrary: r)
  case (Cons d ds)
  then show ?case using Cons.IH [of "r * 10 + d"] by simp
qed simp

text \<open>C39: \<open>atou\<close> reads back the number that \<open>utoa\<close> printed, for all 2^32 values.\<close>

theorem atou_utoa:
  "\<exists>m'. utoa m n str = Some m' \<and> atou m' str = Some n"
proof -
  let ?ds = "rev (udigits 10 (unat n))"
  obtain m' where m': "utoa m n str = Some m'" "cstr m' str (map digit_char ?ds)"
    using utoa_correct [of m n str] by (auto simp: utext_def)
  have val: "foldl (\<lambda>r d. r * 10 + d) 0 ?ds = unat n"
    using eval_udigits [of 10 "unat n"] by (simp add: foldl_conv_foldr)
  have "atou m' str = Some (foldl (\<lambda>r d. r * 10 + of_nat d) (of_nat 0) ?ds)"
    using atou_loop_cstr [OF m'(2), of 0] udigits_less [of 10] by (simp add: atou_def)
  then have "atou m' str = Some (of_nat (unat n))"
    by (simp only: foldl_of_nat val)
  then show ?thesis using m'(1) by simp
qed

section \<open>Further properties\<close>

theorem vtoa_correct_witness:
  "\<exists>m'. vtoa (\<lambda>_. 0) 0x1000 10 0xFFFFFFFF = Some m' \<and> cstr m' 0x1000 [52, 50, 57, 52, 57, 54, 55, 50, 57, 53]"
proof -
  have "utext 10 4294967295 = [52, 50, 57, 52, 57, 54, 55, 50, 57, 53]"
    by (simp add: utext_def udigits_def ldigits_pos digit_char_def vtoa_digits_def)
  with vtoa_correct [of 10 "0x1000" "\<lambda>_. 0" "0xFFFFFFFF"] show ?thesis by auto
qed

text \<open>C40: \<open>strncpy\<close> with limit \<open>max_len\<close> stores \<open>n = min (length + 1) max_len\<close> bytes of the
  source string and one NUL byte after them: \<open>n + 1\<close> bytes in all, which is one more than
  \<open>max_len\<close> when the source does not fit.\<close>

theorem strncpy_stores:
  assumes "cstr m src bs" and "length bs + 1 < 2 ^ 32"
    and "\<And>i. 0 < i \<Longrightarrow> i < min (length bs + 1) (unat max_len) \<Longrightarrow> dst \<noteq> src + of_nat i"
  shows "\<exists>m'. strncpy m src dst max_len = Some m' \<and>
    bytes m' dst (Suc (min (length bs + 1) (unat max_len))) =
      take (min (length bs + 1) (unat max_len)) (bs @ [0]) @ [0] \<and>
    same_outside m m' dst (Suc (min (length bs + 1) (unat max_len)))"
  by (rule strncpy_writes [OF assms(1,2) refl]) (rule assms(3))

theorem strncpy_stores_witness:
  "\<exists>m'. strncpy (\<lambda>a. if a = 0x1000 \<or> a = 0x1001 \<or> a = 0x1002 then 65 else 0) 0x1000 0x2000 2 = Some m' \<and>
    bytes m' 0x2000 3 = [65, 65, 0]"
proof -
  let ?m = "\<lambda>a :: u32. if a = 0x1000 \<or> a = 0x1001 \<or> a = 0x1002 then 65 else 0 :: u8"
  have c: "cstr ?m 0x1000 [65, 65, 65]" by (simp add: cstr_def bytes_def upt_rec)
  have "(0x2000 :: u32) \<noteq> 0x1000 + of_nat i" if "0 < i" "i < 2" for i
  proof -
    have "i = 1" using that by simp
    then show ?thesis by simp
  qed
  with strncpy_stores [OF c, of 2 "0x2000"] show ?thesis by (auto simp: numeral_3_eq_3)
qed

text \<open>\<open>strcmp\<close> returns on any two C strings, 0 exactly when they are equal.\<close>

lemma strcmp_decides:
  assumes "cstr m s1 xs" and "cstr m s2 ys"
  shows "strcmp m s1 s2 = Some (if xs = ys then 0 else 1)"
  by (rule strcmp_correct [OF assms])

end
