(* ===== verification/Llist.thy ===== *)
theory Llist
  imports Memory
begin

text \<open>
  The intrusive circular doubly linked list of \<^verbatim>\<open>include/klibc/llist.h\<close>, over the flat
  memory: a \<open>struct list_head\<close> at address \<open>p\<close> keeps \<open>next\<close> at \<open>p\<close> and \<open>prev\<close> at
  \<open>p + 4\<close>. \<open>dlist m h xs\<close> says that the list with head \<open>h\<close> holds the entries \<open>xs\<close> in
  this order; the lemmas show that each operation acts on \<open>xs\<close> as its comment promises.
\<close>

section \<open>Definitions\<close>

definition next_of :: "mem \<Rightarrow> u32 \<Rightarrow> u32" where
  "next_of m p = ld32 m p"

definition prev_of :: "mem \<Rightarrow> u32 \<Rightarrow> u32" where
  "prev_of m p = ld32 m (p + 4)"

definition set_next :: "mem \<Rightarrow> u32 \<Rightarrow> u32 \<Rightarrow> mem" where
  "set_next m p q = st32 m p q"

definition set_prev :: "mem \<Rightarrow> u32 \<Rightarrow> u32 \<Rightarrow> mem" where
  "set_prev m p q = st32 m (p + 4) q"

definition INIT_LIST_HEAD :: "mem \<Rightarrow> u32 \<Rightarrow> mem" where
  "INIT_LIST_HEAD m ptr = set_prev (set_next m ptr ptr) ptr ptr"

definition list_add_between :: "mem \<Rightarrow> u32 \<Rightarrow> u32 \<Rightarrow> u32 \<Rightarrow> mem" where
  "list_add_between m new prv nxt =
     (let m1 = set_prev m nxt new;
          m2 = set_next m1 new nxt;
          m3 = set_prev m2 new prv
      in set_next m3 prv new)"

definition list_add :: "mem \<Rightarrow> u32 \<Rightarrow> u32 \<Rightarrow> mem" where
  "list_add m new head = list_add_between m new head (next_of m head)"

definition list_add_tail :: "mem \<Rightarrow> u32 \<Rightarrow> u32 \<Rightarrow> mem" where
  "list_add_tail m new head = list_add_between m new (prev_of m head) head"

definition list_del_between :: "mem \<Rightarrow> u32 \<Rightarrow> u32 \<Rightarrow> mem" where
  "list_del_between m prv nxt = set_next (set_prev m nxt prv) prv nxt"

definition list_del_entry :: "mem \<Rightarrow> u32 \<Rightarrow> mem" where
  "list_del_entry m entry = list_del_between m (prev_of m entry) (next_of m entry)"

definition list_del :: "mem \<Rightarrow> u32 \<Rightarrow> mem" where
  "list_del m entry =
     (let m1 = list_del_between m (prev_of m entry) (next_of m entry)
      in set_prev (set_next m1 entry 0) entry 0)"

definition list_del_init :: "mem \<Rightarrow> u32 \<Rightarrow> mem" where
  "list_del_init m entry =
     (let m1 = list_del_between m (prev_of m entry) (next_of m entry)
      in INIT_LIST_HEAD m1 entry)"

definition list_move :: "mem \<Rightarrow> u32 \<Rightarrow> u32 \<Rightarrow> mem" where
  "list_move m list head =
     list_add (list_del_between m (prev_of m list) (next_of m list)) list head"

definition list_move_tail :: "mem \<Rightarrow> u32 \<Rightarrow> u32 \<Rightarrow> mem" where
  "list_move_tail m list head =
     list_add_tail (list_del_between m (prev_of m list) (next_of m list)) list head"

definition list_empty :: "mem \<Rightarrow> u32 \<Rightarrow> bool" where
  "list_empty m head \<longleftrightarrow> next_of m head = head \<or> next_of m head = 0"

partial_function (option) list_size_loop :: "mem \<Rightarrow> u32 \<Rightarrow> u32 \<Rightarrow> u32 \<Rightarrow> u32 option" where
  [code]: "list_size_loop m head p n =
     (if p \<noteq> head then list_size_loop m head (next_of m p) (n + 1) else Some n)"

definition list_size :: "mem \<Rightarrow> u32 \<Rightarrow> u32 option" where
  "list_size m head = list_size_loop m head (next_of m head) 0"

text \<open>
  The loops the other components write with \<open>list_for_each\<close> and a \<open>break\<close>: the first
  iterator from \<open>pos\<close> on that satisfies the test, or the head when none does.
\<close>

partial_function (option) list_find :: "mem \<Rightarrow> u32 \<Rightarrow> (u32 \<Rightarrow> bool) \<Rightarrow> u32 \<Rightarrow> u32 option" where
  [code]: "list_find m head P pos =
     (if pos \<noteq> head then (if P pos then Some pos else list_find m head P (next_of m pos))
      else Some head)"

text \<open>The loops that visit every iterator: they fold a step over the entries.\<close>

partial_function (option) list_fold :: "mem \<Rightarrow> u32 \<Rightarrow> (u32 \<Rightarrow> 'a \<Rightarrow> 'a) \<Rightarrow> u32 \<Rightarrow> 'a \<Rightarrow> 'a option" where
  [code]: "list_fold m head f pos acc =
     (if pos \<noteq> head then list_fold m head f (next_of m pos) (f pos acc) else Some acc)"

section \<open>Field access\<close>

lemmas fields = next_of_def prev_of_def set_next_def set_prev_def

lemma word_al_4 [simp]: "word_al p \<Longrightarrow> word_al (p + 4)"
  by (simp add: aligned_add)

text \<open>Two nodes that do not overlap: both aligned, neither at the other's \<open>prev\<close> field.\<close>

definition apart :: "u32 \<Rightarrow> u32 \<Rightarrow> bool" where
  "apart p q \<longleftrightarrow> word_al p \<and> word_al q \<and> q \<noteq> p + 4 \<and> p \<noteq> q + 4"

lemma apart_self [simp]: "apart p p \<longleftrightarrow> word_al p"
  by (auto simp: apart_def)

lemma apart_sym: "apart p q \<longleftrightarrow> apart q p"
  by (auto simp: apart_def)

lemma get_set_fields:
  assumes "apart p q"
  shows "next_of (set_next m p v) q = (if p = q then v else next_of m q)"
    and "next_of (set_prev m p v) q = next_of m q"
    and "prev_of (set_prev m p v) q = (if p = q then v else prev_of m q)"
    and "prev_of (set_next m p v) q = prev_of m q"
  using assms by (auto simp: fields apart_def bytes.rd_wr)

definition nodes_ok :: "u32 set \<Rightarrow> bool" where
  "nodes_ok S \<longleftrightarrow> (\<forall>p \<in> S. \<forall>q \<in> S. apart p q)"

lemma nodes_okD: "nodes_ok S \<Longrightarrow> p \<in> S \<Longrightarrow> q \<in> S \<Longrightarrow> apart p q"
  by (simp add: nodes_ok_def)

lemma nodes_ok_mono: "nodes_ok S \<Longrightarrow> T \<subseteq> S \<Longrightarrow> nodes_ok T"
  by (auto simp: nodes_ok_def)

section \<open>Linked sequences of nodes\<close>

fun linked :: "mem \<Rightarrow> u32 list \<Rightarrow> bool" where
  "linked m (a # b # r) \<longleftrightarrow> next_of m a = b \<and> prev_of m b = a \<and> linked m (b # r)"
| "linked m _ \<longleftrightarrow> True"

lemma linked_append:
  "linked m (us @ a # b # vs) \<longleftrightarrow>
     linked m (us @ [a]) \<and> next_of m a = b \<and> prev_of m b = a \<and> linked m (b # vs)"
proof (induction us)
  case (Cons u us)
  then show ?case by (cases us) auto
qed simp

lemma linked_cong:
  assumes "\<And>p. p \<in> set (butlast ys) \<Longrightarrow> next_of m' p = next_of m p"
    and "\<And>p. p \<in> set (tl ys) \<Longrightarrow> prev_of m' p = prev_of m p"
  shows "linked m' ys \<longleftrightarrow> linked m ys"
  using assms by (induction m ys rule: linked.induct) auto

lemma add_between_fields:
  assumes "nodes_ok S" "new \<in> S" "prv \<in> S" "nxt \<in> S" "q \<in> S" "new \<noteq> prv" "new \<noteq> nxt"
  shows "next_of (list_add_between m new prv nxt) q =
      (if q = prv then new else if q = new then nxt else next_of m q)"
    and "prev_of (list_add_between m new prv nxt) q =
      (if q = new then prv else if q = nxt then new else prev_of m q)"
  using assms nodes_okD [OF assms(1)]
  by (auto simp: list_add_between_def Let_def get_set_fields)

lemma del_between_fields:
  assumes "nodes_ok S" "prv \<in> S" "nxt \<in> S" "q \<in> S"
  shows "next_of (list_del_between m prv nxt) q = (if q = prv then nxt else next_of m q)"
    and "prev_of (list_del_between m prv nxt) q = (if q = nxt then prv else prev_of m q)"
  using assms nodes_okD [OF assms(1)]
  by (auto simp: list_del_between_def get_set_fields)

lemma cycle_distinct:
  assumes "distinct (butlast (us @ prv # zs @ nxt # vs))" "distinct (tl (us @ prv # zs @ nxt # vs))"
  shows "prv \<notin> set us" "nxt \<notin> set (tl (us @ [prv]))" "prv \<notin> set (butlast (nxt # vs))" "nxt \<notin> set vs"
  using assms by (cases us; auto simp: butlast_append)+

text \<open>
  A change of the \<open>next\<close> field of \<open>prv\<close> and the \<open>prev\<close> field of \<open>nxt\<close> keeps the part of the
  cycle up to \<open>prv\<close> and the part from \<open>nxt\<close> on.
\<close>

lemma linked_parts:
  assumes d: "distinct (butlast (us @ prv # zs @ nxt # vs))" "distinct (tl (us @ prv # zs @ nxt # vs))"
    and n: "\<And>p. p \<in> set (us @ prv # zs @ nxt # vs) \<Longrightarrow> p \<noteq> prv \<Longrightarrow> next_of m' p = next_of m p"
    and p: "\<And>p. p \<in> set (us @ prv # zs @ nxt # vs) \<Longrightarrow> p \<noteq> nxt \<Longrightarrow> prev_of m' p = prev_of m p"
  shows "linked m' (us @ [prv]) \<longleftrightarrow> linked m (us @ [prv])"
    and "linked m' (nxt # vs) \<longleftrightarrow> linked m (nxt # vs)"
proof -
  note c = cycle_distinct [OF d]
  show "linked m' (us @ [prv]) \<longleftrightarrow> linked m (us @ [prv])"
  proof (rule linked_cong)
    fix q assume "q \<in> set (butlast (us @ [prv]))"
    then have "q \<in> set us" by simp
    with c(1) show "next_of m' q = next_of m q" by (intro n) auto
  next
    fix q assume q: "q \<in> set (tl (us @ [prv]))"
    then have "q \<in> set (us @ [prv])" by (cases us) auto
    with c(2) q show "prev_of m' q = prev_of m q" by (intro p) auto
  qed
  show "linked m' (nxt # vs) \<longleftrightarrow> linked m (nxt # vs)"
  proof (rule linked_cong)
    fix q assume q: "q \<in> set (butlast (nxt # vs))"
    then have "q \<in> set (nxt # vs)" by (rule in_set_butlastD)
    with c(3) q show "next_of m' q = next_of m q" by (intro n) auto
  next
    fix q assume "q \<in> set (tl (nxt # vs))"
    with c(4) show "prev_of m' q = prev_of m q" by (intro p) auto
  qed
qed

lemma linked_insert:
  assumes l: "linked m (us @ prv # nxt # vs)"
    and d: "distinct (butlast (us @ prv # nxt # vs))" "distinct (tl (us @ prv # nxt # vs))"
    and ok: "nodes_ok (insert new (set (us @ prv # nxt # vs)))"
    and new: "new \<notin> set (us @ prv # nxt # vs)"
  shows "linked (list_add_between m new prv nxt) (us @ prv # new # nxt # vs)"
proof -
  note f = add_between_fields [OF ok, where m = m and prv = prv and nxt = nxt]
  have "linked (list_add_between m new prv nxt) (us @ [prv]) \<longleftrightarrow> linked m (us @ [prv])"
    by (rule linked_parts(1) [where zs = "[]" and nxt = nxt and vs = vs]) (use d new in \<open>auto simp: f\<close>)
  moreover have "linked (list_add_between m new prv nxt) (nxt # vs) \<longleftrightarrow> linked m (nxt # vs)"
    by (rule linked_parts(2) [where zs = "[]" and us = us and prv = prv]) (use d new in \<open>auto simp: f\<close>)
  ultimately show ?thesis
    using l new by (auto simp: linked_append [of _ us prv] f)
qed

lemma linked_remove:
  assumes l: "linked m (us @ prv # x # nxt # vs)"
    and d: "distinct (butlast (us @ prv # x # nxt # vs))" "distinct (tl (us @ prv # x # nxt # vs))"
    and ok: "nodes_ok (set (us @ prv # x # nxt # vs))"
  shows "linked (list_del_between m prv nxt) (us @ prv # nxt # vs)"
proof -
  note f = del_between_fields [OF ok, where m = m and prv = prv and nxt = nxt]
  have "linked (list_del_between m prv nxt) (us @ [prv]) \<longleftrightarrow> linked m (us @ [prv])"
    by (rule linked_parts(1) [where zs = "[x]" and nxt = nxt and vs = vs]) (use d in \<open>auto simp: f\<close>)
  moreover have "linked (list_del_between m prv nxt) (nxt # vs) \<longleftrightarrow> linked m (nxt # vs)"
    by (rule linked_parts(2) [where zs = "[x]" and us = us and prv = prv]) (use d in \<open>auto simp: f\<close>)
  ultimately show ?thesis
    using l by (simp add: linked_append [of _ us prv] f)
qed

section \<open>Circular lists\<close>

definition dlist :: "mem \<Rightarrow> u32 \<Rightarrow> u32 list \<Rightarrow> bool" where
  "dlist m h xs \<longleftrightarrow> linked m (h # xs @ [h]) \<and> distinct (h # xs) \<and> nodes_ok (insert h (set xs))"

lemma dlist_nodes: "dlist m h xs \<Longrightarrow> nodes_ok (insert h (set xs))"
  by (simp add: dlist_def)

lemma split_last: "h # as @ zs = butlast (h # as) @ last (h # as) # zs"
  using append_butlast_last_id [of "h # as"] by (metis append.assoc append_Cons append_Nil list.distinct(1))

lemma split_hd: "bs @ [h] = hd (bs @ [h]) # tl (bs @ [h])"
  by (cases bs) auto

lemma dlist_next: "dlist m h (as @ x # bs) \<Longrightarrow> next_of m x = hd (bs @ [h])"
proof -
  assume "dlist m h (as @ x # bs)"
  then have "linked m ((h # as) @ x # hd (bs @ [h]) # tl (bs @ [h]))"
    by (cases bs) (auto simp: dlist_def)
  then show ?thesis by (simp only: linked_append)
qed

lemma dlist_prev: "dlist m h (as @ x # bs) \<Longrightarrow> prev_of m x = last (h # as)"
proof -
  assume "dlist m h (as @ x # bs)"
  then have "linked m (h # as @ x # bs @ [h])" by (simp add: dlist_def)
  then show ?thesis by (simp only: split_last [of h as] linked_append)
qed

lemma dlist_head_next: "dlist m h xs \<Longrightarrow> next_of m h = hd (xs @ [h])"
  by (cases xs) (auto simp: dlist_def)

lemma dlist_head_prev: "dlist m h xs \<Longrightarrow> prev_of m h = last (h # xs)"
proof -
  assume "dlist m h xs"
  then have "linked m (h # xs @ [h])" by (simp add: dlist_def)
  then show ?thesis by (simp only: split_last [of h xs] linked_append)
qed

text \<open>Insertion and removal anywhere in the cycle.\<close>

lemma dlist_insert:
  assumes "dlist m h (as @ bs)" and "new \<notin> insert h (set (as @ bs))"
    and "nodes_ok (insert new (insert h (set (as @ bs))))"
  shows "dlist (list_add_between m new (last (h # as)) (hd (bs @ [h]))) h (as @ new # bs)"
proof -
  let ?us = "butlast (h # as)" and ?vs = "tl (bs @ [h])"
  have c: "?us @ last (h # as) # hd (bs @ [h]) # ?vs = h # (as @ bs) @ [h]"
    by (simp only: split_hd [symmetric] split_last [symmetric] append_assoc)
  have e: "?us @ last (h # as) # new # hd (bs @ [h]) # ?vs = h # (as @ new # bs) @ [h]"
    by (simp only: split_hd [symmetric] split_last [symmetric] append_assoc append_Cons)
  have d: "distinct (butlast (h # (as @ bs) @ [h]))" "distinct (tl (h # (as @ bs) @ [h]))"
    using assms(1) by (auto simp: dlist_def butlast_append)
  have "linked (list_add_between m new (last (h # as)) (hd (bs @ [h])))
    (?us @ last (h # as) # new # hd (bs @ [h]) # ?vs)"
    by (rule linked_insert; unfold c) (use assms d in \<open>auto simp: dlist_def insert_commute\<close>)
  then show ?thesis
    using assms unfolding e by (auto simp: dlist_def insert_commute)
qed

lemma dlist_remove:
  assumes "dlist m h (as @ x # bs)"
  shows "dlist (list_del_between m (prev_of m x) (next_of m x)) h (as @ bs)"
proof -
  let ?us = "butlast (h # as)" and ?vs = "tl (bs @ [h])"
  have c: "?us @ last (h # as) # x # hd (bs @ [h]) # ?vs = h # (as @ x # bs) @ [h]"
    by (simp only: split_hd [symmetric] split_last [symmetric] append_assoc append_Cons)
  have e: "?us @ last (h # as) # hd (bs @ [h]) # ?vs = h # (as @ bs) @ [h]"
    by (simp only: split_hd [symmetric] split_last [symmetric] append_assoc)
  have d: "distinct (butlast (h # (as @ x # bs) @ [h]))" "distinct (tl (h # (as @ x # bs) @ [h]))"
    using assms by (auto simp: dlist_def butlast_append)
  have "linked (list_del_between m (last (h # as)) (hd (bs @ [h])))
    (?us @ last (h # as) # hd (bs @ [h]) # ?vs)"
    by (rule linked_remove [where x = x]; unfold c) (use assms d in \<open>auto simp: dlist_def insert_commute\<close>)
  then show ?thesis
    using assms unfolding e dlist_next [OF assms] dlist_prev [OF assms]
    by (auto simp: dlist_def elim: nodes_ok_mono)
qed

section \<open>The operations on circular lists\<close>

text \<open>\<open>fresh S new\<close>: a node that can join the nodes \<open>S\<close>.\<close>

definition fresh :: "u32 set \<Rightarrow> u32 \<Rightarrow> bool" where
  "fresh S new \<longleftrightarrow> new \<notin> S \<and> word_al new \<and> (\<forall>p \<in> S. apart p new)"

lemma fresh_nodes_ok: "fresh S new \<Longrightarrow> nodes_ok S \<Longrightarrow> nodes_ok (insert new S)"
  by (auto simp: nodes_ok_def fresh_def apart_sym)

lemma fresh_mono: "fresh S new \<Longrightarrow> T \<subseteq> S \<Longrightarrow> fresh T new"
  by (auto simp: fresh_def)

lemma INIT_LIST_HEAD_dlist: "word_al h \<Longrightarrow> dlist (INIT_LIST_HEAD m h) h []"
  by (simp add: INIT_LIST_HEAD_def dlist_def get_set_fields nodes_ok_def)

lemma dlist_insert_fresh:
  assumes "dlist m h (as @ bs)" and "fresh (insert h (set (as @ bs))) new"
  shows "dlist (list_add_between m new (last (h # as)) (hd (bs @ [h]))) h (as @ new # bs)"
  using assms fresh_nodes_ok [OF assms(2) dlist_nodes [OF assms(1)]]
  by (intro dlist_insert) (auto simp: fresh_def)

lemma list_add_dlist:
  assumes "dlist m h xs" and "fresh (insert h (set xs)) new"
  shows "dlist (list_add m new h) h (new # xs)"
  unfolding list_add_def dlist_head_next [OF assms(1)]
  using dlist_insert_fresh [of m h "[]" xs new] assms by simp

lemma list_add_tail_before:
  assumes "dlist m h (as @ x # bs)" and "fresh (insert h (set (as @ x # bs))) new"
  shows "dlist (list_add_tail m new x) h (as @ new # x # bs)"
  unfolding list_add_tail_def dlist_prev [OF assms(1)]
  using dlist_insert_fresh [OF assms] by (simp del: last.simps)

lemma list_add_tail_dlist:
  assumes "dlist m h xs" and "fresh (insert h (set xs)) new"
  shows "dlist (list_add_tail m new h) h (xs @ [new])"
  unfolding list_add_tail_def dlist_head_prev [OF assms(1)]
  using dlist_insert_fresh [of m h xs "[]" new] assms by (simp del: last.simps)

lemma list_del_entry_dlist: "dlist m h (as @ x # bs) \<Longrightarrow> dlist (list_del_entry m x) h (as @ bs)"
  by (simp add: list_del_entry_def dlist_remove)

text \<open>Writing the fields of a node outside the cycle keeps the cycle.\<close>

lemma dlist_frame:
  assumes "dlist m h xs" and "\<And>p. p \<in> insert h (set xs) \<Longrightarrow> next_of m' p = next_of m p \<and> prev_of m' p = prev_of m p"
  shows "dlist m' h xs"
proof -
  have "linked m' (h # xs @ [h]) \<longleftrightarrow> linked m (h # xs @ [h])"
    using assms(2) by (intro linked_cong) (auto dest: in_set_butlastD)
  with assms(1) show ?thesis by (simp add: dlist_def)
qed

lemma dlist_write_outside:
  assumes "dlist m h xs" and "fresh (insert h (set xs)) x"
  shows "dlist (set_next m x v) h xs" and "dlist (set_prev m x v) h xs"
  using assms by (auto intro!: dlist_frame [OF assms(1)] simp: get_set_fields fresh_def apart_sym)

lemma dlist_fresh:
  assumes "dlist m h (as @ x # bs)"
  shows "fresh (insert h (set (as @ bs))) x"
  using assms by (auto simp: dlist_def fresh_def nodes_ok_def)

lemma list_del_dlist:
  assumes "dlist m h (as @ x # bs)"
  shows "dlist (list_del m x) h (as @ bs)"
  unfolding list_del_def Let_def
  by (intro dlist_write_outside dlist_remove assms dlist_fresh [OF assms])

lemma list_del_init_dlist:
  assumes "dlist m h (as @ x # bs)"
  shows "dlist (list_del_init m x) h (as @ bs) \<and> dlist (list_del_init m x) x []"
  unfolding list_del_init_def Let_def
proof
  show "dlist (INIT_LIST_HEAD (list_del_between m (prev_of m x) (next_of m x)) x) h (as @ bs)"
    unfolding INIT_LIST_HEAD_def
    by (intro dlist_write_outside dlist_remove assms dlist_fresh [OF assms])
  show "dlist (INIT_LIST_HEAD (list_del_between m (prev_of m x) (next_of m x)) x) x []"
    using dlist_fresh [OF assms] by (intro INIT_LIST_HEAD_dlist) (simp add: fresh_def)
qed

lemma list_move_dlist:
  assumes "dlist m h (as @ x # bs)"
  shows "dlist (list_move m x h) h (x # as @ bs)"
  unfolding list_move_def
  by (intro list_add_dlist dlist_remove assms dlist_fresh [OF assms])

lemma list_move_tail_dlist:
  assumes "dlist m h (as @ x # bs)"
  shows "dlist (list_move_tail m x h) h ((as @ bs) @ [x])"
  unfolding list_move_tail_def
  by (intro list_add_tail_dlist dlist_remove assms dlist_fresh [OF assms])

lemma list_empty_dlist: "dlist m h xs \<Longrightarrow> 0 \<notin> set xs \<Longrightarrow> list_empty m h \<longleftrightarrow> xs = []"
  using dlist_head_next [of m h xs] by (cases xs) (auto simp: list_empty_def dlist_def)

section \<open>Iteration\<close>

text \<open>The suffix of the cycle that an iterator still has to visit.\<close>

lemma dlist_suffix_step:
  assumes "dlist m h (as @ bs)" and "bs = x # cs"
  shows "hd (bs @ [h]) \<noteq> h" and "next_of m x = hd (cs @ [h])"
  using assms dlist_next [of m h as x cs] by (auto simp: dlist_def)

lemma list_fold_suffix:
  assumes "dlist m h (as @ bs)"
  shows "list_fold m h f (hd (bs @ [h])) acc = Some (fold f bs acc)"
  using assms
proof (induction bs arbitrary: as acc)
  case Nil
  show ?case by (simp add: list_fold.simps)
next
  case (Cons x bs)
  from Cons.prems have "dlist m h ((as @ [x]) @ bs)" by simp
  from Cons.IH [OF this] dlist_suffix_step [OF Cons.prems refl] show ?case
    by (subst list_fold.simps) simp
qed

lemma list_find_suffix:
  assumes "dlist m h (as @ bs)"
  shows "list_find m h P (hd (bs @ [h])) = Some (case List.find P bs of None \<Rightarrow> h | Some x \<Rightarrow> x)"
  using assms
proof (induction bs arbitrary: as)
  case Nil
  show ?case by (simp add: list_find.simps)
next
  case (Cons x bs)
  from Cons.prems have "dlist m h ((as @ [x]) @ bs)" by simp
  from Cons.IH [OF this] dlist_suffix_step [OF Cons.prems refl] show ?case
    by (subst list_find.simps) simp
qed

lemma list_size_suffix:
  assumes "dlist m h (as @ bs)"
  shows "list_size_loop m h (hd (bs @ [h])) n = Some (n + of_nat (length bs))"
  using assms
proof (induction bs arbitrary: as n)
  case Nil
  show ?case by (simp add: list_size_loop.simps)
next
  case (Cons x bs)
  from Cons.prems have "dlist m h ((as @ [x]) @ bs)" by simp
  from Cons.IH [OF this] dlist_suffix_step [OF Cons.prems refl] show ?case
    by (subst list_size_loop.simps) (simp add: algebra_simps)
qed

lemma list_fold_dlist: "dlist m h xs \<Longrightarrow> list_fold m h f (next_of m h) acc = Some (fold f xs acc)"
  using list_fold_suffix [of m h "[]" xs] by (simp add: dlist_head_next)

lemma list_find_dlist:
  "dlist m h xs \<Longrightarrow> list_find m h P (next_of m h) = Some (case List.find P xs of None \<Rightarrow> h | Some x \<Rightarrow> x)"
  using list_find_suffix [of m h "[]" xs] by (simp add: dlist_head_next)

lemma list_size_dlist: "dlist m h xs \<Longrightarrow> list_size m h = Some (of_nat (length xs))"
  using list_size_suffix [of m h "[]" xs 0] by (simp add: dlist_head_next list_size_def)

section \<open>Queues of nodes, as an interface\<close>

text \<open>
  What the scheduler, the v86 call queue and the pointer lists use the list for: nodes are
  appended at the tail, taken from the front and removed anywhere.
\<close>

locale node_queue =
  fixes holds :: "'m \<Rightarrow> u32 \<Rightarrow> u32 list \<Rightarrow> bool"
    and joinable :: "u32 set \<Rightarrow> u32 \<Rightarrow> bool"
    and enq :: "'m \<Rightarrow> u32 \<Rightarrow> u32 \<Rightarrow> 'm"
    and del :: "'m \<Rightarrow> u32 \<Rightarrow> 'm"
    and front :: "'m \<Rightarrow> u32 \<Rightarrow> u32"
  assumes holds_enq: "holds m h xs \<Longrightarrow> joinable (insert h (set xs)) x \<Longrightarrow> holds (enq m x h) h (xs @ [x])"
    and holds_del: "holds m h (as @ x # bs) \<Longrightarrow> holds (del m x) h (as @ bs)"
    and front_Cons: "holds m h (x # xs) \<Longrightarrow> front m h = x"
begin

text \<open>Appending the nodes of a list one by one, and serving from the front.\<close>

primrec enq_all :: "'m \<Rightarrow> u32 \<Rightarrow> u32 list \<Rightarrow> 'm" where
  "enq_all m h [] = m"
| "enq_all m h (x # xs) = enq_all (enq m x h) h xs"

primrec serve :: "nat \<Rightarrow> 'm \<Rightarrow> u32 \<Rightarrow> u32 list \<times> 'm" where
  "serve 0 m h = ([], m)"
| "serve (Suc n) m h = (let x = front m h; (ys, m') = serve n (del m x) h in (x # ys, m'))"

lemma holds_enq_all:
  assumes "holds m h xs"
    and "\<And>i. i < length ys \<Longrightarrow> joinable (insert h (set xs \<union> set (take i ys))) (ys ! i)"
  shows "holds (enq_all m h ys) h (xs @ ys)"
  using assms
proof (induction ys arbitrary: m xs)
  case Nil
  then show ?case by simp
next
  case (Cons y ys)
  have "joinable (insert h (set xs)) y" using Cons.prems(2) [of 0] by simp
  then have "holds (enq m y h) h (xs @ [y])" by (rule holds_enq [OF Cons.prems(1)])
  moreover have "joinable (insert h (set (xs @ [y]) \<union> set (take i ys))) (ys ! i)"
    if "i < length ys" for i
    using Cons.prems(2) [of "Suc i"] that by simp
  ultimately show ?case using Cons.IH by fastforce
qed

lemma serve_holds:
  assumes "holds m h xs" and "n \<le> length xs"
  shows "fst (serve n m h) = take n xs \<and> holds (snd (serve n m h)) h (drop n xs)"
  using assms
proof (induction n arbitrary: m xs)
  case 0
  then show ?case by simp
next
  case (Suc n)
  then obtain y ys where xs: "xs = y # ys" by (cases xs) auto
  have "front m h = y" using Suc.prems(1) front_Cons unfolding xs by blast
  moreover have "holds (del m y) h ys"
    using Suc.prems(1) holds_del [of m h "[]" y ys] by (simp add: xs)
  ultimately show ?case
    using Suc.IH [of "del m y" ys] Suc.prems(2) by (simp add: xs case_prod_unfold)
qed

text \<open>First in, first out.\<close>

lemma fifo:
  assumes "holds m h []"
    and "\<And>i. i < length ys \<Longrightarrow> joinable (insert h (set (take i ys))) (ys ! i)"
  shows "fst (serve (length ys) (enq_all m h ys) h) = ys"
  using serve_holds [of _ h ys "length ys"] holds_enq_all [of m h "[]" ys] assms by simp

end

interpretation calls: node_queue dlist fresh list_add_tail list_del next_of
  by unfold_locales (auto intro: list_add_tail_dlist list_del_dlist simp: dlist_head_next)

section \<open>Properties\<close>

text \<open>Nodes appended with \<open>list_add_tail\<close> to an initialised head are handed out by reading
  \<open>head->next\<close> and calling \<open>list_del\<close> in the order they were appended.\<close>

lemma list_fifo:
  assumes "word_al h"
    and "\<And>i. i < length ys \<Longrightarrow> fresh (insert h (set (take i ys))) (ys ! i)"
  shows "fst (calls.serve (length ys) (calls.enq_all (INIT_LIST_HEAD m h) h ys) h) = ys"
  by (rule calls.fifo [OF INIT_LIST_HEAD_dlist [OF assms(1)] assms(2)])

text \<open>\<open>list_move_tail\<close> rotates a node to the end, and \<open>list_size\<close> then still counts every
  node of the list.\<close>

lemma list_move_tail_rotates:
  assumes "dlist m h (as @ x # bs)"
  shows "dlist (list_move_tail m x h) h (as @ bs @ [x]) \<and>
    list_size (list_move_tail m x h) h = Some (of_nat (length (as @ x # bs)))"
  using list_move_tail_dlist [OF assms] list_size_dlist by fastforce

end
