(* ===== verification/Pmm.thy ===== *)
theory Pmm
  imports Prelude
begin

unbundle bit_operations_syntax

text \<open>
  The physical page allocator, \<^verbatim>\<open>src/mm/pmm.c\<close>: a bitmap with one bit per 4 KiB page, set
  when the page is in use, and three byte counters. An index outside the static array
  \<open>bitmap\<close> is the error \<open>OutOfBounds\<close>; the \<open>while (1) hlt\<close> loops are \<open>Halted\<close>. The
  lemmas read the bitmap as the set of free pages.
\<close>

section \<open>Definitions\<close>

record mmap_entry =
  mm_addr :: u64
  mm_len :: u64
  mm_type :: u32

abbreviation (input) MULTIBOOT_MEMORY_AVAILABLE :: u32 where
  "MULTIBOOT_MEMORY_AVAILABLE \<equiv> 1"

abbreviation (input) BITMAP_MAX_PAGE :: u32 where
  "BITMAP_MAX_PAGE \<equiv> 131071"

text \<open>The value of the macro \<open>((((uint32_t)-1) / PAGE_SIZE) / 8)\<close>.\<close>

lemma BITMAP_MAX_PAGE_eq: "(- 1 :: u32) div PAGE_SIZE div 8 = BITMAP_MAX_PAGE"
  by simp

record pmm_state =
  bitmap :: "u32 \<Rightarrow> u8"
  total_memory :: u32
  used_memory :: u32
  available_memory :: u32

definition pmm_set_bit :: "pmm_state \<Rightarrow> u32 \<Rightarrow> pmm_state res" where
  "pmm_set_bit s page =
     (let bit = page mod 8; byte = page div 8
      in if byte < BITMAP_MAX_PAGE
         then Inr (s\<lparr>bitmap := (bitmap s)(byte := bitmap s byte OR push_bit (unat bit) 1)\<rparr>)
         else Inl (OutOfBounds (unat byte)))"

definition pmm_clear_bit :: "pmm_state \<Rightarrow> u32 \<Rightarrow> pmm_state res" where
  "pmm_clear_bit s page =
     (let bit = page mod 8; byte = page div 8
      in if byte < BITMAP_MAX_PAGE
         then Inr (s\<lparr>bitmap := (bitmap s)(byte := bitmap s byte AND NOT (push_bit (unat bit) 1))\<rparr>)
         else Inl (OutOfBounds (unat byte)))"

definition pmm_get_bit :: "pmm_state \<Rightarrow> u32 \<Rightarrow> u8 res" where
  "pmm_get_bit s page =
     (let bit = page mod 8; byte = page div 8
      in if byte < BITMAP_MAX_PAGE
         then Inr (bitmap s byte AND push_bit (unat bit) 1)
         else Inl (OutOfBounds (unat byte)))"

text \<open>The loops \<open>for (i = 0; i < n; i++) pmm_set_bit(page + i)\<close> and its clearing twin.\<close>

primrec set_bits :: "nat \<Rightarrow> pmm_state \<Rightarrow> u32 \<Rightarrow> pmm_state res" where
  "set_bits 0 s page = Inr s"
| "set_bits (Suc n) s page = rbind (pmm_set_bit s page) (\<lambda>s. set_bits n s (page + 1))"

primrec clear_bits :: "nat \<Rightarrow> pmm_state \<Rightarrow> u32 \<Rightarrow> pmm_state res" where
  "clear_bits 0 s page = Inr s"
| "clear_bits (Suc n) s page = rbind (pmm_clear_bit s page) (\<lambda>s. clear_bits n s (page + 1))"

definition rounded_start :: "mmap_entry \<Rightarrow> u32" where
  "rounded_start e = ROUND_UP (ucast (mm_addr e)) PAGE_SIZE"

definition rounded_end :: "mmap_entry \<Rightarrow> u32" where
  "rounded_end e = ROUND_UP (ucast (mm_addr e + mm_len e)) PAGE_SIZE"

definition pmm_setup_entry :: "pmm_state \<Rightarrow> mmap_entry \<Rightarrow> pmm_state res" where
  "pmm_setup_entry s e =
     (let rounded_block_len = rounded_end e - rounded_start e
      in if mm_type e = MULTIBOOT_MEMORY_AVAILABLE \<and> (ucast (mm_addr e) :: u32) \<ge> 0x100000 then
           rbind (clear_bits (unat (rounded_block_len div PAGE_SIZE)) s (rounded_start e div PAGE_SIZE))
             (\<lambda>s. Inr (s\<lparr>available_memory := available_memory s + rounded_block_len\<rparr>))
         else Inr s)"

primrec pmm_setup_loop :: "pmm_state \<Rightarrow> mmap_entry list \<Rightarrow> pmm_state res" where
  "pmm_setup_loop s [] = Inr s"
| "pmm_setup_loop s (e # es) = rbind (pmm_setup_entry s e) (\<lambda>s. pmm_setup_loop s es)"

text \<open>
  \<open>mem_length\<close> of the source is computed and never used; the \<open>memset\<close> of the bitmap is a
  fill of the array.
\<close>

definition pmm_memory_setup :: "pmm_state \<Rightarrow> mmap_entry list \<Rightarrow> pmm_state res" where
  "pmm_memory_setup s mmap =
     (let s1 = s\<lparr>bitmap := (\<lambda>i. if i < BITMAP_MAX_PAGE then 0xFF else bitmap s i)\<rparr>
      in rbind (pmm_setup_loop s1 mmap) (\<lambda>s. Inr (s\<lparr>total_memory := available_memory s\<rparr>)))"

lemma loop_measure:
  fixes i :: u32
  assumes "i < BITMAP_MAX_PAGE"
  shows "131071 - unat (i + 1) < 131071 - unat i"
  using assms by (simp add: word_less_nat_alt unat_word_ariths)

function find_free_loop :: "pmm_state \<Rightarrow> u32 \<Rightarrow> u32 \<Rightarrow> u32 \<Rightarrow> u32 \<Rightarrow> u32 res" where
  "find_free_loop s pages i found_pages first_page =
     (if i < BITMAP_MAX_PAGE then
        (case pmm_get_bit s i of
           Inl e \<Rightarrow> Inl e
         | Inr b \<Rightarrow>
             (let (found_pages, first_page) =
                (if b = 0 then (found_pages + 1, if first_page = 0 then i else first_page)
                 else (0, 0))
              in if found_pages = pages then Inr first_page
                 else find_free_loop s pages (i + 1) found_pages first_page))
      else Inl Halted)"
  by pat_completeness auto
termination
  by (relation "measure (\<lambda>(s, pages, i, f, p). 131071 - unat i)") (auto simp: loop_measure)

declare find_free_loop.simps [simp del]

definition find_free_page :: "pmm_state \<Rightarrow> u32 \<Rightarrow> u32 res" where
  "find_free_page s pages = find_free_loop s pages 0 0 0"

definition npages :: "u32 \<Rightarrow> u32" where
  "npages n = (n + PAGE_SIZE - 1) div PAGE_SIZE"

definition pmm_alloc :: "pmm_state \<Rightarrow> u32 \<Rightarrow> (u32 \<times> pmm_state) res" where
  "pmm_alloc s sz =
     (let pages = npages sz
      in rbind (find_free_page s pages) (\<lambda>free_page.
         rbind (set_bits (unat pages) s free_page) (\<lambda>s.
         Inr (free_page * PAGE_SIZE,
              s\<lparr>available_memory := available_memory s - pages * PAGE_SIZE,
                used_memory := used_memory s + pages * PAGE_SIZE\<rparr>))))"

primrec all_clear :: "nat \<Rightarrow> pmm_state \<Rightarrow> u32 \<Rightarrow> bool res" where
  "all_clear 0 s page = Inr True"
| "all_clear (Suc n) s page =
     rbind (pmm_get_bit s page) (\<lambda>b. if b \<noteq> 0 then Inr False else all_clear n s (page + 1))"

definition pmm_alloc_from :: "pmm_state \<Rightarrow> u32 \<Rightarrow> u32 \<Rightarrow> (u32 \<times> pmm_state) res" where
  "pmm_alloc_from s addr sz =
     (let pages = npages sz; start_page = addr div PAGE_SIZE
      in rbind (all_clear (unat pages) s start_page) (\<lambda>free.
         if \<not> free then Inr (0, s)
         else rbind (set_bits (unat pages) s start_page) (\<lambda>s.
         Inr (start_page * PAGE_SIZE,
              s\<lparr>available_memory := available_memory s - pages * PAGE_SIZE,
                used_memory := used_memory s + pages * PAGE_SIZE\<rparr>))))"

definition pmm_unalloc :: "pmm_state \<Rightarrow> u32 \<Rightarrow> u32 \<Rightarrow> pmm_state res" where
  "pmm_unalloc s addr sz =
     (let page = (addr AND NOT 0xFFF) div PAGE_SIZE; pages = npages sz
      in if page + pages > BITMAP_MAX_PAGE then Inl Halted
         else rbind (clear_bits (unat pages) s page) (\<lambda>s.
         Inr (s\<lparr>available_memory := available_memory s + pages * PAGE_SIZE,
                used_memory := used_memory s - pages * PAGE_SIZE\<rparr>)))"

definition pmm_free_mem :: "pmm_state \<Rightarrow> u32" where
  "pmm_free_mem s = available_memory s"

definition pmm_used_mem :: "pmm_state \<Rightarrow> u32" where
  "pmm_used_mem s = used_memory s"

definition pmm_total_mem :: "pmm_state \<Rightarrow> u32" where
  "pmm_total_mem s = total_memory s"

section \<open>The bitmap as a set of free pages\<close>

abbreviation (input) NPAGES :: nat where
  "NPAGES \<equiv> 1048568"

definition page_used :: "pmm_state \<Rightarrow> nat \<Rightarrow> bool" where
  "page_used s n \<longleftrightarrow> bit (bitmap s (of_nat (n div 8))) (n mod 8)"

definition free_pages :: "pmm_state \<Rightarrow> nat set" where
  "free_pages s = {n. n < NPAGES \<and> \<not> page_used s n}"

lemma free_pages_cong: "bitmap s = bitmap t \<Longrightarrow> free_pages s = free_pages t"
  by (simp add: free_pages_def page_used_def)

lemma free_pages_upd [simp]:
  "free_pages (s\<lparr>total_memory := a\<rparr>) = free_pages s"
  "free_pages (s\<lparr>used_memory := a\<rparr>) = free_pages s"
  "free_pages (s\<lparr>available_memory := a\<rparr>) = free_pages s"
  by (simp_all add: free_pages_def page_used_def)

lemma finite_free_pages [simp]: "finite (free_pages s)"
  by (simp add: free_pages_def)

lemma page_split:
  assumes "n < NPAGES"
  shows "(of_nat n :: u32) div 8 = of_nat (n div 8)" and "unat ((of_nat n :: u32) mod 8) = n mod 8"
    and "(of_nat n :: u32) div 8 < BITMAP_MAX_PAGE"
proof -
  have n: "unat (of_nat n :: u32) = n" using assms by (simp add: unat_of_nat_small)
  show d: "(of_nat n :: u32) div 8 = of_nat (n div 8)"
    by (simp only: word_arith_nat_div n) simp
  show "unat ((of_nat n :: u32) mod 8) = n mod 8" by (simp add: unat_mod n)
  have "n div 8 < 131071" using assms by (simp add: div_less_iff_less_mult)
  then show "(of_nat n :: u32) div 8 < BITMAP_MAX_PAGE"
    using of_nat_less_iff_u32 [of "n div 8" 131071] by (simp add: d)
qed

lemma get_bit_zero:
  assumes "n < NPAGES"
  shows "\<exists>b. pmm_get_bit s (of_nat n) = Inr b \<and> (b = 0 \<longleftrightarrow> n \<in> free_pages s)"
  using assms page_split [OF assms]
  by (simp add: pmm_get_bit_def Let_def push_bit_eq_mult and_exp_eq_0_iff_not_bit free_pages_def page_used_def)

lemma page_index_eq: "n < NPAGES \<Longrightarrow> k < NPAGES \<Longrightarrow>
   (of_nat (k div 8) :: u32) = of_nat (n div 8) \<and> k mod 8 = n mod 8 \<longleftrightarrow> k = n"
  by (subst of_nat_u32_inj) (auto, metis div_mod_decomp)

lemma set_bit_free:
  assumes "n < NPAGES"
  shows "\<exists>b. pmm_set_bit s (of_nat n) = Inr (s\<lparr>bitmap := b\<rparr>) \<and> free_pages (s\<lparr>bitmap := b\<rparr>) = free_pages s - {n}"
proof -
  let ?b = "(bitmap s)(of_nat (n div 8) := bitmap s (of_nat (n div 8)) OR push_bit (n mod 8) 1)"
  have "page_used (s\<lparr>bitmap := ?b\<rparr>) k \<longleftrightarrow> page_used s k \<or> k = n" if "k < NPAGES" for k
    using page_index_eq [OF assms that] by (auto simp: page_used_def bit_simps)
  then have "free_pages (s\<lparr>bitmap := ?b\<rparr>) = free_pages s - {n}"
    by (auto simp: free_pages_def)
  moreover have "pmm_set_bit s (of_nat n) = Inr (s\<lparr>bitmap := ?b\<rparr>)"
    using page_split [OF assms] by (simp add: pmm_set_bit_def Let_def)
  ultimately show ?thesis by blast
qed

lemma clear_bit_free:
  assumes "n < NPAGES"
  shows "\<exists>b. pmm_clear_bit s (of_nat n) = Inr (s\<lparr>bitmap := b\<rparr>) \<and> free_pages (s\<lparr>bitmap := b\<rparr>) = insert n (free_pages s)"
proof -
  let ?b = "(bitmap s)(of_nat (n div 8) := bitmap s (of_nat (n div 8)) AND NOT (push_bit (n mod 8) 1))"
  have "page_used (s\<lparr>bitmap := ?b\<rparr>) k \<longleftrightarrow> page_used s k \<and> k \<noteq> n" if "k < NPAGES" for k
    using page_index_eq [OF assms that] by (auto simp: page_used_def bit_simps)
  then have "free_pages (s\<lparr>bitmap := ?b\<rparr>) = insert n (free_pages s)"
    using assms by (auto simp: free_pages_def)
  moreover have "pmm_clear_bit s (of_nat n) = Inr (s\<lparr>bitmap := ?b\<rparr>)"
    using page_split [OF assms] by (simp add: pmm_clear_bit_def Let_def)
  ultimately show ?thesis by blast
qed

lemma set_bits_free:
  assumes "p + n \<le> NPAGES"
  shows "\<exists>b. set_bits n s (of_nat p) = Inr (s\<lparr>bitmap := b\<rparr>) \<and>
    free_pages (s\<lparr>bitmap := b\<rparr>) = free_pages s - {p..<p + n}"
  using assms
proof (induction n arbitrary: s p)
  case 0
  show ?case by (auto intro: exI [of _ "bitmap s"])
next
  case (Suc n)
  obtain b where b: "pmm_set_bit s (of_nat p) = Inr (s\<lparr>bitmap := b\<rparr>)"
    "free_pages (s\<lparr>bitmap := b\<rparr>) = free_pages s - {p}"
    using set_bit_free [of p s] Suc.prems by auto
  obtain b' where "set_bits n (s\<lparr>bitmap := b\<rparr>) (of_nat (Suc p)) = Inr (s\<lparr>bitmap := b'\<rparr>)"
    "free_pages (s\<lparr>bitmap := b'\<rparr>) = free_pages s - {p} - {Suc p..<Suc p + n}"
    using Suc.IH [of "Suc p" "s\<lparr>bitmap := b\<rparr>"] Suc.prems b by auto
  moreover have "{p..<p + Suc n} = insert p {Suc p..<Suc p + n}" by auto
  ultimately show ?case using b by (simp add: add.commute) blast
qed

lemma clear_bits_free:
  assumes "p + n \<le> NPAGES"
  shows "\<exists>b. clear_bits n s (of_nat p) = Inr (s\<lparr>bitmap := b\<rparr>) \<and>
    free_pages (s\<lparr>bitmap := b\<rparr>) = free_pages s \<union> {p..<p + n}"
  using assms
proof (induction n arbitrary: s p)
  case 0
  show ?case by (auto intro: exI [of _ "bitmap s"])
next
  case (Suc n)
  obtain b where b: "pmm_clear_bit s (of_nat p) = Inr (s\<lparr>bitmap := b\<rparr>)"
    "free_pages (s\<lparr>bitmap := b\<rparr>) = insert p (free_pages s)"
    using clear_bit_free [of p s] Suc.prems by auto
  obtain b' where "clear_bits n (s\<lparr>bitmap := b\<rparr>) (of_nat (Suc p)) = Inr (s\<lparr>bitmap := b'\<rparr>)"
    "free_pages (s\<lparr>bitmap := b'\<rparr>) = insert p (free_pages s) \<union> {Suc p..<Suc p + n}"
    using Suc.IH [of "Suc p" "s\<lparr>bitmap := b\<rparr>"] Suc.prems b by auto
  moreover have "{p..<p + Suc n} = insert p {Suc p..<Suc p + n}" by auto
  ultimately show ?case using b by (simp add: add.commute) blast
qed

lemma all_clear_free:
  assumes "p + n \<le> NPAGES"
  shows "all_clear n s (of_nat p) = Inr ({p..<p + n} \<subseteq> free_pages s)"
  using assms
proof (induction n arbitrary: p)
  case 0
  show ?case by simp
next
  case (Suc n)
  obtain b where b: "pmm_get_bit s (of_nat p) = Inr b" "b = 0 \<longleftrightarrow> p \<in> free_pages s"
    using get_bit_zero [of p s] Suc.prems by auto
  have "all_clear n s (of_nat (Suc p)) = Inr ({Suc p..<Suc p + n} \<subseteq> free_pages s)"
    using Suc.IH [of "Suc p"] Suc.prems by simp
  moreover have "{p..<p + Suc n} = insert p {Suc p..<Suc p + n}" by auto
  ultimately show ?case using b by (simp add: add.commute)
qed

section \<open>First fit\<close>

definition window :: "pmm_state \<Rightarrow> nat \<Rightarrow> nat \<Rightarrow> bool" where
  "window s n p \<longleftrightarrow> p + n \<le> 131071 \<and> {p..<p + n} \<subseteq> free_pages s"

definition first_fit :: "pmm_state \<Rightarrow> nat \<Rightarrow> u32 res \<Rightarrow> bool" where
  "first_fit s n r = (case r of
     Inr p \<Rightarrow> window s n (unat p) \<and> (\<forall>q < unat p. \<not> window s n q)
   | Inl e \<Rightarrow> e = Halted \<and> (\<forall>q. \<not> window s n q))"

text \<open>
  The invariant of the search loop at page \<open>i\<close>: the \<open>f\<close> pages before \<open>i\<close> are a maximal run
  of free pages shorter than \<open>n\<close>, and no window of \<open>n\<close> pages ends at or before \<open>i\<close>.
\<close>

definition search_inv :: "pmm_state \<Rightarrow> nat \<Rightarrow> nat \<Rightarrow> nat \<Rightarrow> bool" where
  "search_inv s n i f \<longleftrightarrow> f < n \<and> f \<le> i \<and> i \<le> 131071 \<and> {i - f..<i} \<subseteq> free_pages s \<and>
     (f < i \<longrightarrow> i - f - 1 \<notin> free_pages s) \<and> (\<forall>q. q + n \<le> i \<longrightarrow> \<not> window s n q)"

lemma search_inv_used:
  assumes "search_inv s n i f" and "i < 131071" and "i \<notin> free_pages s"
  shows "search_inv s n (Suc i) 0"
proof -
  have "\<not> window s n q" if "q + n \<le> Suc i" for q
  proof
    assume w: "window s n q"
    with assms that have "q + n = Suc i" by (auto simp: search_inv_def le_Suc_eq)
    moreover have "0 < n" using assms by (simp add: search_inv_def)
    ultimately have "i \<in> {q..<q + n}" by auto
    with w assms(3) show False by (auto simp: window_def)
  qed
  with assms show ?thesis by (auto simp: search_inv_def)
qed

lemma search_inv_free:
  assumes inv: "search_inv s n i f" and "i < 131071" and "i \<in> free_pages s" and "Suc f \<noteq> n"
    and "0 \<notin> free_pages s"
  shows "search_inv s n (Suc i) (Suc f)"
proof -
  have "\<not> window s n q" if q: "q + n \<le> Suc i" for q
  proof
    assume w: "window s n q"
    with inv q have "q + n = Suc i" by (auto simp: search_inv_def le_Suc_eq)
    with inv assms(4) have "i - f - 1 \<in> {q..<q + n}" and "f < i"
      by (auto simp: search_inv_def)
    with w inv show False by (auto simp: window_def search_inv_def)
  qed
  moreover have "{Suc i - Suc f..<Suc i} = insert i {i - f..<i}"
    using inv by (auto simp: search_inv_def)
  ultimately show ?thesis using assms by (auto simp: search_inv_def)
qed

lemma search_inv_found:
  assumes inv: "search_inv s n i f" and "i < 131071" and "i \<in> free_pages s" and "Suc f = n"
  shows "first_fit s n (Inr (of_nat (i - f)))"
proof -
  have u: "unat (of_nat (i - f) :: u32) = i - f" using assms by (simp add: unat_of_nat_small)
  have "{i - f..<i - f + n} = insert i {i - f..<i}"
    using inv assms(4) by (auto simp: search_inv_def)
  then have "window s n (i - f)" using assms by (auto simp: window_def search_inv_def)
  moreover have "\<not> window s n q" if "q < i - f" for q
    using that assms by (auto simp: search_inv_def)
  ultimately show ?thesis by (simp add: first_fit_def u)
qed

lemma find_free_loop_first_fit:
  assumes "search_inv s n i f" and z: "0 \<notin> free_pages s" and n: "n < 2 ^ 32"
  shows "first_fit s n (find_free_loop s (of_nat n) (of_nat i) (of_nat f) (of_nat (if f = 0 then 0 else i - f)))"
  using assms(1)
proof (induction "131071 - i" arbitrary: i f)
  case 0
  then have "i = 131071" by (simp add: search_inv_def)
  with 0 show ?case
    by (subst find_free_loop.simps) (auto simp: first_fit_def search_inv_def window_def)
next
  case (Suc k)
  then have i: "i < 131071" by simp
  then have less: "(of_nat i :: u32) < BITMAP_MAX_PAGE"
    using of_nat_less_iff_u32 [of i 131071] by simp
  obtain b where b: "pmm_get_bit s (of_nat i) = Inr b" "b = 0 \<longleftrightarrow> i \<in> free_pages s"
    using get_bit_zero [of i s] i by auto
  have n0: "0 < n" "f < n" using Suc.prems by (simp_all add: search_inv_def)
  show ?case
  proof (cases "i \<in> free_pages s")
    case False
    have "(of_nat n :: u32) \<noteq> 0" using n n0 of_nat_inj_2p32 [of n 0] by simp
    with False b less Suc.hyps(1) [of "Suc i" 0] Suc.hyps(2) search_inv_used [OF Suc.prems i False]
    show ?thesis by (subst find_free_loop.simps) (simp add: add.commute)
  next
    case True
    have run: "insert i {i - f..<i} \<subseteq> free_pages s" and fi: "f \<le> i"
      using Suc.prems True by (simp_all add: search_inv_def)
    have "i - f \<in> insert i {i - f..<i}" by auto
    with run z have i0: "0 < i - f" by (metis subsetD gr0I)
    have "(if (of_nat (if f = 0 then 0 else i - f) :: u32) = 0 then of_nat i else of_nat (if f = 0 then 0 else i - f)) = (of_nat (i - f) :: u32)"
      using i i0 of_nat_inj_2p32 [of "i - f" 0] by auto
    moreover have "(of_nat f + 1 :: u32) = of_nat (Suc f)" by simp
    moreover have "(of_nat (Suc f) :: u32) = of_nat n \<longleftrightarrow> Suc f = n"
      using n n0 by (subst of_nat_inj_2p32) auto
    ultimately have step: "find_free_loop s (of_nat n) (of_nat i) (of_nat f) (of_nat (if f = 0 then 0 else i - f)) =
      (if Suc f = n then Inr (of_nat (i - f))
       else find_free_loop s (of_nat n) (of_nat i + 1) (of_nat (Suc f)) (of_nat (i - f)))"
      using less b True by (subst find_free_loop.simps) (simp del: of_nat_Suc)
    show ?thesis
    proof (cases "Suc f = n")
      case True
      with step search_inv_found [OF Suc.prems i \<open>i \<in> free_pages s\<close>] show ?thesis by simp
    next
      case False
      with step Suc.hyps(1) [of "Suc i" "Suc f"] Suc.hyps(2)
        search_inv_free [OF Suc.prems i \<open>i \<in> free_pages s\<close> False z]
      show ?thesis by (simp add: add.commute)
    qed
  qed
qed

lemma find_free_page_first_fit:
  assumes "0 \<notin> free_pages s" and "pages \<noteq> 0"
  shows "first_fit s (unat pages) (find_free_page s pages)"
proof -
  have "0 < unat pages" using assms(2) by (simp add: unat_gt_0)
  then have "search_inv s (unat pages) 0 0" by (auto simp: search_inv_def)
  from find_free_loop_first_fit [OF this assms(1)] show ?thesis by (simp add: find_free_page_def)
qed

section \<open>Allocation, release and accounting\<close>

definition pmm_ok :: "pmm_state \<Rightarrow> bool" where
  "pmm_ok s \<longleftrightarrow> 0 \<notin> free_pages s \<and> unat (available_memory s) = 4096 * card (free_pages s)"

definition block_pages :: "u32 \<Rightarrow> u32 \<Rightarrow> nat set" where
  "block_pages a sz = {unat a div 4096..<unat a div 4096 + unat (npages sz)}"

lemma unat_page_addr: "p < 1048576 \<Longrightarrow> unat (of_nat p * PAGE_SIZE) = 4096 * p"
  using unat_of_nat_small [of "4096 * p"] by (simp add: mult.commute)

lemma unat_page_size: "unat (n * PAGE_SIZE) = 4096 * unat n" if "unat n < 1048576"
  using unat_page_addr [OF that] by simp

lemma card_free_le: "card (free_pages s) \<le> NPAGES"
  using card_mono [of "{..<NPAGES}" "free_pages s"] by (auto simp: free_pages_def)

lemma card_free_diff:
  assumes "{p..<p + n} \<subseteq> free_pages s"
  shows "card (free_pages s - {p..<p + n}) = card (free_pages s) - n" and "n \<le> card (free_pages s)"
  using assms card_mono [OF finite_free_pages assms] by (simp_all add: card_Diff_subset)

lemma pmm_ok_taken:
  assumes "pmm_ok s" and w: "{p..<p + unat n} \<subseteq> free_pages s"
    and "free_pages t = free_pages s - {p..<p + unat n}"
    and "available_memory t = available_memory s - n * PAGE_SIZE"
  shows "pmm_ok t"
proof -
  have n: "unat n \<le> card (free_pages s)" using card_free_diff [OF w] by simp
  then have "unat (n * PAGE_SIZE) = 4096 * unat n"
    using card_free_le [of s] by (intro unat_page_size) simp
  moreover have "unat (available_memory s - n * PAGE_SIZE) = unat (available_memory s) - unat (n * PAGE_SIZE)"
    using n assms(1) calculation by (intro unat_sub) (simp add: word_le_nat_alt pmm_ok_def)
  ultimately show ?thesis
    using assms card_free_diff [OF w] by (simp add: pmm_ok_def diff_mult_distrib2)
qed

lemma pmm_ok_returned:
  assumes "pmm_ok s" and d: "{p..<p + unat n} \<inter> free_pages s = {}" and p: "0 < p" "p + unat n \<le> NPAGES"
    and f: "free_pages t = free_pages s \<union> {p..<p + unat n}"
    and "available_memory t = available_memory s + n * PAGE_SIZE"
  shows "pmm_ok t"
proof -
  have c: "card (free_pages t) = card (free_pages s) + unat n"
    unfolding f using d by (subst card_Un_disjoint) auto
  have "unat (n * PAGE_SIZE) = 4096 * unat n" using p by (intro unat_page_size) simp
  then have "unat (available_memory s + n * PAGE_SIZE) = 4096 * card (free_pages t)"
    using assms(1) c card_free_le [of t] by (subst unat_add_small) (simp_all add: pmm_ok_def)
  with assms show ?thesis by (simp add: pmm_ok_def)
qed

lemma pmm_alloc_cases:
  assumes ok: "pmm_ok s" and n: "npages sz \<noteq> 0"
  shows "(\<exists>p b. window s (unat (npages sz)) p \<and> (\<forall>q < p. \<not> window s (unat (npages sz)) q) \<and>
      pmm_alloc s sz = Inr (of_nat p * PAGE_SIZE, s\<lparr>bitmap := b,
        used_memory := used_memory s + npages sz * PAGE_SIZE,
        available_memory := available_memory s - npages sz * PAGE_SIZE\<rparr>) \<and>
      free_pages (s\<lparr>bitmap := b\<rparr>) = free_pages s - {p..<p + unat (npages sz)})
    \<or> (\<forall>q. \<not> window s (unat (npages sz)) q) \<and> pmm_alloc s sz = Inl Halted"
proof -
  have z: "0 \<notin> free_pages s" using ok by (simp add: pmm_ok_def)
  note ff = find_free_page_first_fit [OF z n]
  show ?thesis
  proof (cases "find_free_page s (npages sz)")
    case (Inl e)
    with ff show ?thesis by (simp add: first_fit_def pmm_alloc_def)
  next
    case (Inr w)
    let ?p = "unat w"
    have w: "window s (unat (npages sz)) ?p" "\<forall>q < ?p. \<not> window s (unat (npages sz)) q"
      using ff Inr by (simp_all add: first_fit_def)
    then obtain b where b: "set_bits (unat (npages sz)) s w = Inr (s\<lparr>bitmap := b\<rparr>)"
      "free_pages (s\<lparr>bitmap := b\<rparr>) = free_pages s - {?p..<?p + unat (npages sz)}"
      using set_bits_free [of ?p "unat (npages sz)" s] by (auto simp: window_def)
    then have "pmm_alloc s sz = Inr (of_nat ?p * PAGE_SIZE, s\<lparr>bitmap := b,
        used_memory := used_memory s + npages sz * PAGE_SIZE,
        available_memory := available_memory s - npages sz * PAGE_SIZE\<rparr>)"
      using Inr by (simp add: pmm_alloc_def Let_def)
    with w b show ?thesis by blast
  qed
qed

lemma free_pages_bitmap [simp]:
  "free_pages (s\<lparr>bitmap := b, used_memory := u\<rparr>) = free_pages (s\<lparr>bitmap := b\<rparr>)"
  "free_pages (s\<lparr>bitmap := b, used_memory := u, available_memory := a\<rparr>) = free_pages (s\<lparr>bitmap := b\<rparr>)"
  "free_pages (s\<lparr>bitmap := b, available_memory := a\<rparr>) = free_pages (s\<lparr>bitmap := b\<rparr>)"
  by (simp_all add: free_pages_def page_used_def)

lemma pmm_alloc_zero:
  "npages sz = 0 \<Longrightarrow> pmm_alloc s sz = Inr (a, t) \<Longrightarrow> t = s"
  by (auto simp: pmm_alloc_def rbind_eq_Inr)

lemma pmm_alloc_block:
  assumes ok: "pmm_ok s" and a: "pmm_alloc s sz = Inr (a, t)"
  shows "pmm_ok t" and "block_pages a sz \<subseteq> free_pages s" and "free_pages t = free_pages s - block_pages a sz"
proof -
  have "pmm_ok t \<and> block_pages a sz \<subseteq> free_pages s \<and> free_pages t = free_pages s - block_pages a sz"
  proof (cases "npages sz = 0")
    case True
    with pmm_alloc_zero [OF True a] ok show ?thesis by (simp add: block_pages_def)
  next
    case False
    from pmm_alloc_cases [OF ok False] a obtain p where
      w: "window s (unat (npages sz)) p" and ap: "a = of_nat p * PAGE_SIZE"
      and f: "free_pages t = free_pages s - {p..<p + unat (npages sz)}"
      and av: "available_memory t = available_memory s - npages sz * PAGE_SIZE" by auto
    have "unat a = 4096 * p" unfolding ap using w by (intro unat_page_addr) (simp add: window_def)
    then have "block_pages a sz = {p..<p + unat (npages sz)}" by (simp add: block_pages_def)
    with w f pmm_ok_taken [OF ok _ f av] show ?thesis by (simp add: window_def)
  qed
  then show "pmm_ok t" and "block_pages a sz \<subseteq> free_pages s" and "free_pages t = free_pages s - block_pages a sz"
    by simp_all
qed

section \<open>The allocator interface\<close>

text \<open>
  What the clients of the allocator rely on: a block is taken from the free pages and leaves
  them. Any number of allocations then gives pairwise disjoint blocks.
\<close>

locale page_allocator =
  fixes ok :: "'s \<Rightarrow> bool" and free :: "'s \<Rightarrow> nat set"
    and pages :: "u32 \<Rightarrow> u32 \<Rightarrow> nat set"
    and alloc :: "'s \<Rightarrow> u32 \<Rightarrow> (u32 \<times> 's) res"
  assumes alloc_ok: "ok s \<Longrightarrow> alloc s n = Inr (a, t) \<Longrightarrow> ok t"
    and alloc_free: "ok s \<Longrightarrow> alloc s n = Inr (a, t) \<Longrightarrow> pages a n \<subseteq> free s"
    and alloc_takes: "ok s \<Longrightarrow> alloc s n = Inr (a, t) \<Longrightarrow> free t = free s - pages a n"
begin

primrec alloc_all :: "'s \<Rightarrow> u32 list \<Rightarrow> (u32 list \<times> 's) res" where
  "alloc_all s [] = Inr ([], s)"
| "alloc_all s (n # ns) =
     rbind (alloc s n) (\<lambda>(a, s). rbind (alloc_all s ns) (\<lambda>(as, s). Inr (a # as, s)))"

lemma alloc_all_blocks:
  assumes "ok s" and "alloc_all s ns = Inr (as, t)"
  shows "ok t \<and> length as = length ns \<and> free t = free s - (\<Union>i<length ns. pages (as ! i) (ns ! i)) \<and>
    (\<forall>i<length ns. pages (as ! i) (ns ! i) \<subseteq> free s)"
  using assms
proof (induction ns arbitrary: s as)
  case Nil
  then show ?case by simp
next
  case (Cons n ns)
  from Cons.prems(2) obtain a s' as' where a: "alloc s n = Inr (a, s')"
    and r: "alloc_all s' ns = Inr (as', t)" and as: "as = a # as'"
    by (auto simp: rbind_eq_Inr split: prod.splits)
  note laws = alloc_ok [OF Cons.prems(1) a] alloc_free [OF Cons.prems(1) a] alloc_takes [OF Cons.prems(1) a]
  note IH = Cons.IH [OF laws(1) r]
  have "(\<Union>i<length (n # ns). pages (as ! i) ((n # ns) ! i)) = pages a n \<union> (\<Union>i<length ns. pages (as' ! i) (ns ! i))"
    by (auto simp: as lessThan_Suc_eq_insert_0)
  with IH laws show ?case by (auto simp: as nth_Cons split: nat.splits)
qed

lemma alloc_all_disjoint:
  assumes "ok s" and "alloc_all s ns = Inr (as, t)" and "i < j" and "j < length ns"
  shows "pages (as ! i) (ns ! i) \<inter> pages (as ! j) (ns ! j) = {}"
  using assms
proof (induction ns arbitrary: s as i j)
  case Nil
  then show ?case by simp
next
  case (Cons n ns)
  from Cons.prems(2) obtain a s' as' where a: "alloc s n = Inr (a, s')"
    and r: "alloc_all s' ns = Inr (as', t)" and as: "as = a # as'"
    by (auto simp: rbind_eq_Inr split: prod.splits)
  obtain k where j: "j = Suc k" "k < length ns" using Cons.prems by (cases j) auto
  show ?case
  proof (cases i)
    case 0
    have "pages (as' ! k) (ns ! k) \<subseteq> free s'"
      using alloc_all_blocks [OF alloc_ok [OF Cons.prems(1) a] r] j by blast
    with 0 j alloc_takes [OF Cons.prems(1) a] show ?thesis by (auto simp: as)
  next
    case (Suc m)
    with Cons.IH [OF alloc_ok [OF Cons.prems(1) a] r, of m k] Cons.prems j show ?thesis
      by (simp add: as)
  qed
qed

end

interpretation pmm: page_allocator pmm_ok free_pages block_pages pmm_alloc
  by unfold_locales (fact pmm_alloc_block)+

section \<open>Release\<close>

lemma page_base: "(a AND - PAGE_SIZE) div PAGE_SIZE = a div PAGE_SIZE" for a :: u32
proof -
  have "- PAGE_SIZE = NOT (mask 12)" by (simp add: mask_eq_exp_minus_1)
  then have "(a AND - PAGE_SIZE) div PAGE_SIZE = drop_bit 12 (a AND NOT (mask 12))"
    by (simp only: drop_bit_eq_div) simp
  also have "\<dots> = drop_bit 12 a"
    by (auto simp: bit_eq_iff bit_simps dest: bit_imp_le_length)
  finally show ?thesis by (simp add: drop_bit_eq_div)
qed

lemma pmm_unalloc_block:
  assumes "unat a div 4096 + unat (npages sz) \<le> 131071"
  shows "\<exists>b. pmm_unalloc s a sz = Inr (s\<lparr>bitmap := b,
        used_memory := used_memory s - npages sz * PAGE_SIZE,
        available_memory := available_memory s + npages sz * PAGE_SIZE\<rparr>) \<and>
      free_pages (s\<lparr>bitmap := b\<rparr>) = free_pages s \<union> block_pages a sz"
proof -
  have p: "unat (a div PAGE_SIZE) = unat a div 4096" by (simp add: unat_div)
  have "unat (a div PAGE_SIZE + npages sz) \<le> 131071"
    using assms by (subst unat_add_small) (simp_all add: p)
  then have le: "\<not> a div PAGE_SIZE + npages sz > BITMAP_MAX_PAGE"
    by (simp add: word_le_nat_alt not_less)
  obtain b where "clear_bits (unat (npages sz)) s (of_nat (unat (a div PAGE_SIZE))) = Inr (s\<lparr>bitmap := b\<rparr>)"
    "free_pages (s\<lparr>bitmap := b\<rparr>) = free_pages s \<union> block_pages a sz"
    using clear_bits_free [of "unat (a div PAGE_SIZE)" "unat (npages sz)" s] assms
    by (auto simp: p block_pages_def)
  with le show ?thesis by (intro exI [of _ b]) (simp add: pmm_unalloc_def page_base Let_def)
qed

lemma pmm_unalloc_ok:
  assumes "pmm_ok s" and "4096 \<le> unat a" and "unat a div 4096 + unat (npages sz) \<le> 131071"
    and "block_pages a sz \<inter> free_pages s = {}"
  shows "\<exists>t. pmm_unalloc s a sz = Inr t \<and> pmm_ok t \<and> free_pages t = free_pages s \<union> block_pages a sz"
proof -
  obtain b where b: "pmm_unalloc s a sz = Inr (s\<lparr>bitmap := b,
        used_memory := used_memory s - npages sz * PAGE_SIZE,
        available_memory := available_memory s + npages sz * PAGE_SIZE\<rparr>)" (is "_ = Inr ?t")
      and f: "free_pages (s\<lparr>bitmap := b\<rparr>) = free_pages s \<union> block_pages a sz"
    using pmm_unalloc_block [OF assms(3)] by blast
  have "{unat a div 4096..<unat a div 4096 + unat (npages sz)} \<inter> free_pages s = {}"
    using assms(4) by (simp only: block_pages_def)
  moreover have "0 < unat a div 4096" using assms(2) by (simp add: div_greater_zero_iff)
  moreover have "unat a div 4096 + unat (npages sz) \<le> NPAGES" using assms(3) by (rule order_trans) simp
  moreover have "free_pages ?t = free_pages s \<union> {unat a div 4096..<unat a div 4096 + unat (npages sz)}"
    using f by (simp only: free_pages_bitmap block_pages_def)
  ultimately have "pmm_ok ?t"
    by (rule pmm_ok_returned [OF assms(1)]) simp
  with b f show ?thesis by simp
qed

text \<open>Releasing an allocation restores the free pages and the three counters.\<close>

lemma pmm_alloc_unalloc_same:
  assumes ok: "pmm_ok s" and a: "pmm_alloc s sz = Inr (a, t)" and n: "npages sz \<noteq> 0"
  shows "\<exists>u. pmm_unalloc t a sz = Inr u \<and> pmm_ok u \<and> free_pages u = free_pages s \<and>
    available_memory u = available_memory s \<and> used_memory u = used_memory s \<and> total_memory u = total_memory s"
proof -
  from pmm_alloc_cases [OF ok n] a obtain p b where
    w: "window s (unat (npages sz)) p" and ap: "a = of_nat p * PAGE_SIZE"
    and t: "t = s\<lparr>bitmap := b, used_memory := used_memory s + npages sz * PAGE_SIZE,
        available_memory := available_memory s - npages sz * PAGE_SIZE\<rparr>" by auto
  have "unat a = 4096 * p" unfolding ap using w by (intro unat_page_addr) (simp add: window_def)
  with w have le: "unat a div 4096 + unat (npages sz) \<le> 131071" by (simp add: window_def)
  note blk = pmm_alloc_block [OF ok a]
  obtain c where u: "pmm_unalloc t a sz = Inr (t\<lparr>bitmap := c,
        used_memory := used_memory t - npages sz * PAGE_SIZE,
        available_memory := available_memory t + npages sz * PAGE_SIZE\<rparr>)" (is "_ = Inr ?u")
      and f: "free_pages (t\<lparr>bitmap := c\<rparr>) = free_pages t \<union> block_pages a sz"
    using pmm_unalloc_block [OF le] by blast
  have "free_pages ?u = free_pages s" using f blk by auto
  moreover have "available_memory ?u = available_memory s" by (simp add: t)
  ultimately show ?thesis using u ok by (auto simp: t pmm_ok_def)
qed

text \<open>Allocation at a fixed address takes all of its pages or none.\<close>

lemma pmm_alloc_from_cases:
  assumes ok: "pmm_ok s" and le: "unat a div 4096 + unat (npages sz) \<le> NPAGES"
  shows "if block_pages a sz \<subseteq> free_pages s
    then \<exists>t. pmm_alloc_from s a sz = Inr (a div PAGE_SIZE * PAGE_SIZE, t) \<and> pmm_ok t \<and>
      free_pages t = free_pages s - block_pages a sz
    else pmm_alloc_from s a sz = Inr (0, s)"
proof -
  have p: "unat (a div PAGE_SIZE) = unat a div 4096" by (simp add: unat_div)
  have c: "all_clear (unat (npages sz)) s (of_nat (unat (a div PAGE_SIZE))) = Inr (block_pages a sz \<subseteq> free_pages s)"
    unfolding block_pages_def p [symmetric] by (rule all_clear_free) (simp only: p le)
  show ?thesis
  proof (cases "block_pages a sz \<subseteq> free_pages s")
    case True
    obtain b where b: "set_bits (unat (npages sz)) s (of_nat (unat (a div PAGE_SIZE))) = Inr (s\<lparr>bitmap := b\<rparr>)"
      "free_pages (s\<lparr>bitmap := b\<rparr>) = free_pages s - block_pages a sz"
      using set_bits_free [of "unat (a div PAGE_SIZE)" "unat (npages sz)" s] le
      unfolding block_pages_def p by blast
    let ?t = "s\<lparr>bitmap := b, available_memory := available_memory s - npages sz * PAGE_SIZE,
        used_memory := used_memory s + npages sz * PAGE_SIZE\<rparr>"
    have ft: "free_pages ?t = free_pages s - block_pages a sz" using b(2) by (simp only: free_pages_upd)
    have "pmm_ok ?t"
      by (rule pmm_ok_taken [OF ok True [unfolded block_pages_def] ft [unfolded block_pages_def]]) simp
    with True b c ft show ?thesis by (simp add: pmm_alloc_from_def Let_def)
  next
    case False
    with c show ?thesis by (simp add: pmm_alloc_from_def Let_def)
  qed
qed

section \<open>Boot-time setup\<close>

text \<open>
  The pages a memory-map entry contributes: those of an available region that starts at or
  above 1 MB, both ends rounded up. An entry is \<open>addressable\<close> when its end is below the first
  page the bitmap cannot represent.
\<close>

definition usable :: "mmap_entry \<Rightarrow> bool" where
  "usable e \<longleftrightarrow> mm_type e = MULTIBOOT_MEMORY_AVAILABLE \<and> (ucast (mm_addr e) :: u32) \<ge> 0x100000"

definition page_up :: "nat \<Rightarrow> nat" where
  "page_up n = (n + 4095) div 4096"

definition entry_pages :: "mmap_entry \<Rightarrow> nat set" where
  "entry_pages e = (if usable e then {page_up (unat (mm_addr e))..<page_up (unat (mm_addr e) + unat (mm_len e))} else {})"

definition addressable :: "mmap_entry \<Rightarrow> bool" where
  "addressable e \<longleftrightarrow> unat (mm_addr e) + unat (mm_len e) \<le> 4096 * NPAGES"

lemma page_up_mono: "m \<le> n \<Longrightarrow> page_up m \<le> page_up n"
  by (simp add: page_up_def div_le_mono)

lemma page_up_bound: "m \<le> 4096 * NPAGES \<Longrightarrow> page_up m \<le> NPAGES"
  using page_up_mono [of m "4096 * NPAGES"] by (simp add: page_up_def)

lemma ROUND_UP_page: "m \<le> 4096 * NPAGES \<Longrightarrow> ROUND_UP (of_nat m) PAGE_SIZE = of_nat (page_up m) * PAGE_SIZE"
proof -
  assume m: "m \<le> 4096 * NPAGES"
  have "of_nat m + PAGE_SIZE - 1 = of_nat (m + 4095)" by simp
  moreover have "(of_nat (m + 4095) :: u32) div PAGE_SIZE = of_nat (page_up m)"
    by (subst word_arith_nat_div, subst unat_of_nat_small) (use m in \<open>simp_all add: page_up_def\<close>)
  ultimately show ?thesis by (simp add: ROUND_UP_def add.commute)
qed

lemma rounded_ends:
  assumes "addressable e"
  shows "rounded_start e = of_nat (page_up (unat (mm_addr e))) * PAGE_SIZE"
    and "rounded_end e = of_nat (page_up (unat (mm_addr e) + unat (mm_len e))) * PAGE_SIZE"
proof -
  have low: "(ucast w :: u32) = of_nat (unat w)" for w :: u64 by simp
  show "rounded_start e = of_nat (page_up (unat (mm_addr e))) * PAGE_SIZE"
    unfolding rounded_start_def low by (rule ROUND_UP_page) (use assms in \<open>simp add: addressable_def\<close>)
  have "unat (mm_addr e + mm_len e) = unat (mm_addr e) + unat (mm_len e)"
    using assms by (simp add: addressable_def unat_word_ariths)
  then show "rounded_end e = of_nat (page_up (unat (mm_addr e) + unat (mm_len e))) * PAGE_SIZE"
    unfolding rounded_end_def low by (simp only:) (rule ROUND_UP_page, use assms in \<open>simp add: addressable_def\<close>)
qed

lemma page_mult_div: "p < 1048576 \<Longrightarrow> (of_nat p * PAGE_SIZE) div PAGE_SIZE = of_nat p"
  by (simp only: word_arith_nat_div unat_page_addr) simp

lemma pmm_setup_entry_ok:
  assumes ok: "pmm_ok s" and e: "addressable e" and d: "entry_pages e \<inter> free_pages s = {}"
  shows "\<exists>t. pmm_setup_entry s e = Inr t \<and> pmm_ok t \<and> free_pages t = free_pages s \<union> entry_pages e"
proof (cases "usable e")
  case False
  with ok show ?thesis by (auto simp: pmm_setup_entry_def usable_def entry_pages_def)
next
  case True
  define p where "p = page_up (unat (mm_addr e))"
  define q where "q = page_up (unat (mm_addr e) + unat (mm_len e))"
  define n where "n = (of_nat (q - p) :: u32)"
  have pq: "p \<le> q" "q \<le> NPAGES" "p \<le> NPAGES"
    using e page_up_mono [of "unat (mm_addr e)" "unat (mm_addr e) + unat (mm_len e)"] page_up_bound [of "unat (mm_addr e) + unat (mm_len e)"]
    by (simp_all add: p_def q_def addressable_def)
  have n: "unat n = q - p" unfolding n_def by (rule unat_of_nat_small) (use pq in simp)
  have ep: "entry_pages e = {p..<p + unat n}" using True pq n by (simp add: entry_pages_def p_def q_def)
  have "(ucast (mm_addr e) :: u32) = of_nat (unat (mm_addr e))" by simp
  moreover have "unat (of_nat (unat (mm_addr e)) :: u32) = unat (mm_addr e)"
    using e by (intro unat_of_nat_small) (simp add: addressable_def)
  ultimately have "0x100000 \<le> unat (mm_addr e)" using True by (simp add: usable_def word_le_nat_alt)
  then have p0: "0 < p" using page_up_mono [of "0x100000" "unat (mm_addr e)"] by (simp add: p_def page_up_def)
  have len: "rounded_end e - rounded_start e = n * PAGE_SIZE"
    using pq by (simp add: rounded_ends [OF e] n_def p_def [symmetric] q_def [symmetric] algebra_simps)
  have len_div: "unat (n * PAGE_SIZE div PAGE_SIZE) = unat n"
    unfolding n_def by (subst page_mult_div) (use pq in simp_all)
  have start: "rounded_start e div PAGE_SIZE = of_nat p"
    using pq by (simp add: rounded_ends [OF e] p_def [symmetric] page_mult_div)
  obtain b where b: "clear_bits (unat n) s (of_nat p) = Inr (s\<lparr>bitmap := b\<rparr>)"
    "free_pages (s\<lparr>bitmap := b\<rparr>) = free_pages s \<union> entry_pages e"
    using clear_bits_free [of p "unat n" s] pq n ep by auto
  let ?t = "s\<lparr>bitmap := b, available_memory := available_memory s + n * PAGE_SIZE\<rparr>"
  have ft: "free_pages ?t = free_pages s \<union> {p..<p + unat n}" using b(2) ep by simp
  have "pmm_ok ?t"
    using d ep p0 pq n ft by (intro pmm_ok_returned [OF ok, of p n]) simp_all
  moreover have "pmm_setup_entry s e = Inr ?t"
    using True b(1) by (simp add: pmm_setup_entry_def usable_def len len_div start Let_def)
  ultimately show ?thesis using ft ep by auto
qed

lemma pmm_setup_loop_ok:
  assumes "pmm_ok s" and "\<forall>e \<in> set es. addressable e \<and> entry_pages e \<inter> free_pages s = {}"
    and "sorted_wrt (\<lambda>d e. entry_pages d \<inter> entry_pages e = {}) es"
  shows "\<exists>t. pmm_setup_loop s es = Inr t \<and> pmm_ok t \<and> free_pages t = free_pages s \<union> (\<Union>e\<in>set es. entry_pages e)"
  using assms
proof (induction es arbitrary: s)
  case Nil
  then show ?case by simp
next
  case (Cons e es)
  obtain t where t: "pmm_setup_entry s e = Inr t" "pmm_ok t" "free_pages t = free_pages s \<union> entry_pages e"
    using pmm_setup_entry_ok [of s e] Cons.prems by auto
  have "\<forall>e \<in> set es. addressable e \<and> entry_pages e \<inter> free_pages t = {}"
    using Cons.prems t by fastforce
  with Cons.IH [of t] Cons.prems t show ?case by fastforce
qed

lemma pmm_memory_setup_pages:
  assumes "available_memory s = 0" and "\<forall>e \<in> set es. addressable e"
    and "sorted_wrt (\<lambda>d e. entry_pages d \<inter> entry_pages e = {}) es"
  shows "\<exists>t. pmm_memory_setup s es = Inr t \<and> pmm_ok t \<and> free_pages t = (\<Union>e\<in>set es. entry_pages e) \<and>
    total_memory t = available_memory t"
proof -
  let ?s = "s\<lparr>bitmap := \<lambda>i. if i < BITMAP_MAX_PAGE then 0xFF else bitmap s i\<rparr>"
  have "page_used ?s n" if "n < NPAGES" for n
  proof -
    have "(of_nat (n div 8) :: u32) < BITMAP_MAX_PAGE" using page_split [OF that] by simp
    moreover have "bit (0xFF :: u8) (n mod 8)"
      using bit_mask_iff [of 8 "n mod 8", where 'a = u8] by (simp add: mask_eq_exp_minus_1)
    ultimately show ?thesis by (simp add: page_used_def)
  qed
  then have "free_pages ?s = {}" by (auto simp: free_pages_def)
  moreover have "pmm_ok ?s" using calculation assms(1) by (simp add: pmm_ok_def)
  ultimately obtain t where t: "pmm_setup_loop ?s es = Inr t" "pmm_ok t" "free_pages t = (\<Union>e\<in>set es. entry_pages e)"
    using pmm_setup_loop_ok [of ?s es] assms by auto
  then have "pmm_memory_setup s es = Inr (t\<lparr>total_memory := available_memory t\<rparr>)"
    by (simp add: pmm_memory_setup_def)
  with t show ?thesis by (simp add: pmm_ok_def)
qed

section \<open>Properties\<close>

text \<open>A machine with pages 1, 2 and 4 free, on which the properties below are tried.\<close>

definition demo_pmm :: pmm_state where
  "demo_pmm = \<lparr>bitmap = (\<lambda>i. if i = 0 then 0xE9 else 0xFF), total_memory = 0x5000,
     used_memory = 0x2000, available_memory = 0x3000\<rparr>"

lemma demo_free: "free_pages demo_pmm = {1, 2, 4}"
proof -
  have ff: "bit (0xFF :: u8) (n mod 8)" for n :: nat
    using bit_mask_iff [of 8 "n mod 8", where 'a = u8] by (simp add: mask_eq_exp_minus_1)
  have "page_used demo_pmm n \<longleftrightarrow> n \<noteq> 1 \<and> n \<noteq> 2 \<and> n \<noteq> 4" if "n < NPAGES" for n
  proof (cases "n < 8")
    case True
    then have "n \<in> {0, 1, 2, 3, 4, 5, 6, 7}" by auto
    with True show ?thesis by (auto simp: page_used_def demo_pmm_def bit_numeral_rec)
  next
    case False
    then have "0 < n div 8" by simp
    then have "(of_nat (n div 8) :: u32) \<noteq> of_nat 0" using that by (subst of_nat_inj_2p32) auto
    with False ff [of n] show ?thesis by (simp add: page_used_def demo_pmm_def)
  qed
  then show ?thesis by (auto simp: free_pages_def)
qed

lemma demo_ok: "pmm_ok demo_pmm"
  unfolding pmm_ok_def demo_free by (simp add: demo_pmm_def)

lemma demo_npages: "npages 0x2000 = 2" "npages 0x1000 = 1"
  by (simp_all add: npages_def)

lemma demo_alloc: "rbind (pmm_alloc demo_pmm 0x2000) (\<lambda>(a, t). Inr a) = Inr 0x1000"
  by code_simp

text \<open>C13: with page 0 reserved and the counters right, \<open>pmm_alloc\<close> returns the page-aligned
  start of the lowest run of free pages that is long enough, takes exactly those pages, moves
  their size from the available to the used counter and keeps the allocator's invariant; it
  halts exactly when no run below page 131071 is long enough.\<close>

theorem pmm_alloc_first_fit:
  assumes "pmm_ok s" and "npages sz \<noteq> 0"
  shows "case pmm_alloc s sz of
      Inr (a, t) \<Rightarrow> aligned 12 a \<and> block_pages a sz \<subseteq> free_pages s \<and>
        free_pages t = free_pages s - block_pages a sz \<and> pmm_ok t \<and>
        (\<forall>q < unat a div 4096. \<not> window s (unat (npages sz)) q) \<and>
        available_memory t + npages sz * PAGE_SIZE = available_memory s \<and>
        used_memory t = used_memory s + npages sz * PAGE_SIZE
    | Inl e \<Rightarrow> e = Halted \<and> (\<forall>q. \<not> window s (unat (npages sz)) q)"
proof -
  consider (found) p b where "window s (unat (npages sz)) p" "\<forall>q < p. \<not> window s (unat (npages sz)) q"
      "pmm_alloc s sz = Inr (of_nat p * PAGE_SIZE, s\<lparr>bitmap := b,
        used_memory := used_memory s + npages sz * PAGE_SIZE,
        available_memory := available_memory s - npages sz * PAGE_SIZE\<rparr>)"
    | (none) "\<forall>q. \<not> window s (unat (npages sz)) q" "pmm_alloc s sz = Inl Halted"
    using pmm_alloc_cases [OF assms] by blast
  then show ?thesis
  proof cases
    case found
    have u: "unat (of_nat p * PAGE_SIZE) = 4096 * p"
      using found(1) by (intro unat_page_addr) (simp add: window_def)
    then have "aligned 12 (of_nat p * PAGE_SIZE)" by (simp add: aligned_dvd)
    with u found pmm_alloc_block [OF assms(1) found(3)] show ?thesis by simp
  qed simp
qed

theorem pmm_alloc_first_fit_witness:
  "case pmm_alloc demo_pmm 0x2000 of
      Inr (a, t) \<Rightarrow> a = 0x1000 \<and> free_pages t = {4} \<and> pmm_ok t
    | Inl e \<Rightarrow> False"
proof -
  have "block_pages 0x1000 0x2000 = {1, 2}" by (auto simp: block_pages_def demo_npages)
  then show ?thesis
    using pmm_alloc_first_fit [OF demo_ok, of "0x2000"] demo_alloc
    by (auto simp: demo_npages demo_free rbind_def split: sum.splits)
qed

text \<open>C14: the blocks that any sequence of successful \<open>pmm_alloc\<close> calls returns are pairwise
  disjoint and were all free before it.\<close>

theorem pmm_allocs_disjoint:
  assumes "pmm_ok s" and "pmm.alloc_all s ns = Inr (as, t)" and "i < j" and "j < length ns"
  shows "block_pages (as ! i) (ns ! i) \<inter> block_pages (as ! j) (ns ! j) = {} \<and>
    block_pages (as ! i) (ns ! i) \<union> block_pages (as ! j) (ns ! j) \<subseteq> free_pages s - free_pages t"
proof -
  have "i < length ns" using assms(3,4) by simp
  then show ?thesis
    using pmm.alloc_all_disjoint [OF assms] pmm.alloc_all_blocks [OF assms(1,2)] assms(4) by blast
qed

theorem pmm_allocs_disjoint_witness:
  "\<exists>as t. pmm.alloc_all demo_pmm [0x1000, 0x1000] = Inr (as, t) \<and>
    block_pages (as ! 0) 0x1000 \<inter> block_pages (as ! 1) 0x1000 = {}"
proof -
  have "rbind (pmm.alloc_all demo_pmm [0x1000, 0x1000]) (\<lambda>(as, t). Inr as) = Inr [0x1000, 0x2000]"
    unfolding pmm.alloc_all.simps by code_simp
  then obtain as t where "pmm.alloc_all demo_pmm [0x1000, 0x1000] = Inr (as, t)"
    by (auto simp: rbind_eq_Inr split: prod.splits)
  with pmm_allocs_disjoint [OF demo_ok this, of 0 1] show ?thesis by auto
qed

text \<open>Giving an allocated block back with \<open>pmm_unalloc\<close> succeeds and restores the set of
  free pages and all three counters.\<close>

lemma pmm_alloc_unalloc:
  assumes "pmm_ok s" and "npages sz \<noteq> 0" and "pmm_alloc s sz = Inr (a, t)"
  shows "\<exists>u. pmm_unalloc t a sz = Inr u \<and> free_pages u = free_pages s \<and>
    available_memory u = available_memory s \<and> used_memory u = used_memory s \<and> total_memory u = total_memory s"
  using pmm_alloc_unalloc_same [OF assms(1,3,2)] by blast

text \<open>\<open>pmm_alloc_from\<close> takes all the pages of the requested range when they are all free
  and answers with the page it starts in; otherwise it answers \<open>NULL\<close> and changes nothing.\<close>

lemma pmm_alloc_from_all_or_nothing:
  assumes "pmm_ok s" and "unat a div 4096 + unat (npages sz) \<le> NPAGES"
  shows "if block_pages a sz \<subseteq> free_pages s
    then \<exists>t. pmm_alloc_from s a sz = Inr (a div PAGE_SIZE * PAGE_SIZE, t) \<and> pmm_ok t \<and>
      free_pages t = free_pages s - block_pages a sz
    else pmm_alloc_from s a sz = Inr (0, s)"
  using pmm_alloc_from_cases [OF assms] .

text \<open>C34: on a memory map of addressable entries with disjoint page ranges, \<open>pmm_memory_setup\<close>
  returns, the free pages are exactly those of the available regions from 1 MB up, and the
  counters agree with them.\<close>

theorem pmm_memory_setup_correct:
  assumes "available_memory s = 0" and "\<forall>e \<in> set es. addressable e"
    and "sorted_wrt (\<lambda>d e. entry_pages d \<inter> entry_pages e = {}) es"
  shows "\<exists>t. pmm_memory_setup s es = Inr t \<and> pmm_ok t \<and> free_pages t = (\<Union>e\<in>set es. entry_pages e) \<and>
    unat (pmm_total_mem t) = 4096 * card (\<Union>e\<in>set es. entry_pages e) \<and> pmm_free_mem t = pmm_total_mem t"
  using pmm_memory_setup_pages [OF assms]
  by (auto simp: pmm_ok_def pmm_total_mem_def pmm_free_mem_def)

theorem pmm_memory_setup_correct_witness:
  "\<exists>t. pmm_memory_setup \<lparr>bitmap = \<lambda>_. 0, total_memory = 0, used_memory = 0, available_memory = 0\<rparr>
      [\<lparr>mm_addr = 0, mm_len = 0x9F000, mm_type = 1\<rparr>, \<lparr>mm_addr = 0x100000, mm_len = 0x3000, mm_type = 1\<rparr>] = Inr t \<and>
    free_pages t = {0x100, 0x101, 0x102}"
proof -
  let ?es = "[\<lparr>mm_addr = 0, mm_len = 0x9F000, mm_type = 1\<rparr>, \<lparr>mm_addr = 0x100000, mm_len = 0x3000, mm_type = 1\<rparr>]"
  have "(\<Union>e\<in>set ?es. entry_pages e) = {0x100, 0x101, 0x102}"
    by (auto simp: entry_pages_def usable_def page_up_def)
  moreover have "sorted_wrt (\<lambda>d e. entry_pages d \<inter> entry_pages e = {}) ?es" "\<forall>e \<in> set ?es. addressable e"
    by (simp_all add: entry_pages_def usable_def addressable_def)
  ultimately show ?thesis
    using pmm_memory_setup_correct [of "\<lparr>bitmap = \<lambda>_. 0, total_memory = 0, used_memory = 0, available_memory = 0\<rparr>" ?es]
    by auto
qed

end
