(* ===== verification/Vmm.thy ===== *)
theory Vmm
  imports Memory Pmm
begin

unbundle bit_operations_syntax

text \<open>
  The virtual memory manager, \<^verbatim>\<open>src/mm/vmm.c\<close>, over physical memory as bytes and a two-level
  page walk as the i386 performs it (4 KiB pages, no \<open>CR4.PSE\<close>, supervisor accesses with
  \<open>CR0.WP\<close> clear, so that presence decides every access). All accesses of the code to its tables
  go through that walk: the windows \<open>_dir\<close> and \<open>_table\<close> are virtual pages whose entries in
  \<open>_base_table\<close> the code rewrites. There is no translation cache in the model, so \<open>vmm_invlpg\<close>
  changes nothing. The addresses the linker gives to the four tables and to the kernel image are
  the record \<open>symbols\<close>.
\<close>

section \<open>Machine state and accesses\<close>

text \<open>The functions the kernel registers as interrupt handlers.\<close>

datatype int_handler =
  Vmm_page_fault | Sched_runner | Core_panic | Syscalls_handler | V86_monitor | Timer_handler

record mstate =
  phys :: mem
  cr3 :: u32
  pg :: bool
  iflag :: bool
  base_kernel_cr3 :: u32
  pmm :: pmm_state
  kernel_heap :: u32
  handlers :: "u8 \<Rightarrow> int_handler option"

record symbols =
  sym_base_dir :: u32
  sym_base_table :: u32
  sym_dir :: u32
  sym_table :: u32
  kernel_start :: u32
  kernel_end :: u32

abbreviation (input) VMM_PRESENT :: u32 where "VMM_PRESENT \<equiv> 1"
abbreviation (input) VMM_WRITE :: u32 where "VMM_WRITE \<equiv> 2"
abbreviation (input) VMM_USER :: u32 where "VMM_USER \<equiv> 4"

definition VMM_4K_PERM_MASK :: u32 where
  "VMM_4K_PERM_MASK = NOT 0xFFF"

record vmm_table_off =
  tid :: u32
  pid :: u32
  off :: u32

definition vmm_virt_to_offs :: "u32 \<Rightarrow> vmm_table_off" where
  "vmm_virt_to_offs addr =
     \<lparr>tid = drop_bit 22 addr AND 0x3FF, pid = drop_bit 12 addr AND 0x3FF, off = addr AND 0xFFF\<rparr>"

definition vmm_offs_to_virt :: "vmm_table_off \<Rightarrow> u32" where
  "vmm_offs_to_virt offs =
     (push_bit 22 (tid offs) AND 0xFFC00000) OR (push_bit 12 (pid offs) AND 0x003FF000) OR
     (off offs AND 0x00000FFF)"

text \<open>The bit fields \<open>present\<close> and \<open>address\<close> of \<open>vmm_entry_t\<close>.\<close>

definition present :: "u32 \<Rightarrow> bool" where
  "present e = bit e 0"

definition address :: "u32 \<Rightarrow> u32" where
  "address e = drop_bit 12 e"

text \<open>The page frame an entry or \<open>cr3\<close> points to, and the hardware page walk from a directory.\<close>

definition frame :: "u32 \<Rightarrow> u32" where
  "frame e = push_bit 12 (address e)"

definition walk :: "mem \<Rightarrow> u32 \<Rightarrow> u32 \<Rightarrow> u32 option" where
  "walk m dir v =
     (let pde = ld32 m (frame dir + 4 * drop_bit 22 v)
      in if present pde then
           (let pte = ld32 m (frame pde + 4 * (drop_bit 12 v AND 0x3FF))
            in if present pte then Some (frame pte + (v AND 0xFFF)) else None)
         else None)"

definition mmu :: "mstate \<Rightarrow> u32 \<Rightarrow> u32 option" where
  "mmu s v = (if pg s then walk (phys s) (cr3 s) v else Some v)"

definition vld :: "u32 \<Rightarrow> (mstate, u32) op" where
  "vld v s = (case mmu s v of None \<Rightarrow> Inl (PageFault v) | Some p \<Rightarrow> Inr (ld32 (phys s) p, s))"

definition vst :: "u32 \<Rightarrow> u32 \<Rightarrow> (mstate, unit) op" where
  "vst v x s = (case mmu s v of None \<Rightarrow> Inl (PageFault v)
     | Some p \<Rightarrow> Inr ((), s\<lparr>phys := st32 (phys s) p x\<rparr>))"

text \<open>Calls into the page allocator, and the interrupt flag around a critical section.\<close>

definition m_pmm_alloc :: "u32 \<Rightarrow> (mstate, u32) op" where
  "m_pmm_alloc sz s = rbind (pmm_alloc (pmm s) sz) (\<lambda>(a, p). Inr (a, s\<lparr>pmm := p\<rparr>))"

definition m_pmm_unalloc :: "u32 \<Rightarrow> u32 \<Rightarrow> (mstate, unit) op" where
  "m_pmm_unalloc addr sz s = rbind (pmm_unalloc (pmm s) addr sz) (\<lambda>p. Inr ((), s\<lparr>pmm := p\<rparr>))"

definition check_interrupts :: "(mstate, bool) op" where
  "check_interrupts = sget iflag"

definition interrupt_lock :: "(mstate, bool) op" where
  "interrupt_lock = sbind check_interrupts (\<lambda>ret. sthen (smod (iflag_update (\<lambda>_. False))) (sret ret))"

definition interrupt_unlock :: "bool \<Rightarrow> (mstate, unit) op" where
  "interrupt_unlock state = swhen state (smod (iflag_update (\<lambda>_. True)))"

section \<open>Control registers\<close>

definition vmm_get_cr3 :: "(mstate, u32) op" where
  "vmm_get_cr3 = sget cr3"

definition vmm_set_cr3 :: "u32 \<Rightarrow> (mstate, unit) op" where
  "vmm_set_cr3 new = smod (cr3_update (\<lambda>_. new))"

definition vmm_replace_cr3 :: "u32 \<Rightarrow> (mstate, u32) op" where
  "vmm_replace_cr3 new =
     (if new = 0 then sret 0
      else sbind (sget cr3) (\<lambda>old.
        if old = new then sret 0 else sthen (vmm_set_cr3 new) (sret old)))"

definition vmm_invlpg :: "u32 \<Rightarrow> (mstate, unit) op" where
  "vmm_invlpg v = sret ()"

definition vmm_enable_paging :: "(mstate, unit) op" where
  "vmm_enable_paging = smod (pg_update (\<lambda>_. True))"

section \<open>The directory and table windows\<close>

definition base_slot :: "symbols \<Rightarrow> u32 \<Rightarrow> u32" where
  "base_slot L addr = sym_base_table L + 4 * pid (vmm_virt_to_offs addr)"

definition open_dir :: "symbols \<Rightarrow> u32 \<Rightarrow> (mstate, unit) op" where
  "open_dir L page_dir =
     (let addr = sym_dir L
      in sbind (vld (base_slot L addr)) (\<lambda>e.
         if address e = drop_bit 12 page_dir then sret ()
         else sthen (vst (base_slot L addr) (page_dir OR VMM_PRESENT OR VMM_WRITE OR VMM_USER))
                (vmm_invlpg addr)))"

definition open_table :: "symbols \<Rightarrow> u32 \<Rightarrow> (mstate, unit) op" where
  "open_table L page_table =
     (let addr = sym_table L
      in sbind (vld (base_slot L addr)) (\<lambda>e.
         if address e = drop_bit 12 page_table then sret ()
         else sthen (vst (base_slot L addr) (page_table OR VMM_PRESENT OR VMM_WRITE OR VMM_USER))
                (vmm_invlpg addr)))"

definition close_dir :: "symbols \<Rightarrow> (mstate, unit) op" where
  "close_dir L =
     (let addr = sym_dir L
      in sbind (vld (base_slot L addr)) (\<lambda>e.
         if address e = drop_bit 12 addr then sret ()
         else sthen (vst (base_slot L addr) (addr OR VMM_PRESENT OR VMM_WRITE OR VMM_USER))
                (vmm_invlpg addr)))"

definition close_table :: "symbols \<Rightarrow> (mstate, unit) op" where
  "close_table L =
     (let addr = sym_table L
      in sbind (vld (base_slot L addr)) (\<lambda>e.
         if address e = drop_bit 12 addr then sret ()
         else sthen (vst (base_slot L addr) (addr OR VMM_PRESENT OR VMM_WRITE OR VMM_USER))
                (vmm_invlpg addr)))"

definition traverse_dir_entry :: "symbols \<Rightarrow> vmm_table_off \<Rightarrow> u32" where
  "traverse_dir_entry L offset = sym_dir L + 4 * tid offset"

definition traverse_table :: "symbols \<Rightarrow> vmm_table_off \<Rightarrow> (mstate, u32) op" where
  "traverse_table L offset = sbind (vld (traverse_dir_entry L offset)) (\<lambda>e. sret (push_bit 12 (address e)))"

definition traverse_table_entry :: "symbols \<Rightarrow> vmm_table_off \<Rightarrow> u32" where
  "traverse_table_entry L offset = sym_table L + 4 * pid offset"

definition traverse_page :: "symbols \<Rightarrow> vmm_table_off \<Rightarrow> (mstate, u32) op" where
  "traverse_page L offset = sbind (vld (traverse_table_entry L offset)) (\<lambda>e. sret (push_bit 12 (address e)))"

section \<open>Translation\<close>

abbreviation (input) UNMAPPED :: u32 where "UNMAPPED \<equiv> 0xFFFFFFFF"

definition virt_to_phys :: "symbols \<Rightarrow> u32 \<Rightarrow> u32 \<Rightarrow> (mstate, u32) op" where
  "virt_to_phys L virt page_dir =
     (let offset = vmm_virt_to_offs virt
      in sthen (open_dir L page_dir)
        (sbind (vld (traverse_dir_entry L offset)) (\<lambda>dir_entry.
         sbind (if present dir_entry then
                  sbind (traverse_table L offset) (\<lambda>page_table.
                  sthen (open_table L page_table)
                  (sbind (vld (traverse_table_entry L offset)) (\<lambda>table_entry.
                   if present table_entry
                   then sbind (traverse_page L offset) (\<lambda>page. sret (page + off offset))
                   else sret UNMAPPED)))
                else sret UNMAPPED) (\<lambda>paddr.
         sthen (close_table L) (sthen (close_dir L) (sret paddr))))))"

definition vmm_virt_to_phys :: "symbols \<Rightarrow> u32 \<Rightarrow> (mstate, u32) op" where
  "vmm_virt_to_phys L virt = sbind vmm_get_cr3 (virt_to_phys L virt)"

definition is_mapped :: "symbols \<Rightarrow> u32 \<Rightarrow> u32 \<Rightarrow> (mstate, bool) op" where
  "is_mapped L data page_dir =
     sbind (sget base_kernel_cr3) (\<lambda>base.
       if base = 0 then sret False
       else sbind (virt_to_phys L data page_dir) (\<lambda>p. sret (p \<noteq> UNMAPPED)))"

primrec range_mapped_loop :: "symbols \<Rightarrow> nat \<Rightarrow> u32 \<Rightarrow> (mstate, bool) op" where
  "range_mapped_loop L 0 cur_addr = sret True"
| "range_mapped_loop L (Suc n) cur_addr =
     sbind vmm_get_cr3 (\<lambda>dir.
     sbind (is_mapped L cur_addr dir) (\<lambda>b.
       if \<not> b then sret False else range_mapped_loop L n (cur_addr + PAGE_SIZE)))"

definition range_mapped :: "symbols \<Rightarrow> u32 \<Rightarrow> u32 \<Rightarrow> (mstate, bool) op" where
  "range_mapped L data sz =
     (let cur_addr = data AND VMM_4K_PERM_MASK;
          end_addr = (data + sz) AND VMM_4K_PERM_MASK;
          rounded_size = end_addr - cur_addr;
          pages = (rounded_size + PAGE_SIZE - 1) div PAGE_SIZE
      in range_mapped_loop L (unat pages) cur_addr)"

section \<open>Mapping\<close>

definition ensure_table :: "symbols \<Rightarrow> vmm_table_off \<Rightarrow> (mstate, unit) op" where
  "ensure_table L offset =
     (let entry = traverse_dir_entry L offset
      in sbind (vld entry) (\<lambda>e.
         if \<not> present e then
           sbind (m_pmm_alloc PAGE_SIZE) (\<lambda>new_table.
           sthen (open_table L new_table)
           (sthen (sfor 0 1024 (\<lambda>i. vst (sym_table L + 4 * of_nat i) 0))
           (sthen (close_table L)
             (vst entry (new_table OR VMM_PRESENT OR VMM_WRITE OR VMM_USER)))))
         else sret ()))"

primrec map_loop :: "symbols \<Rightarrow> u32 \<Rightarrow> nat \<Rightarrow> u32 \<Rightarrow> u32 \<Rightarrow> bool \<Rightarrow> (mstate, bool) op" where
  "map_loop L perms 0 cur_virt cur_phys ret = sret ret"
| "map_loop L perms (Suc n) cur_virt cur_phys ret =
     (let offset = vmm_virt_to_offs cur_virt
      in sthen (ensure_table L offset)
        (sbind (traverse_table L offset) (\<lambda>page_table.
         sthen (open_table L page_table)
        (sbind (vld (traverse_table_entry L offset)) (\<lambda>e.
         if \<not> present e then
           sthen (vst (traverse_table_entry L offset) (cur_phys OR perms))
          (sthen (vmm_invlpg cur_virt)
                 (map_loop L perms n (cur_virt + PAGE_SIZE) (cur_phys + PAGE_SIZE) ret))
         else map_loop L perms n cur_virt cur_phys True)))))"

text \<open>The returned \<open>int\<close> is 0 or 1 and is a \<open>bool\<close> here; \<open>perms\<close> is a zero-extended \<open>uint16_t\<close>.\<close>

definition vmm_map_pages :: "symbols \<Rightarrow> u32 \<Rightarrow> u32 \<Rightarrow> u32 \<Rightarrow> u32 \<Rightarrow> u16 \<Rightarrow> (mstate, bool) op" where
  "vmm_map_pages L paddr virt page_dir count perms =
     sthen (open_dir L page_dir)
    (sbind (map_loop L (ucast perms) (unat count) (virt AND VMM_4K_PERM_MASK) (paddr AND VMM_4K_PERM_MASK) False) (\<lambda>ret.
     sthen (close_table L) (sthen (close_dir L) (sret ret))))"

primrec remap_loop :: "symbols \<Rightarrow> u32 \<Rightarrow> nat \<Rightarrow> u32 \<Rightarrow> u32 \<Rightarrow> (mstate, unit) op" where
  "remap_loop L perms 0 cur_virt cur_phys = sret ()"
| "remap_loop L perms (Suc n) cur_virt cur_phys =
     (let offset = vmm_virt_to_offs cur_virt
      in sthen (ensure_table L offset)
        (sbind (traverse_table L offset) (\<lambda>page_table.
         sthen (open_table L page_table)
        (sthen (vst (traverse_table_entry L offset) (cur_phys OR perms))
        (sthen (vmm_invlpg cur_virt)
               (remap_loop L perms n (cur_virt + PAGE_SIZE) (cur_phys + PAGE_SIZE)))))))"

definition vmm_remap_pages :: "symbols \<Rightarrow> u32 \<Rightarrow> u32 \<Rightarrow> u32 \<Rightarrow> u32 \<Rightarrow> u16 \<Rightarrow> (mstate, bool) op" where
  "vmm_remap_pages L paddr virt page_dir count perms =
     sthen (open_dir L page_dir)
    (sthen (remap_loop L (ucast perms) (unat count) (virt AND VMM_4K_PERM_MASK) (paddr AND VMM_4K_PERM_MASK))
    (sthen (close_table L) (sthen (close_dir L) (sret False))))"

primrec unmap_loop :: "symbols \<Rightarrow> nat \<Rightarrow> u32 \<Rightarrow> bool \<Rightarrow> (mstate, bool) op" where
  "unmap_loop L 0 cur_virt ret = sret ret"
| "unmap_loop L (Suc n) cur_virt ret =
     (let offset = vmm_virt_to_offs cur_virt
      in sthen (ensure_table L offset)
        (sbind (traverse_table L offset) (\<lambda>page_table.
         sthen (open_table L page_table)
        (sbind (vld (traverse_table_entry L offset)) (\<lambda>e.
         sbind (if present e then sthen (vst (traverse_table_entry L offset) 0) (sret ret) else sret True) (\<lambda>ret.
         sthen (vmm_invlpg cur_virt)
               (unmap_loop L n (cur_virt + PAGE_SIZE) ret)))))))"

definition vmm_unmap_pages :: "symbols \<Rightarrow> u32 \<Rightarrow> u32 \<Rightarrow> u32 \<Rightarrow> (mstate, bool) op" where
  "vmm_unmap_pages L virt page_dir count =
     sthen (open_dir L page_dir)
    (sbind (unmap_loop L (unat count) (virt AND VMM_4K_PERM_MASK) False) (\<lambda>ret.
     sthen (close_table L) (sthen (close_dir L) (sret ret))))"

definition vmm_map :: "symbols \<Rightarrow> u32 \<Rightarrow> u32 \<Rightarrow> u32 \<Rightarrow> u16 \<Rightarrow> (mstate, bool) op" where
  "vmm_map L paddr virt count perms = sbind vmm_get_cr3 (\<lambda>dir. vmm_map_pages L paddr virt dir count perms)"

definition vmm_remap :: "symbols \<Rightarrow> u32 \<Rightarrow> u32 \<Rightarrow> u32 \<Rightarrow> u16 \<Rightarrow> (mstate, bool) op" where
  "vmm_remap L paddr virt count perms = sbind vmm_get_cr3 (\<lambda>dir. vmm_remap_pages L paddr virt dir count perms)"

definition vmm_unmap :: "symbols \<Rightarrow> u32 \<Rightarrow> u32 \<Rightarrow> (mstate, bool) op" where
  "vmm_unmap L virt count = sbind vmm_get_cr3 (\<lambda>dir. vmm_unmap_pages L virt dir count)"

section \<open>Address spaces\<close>

text \<open>The \<open>memset\<close> of the new directory stores its 4096 zero bytes a word at a time here.\<close>

definition vmm_fork_kernel_space :: "symbols \<Rightarrow> (mstate, u32) op" where
  "vmm_fork_kernel_space L =
     sbind interrupt_lock (\<lambda>state.
     sbind (m_pmm_alloc PAGE_SIZE) (\<lambda>new_dir.
     sthen (open_dir L new_dir)
    (sthen (sfor 0 1024 (\<lambda>i. vst (sym_dir L + 4 * of_nat i) 0))
    (sthen (sfor 0 1024 (\<lambda>i.
        sbind (sget base_kernel_cr3) (\<lambda>base.
        sbind (vld (base + 4 * of_nat i)) (\<lambda>e.
        swhen (present e) (vst (sym_dir L + 4 * of_nat i) e)))))
    (sthen (close_dir L)
    (sthen (interrupt_unlock state) (sret new_dir)))))))"

text \<open>
  \<open>vmm_free_cr3\<close>: the index \<open>pid\<close> is not reset between tables, so the state of the outer loop
  carries it.
\<close>

primrec free_table_loop :: "symbols \<Rightarrow> u32 \<Rightarrow> nat \<Rightarrow> vmm_table_off \<Rightarrow> (mstate, vmm_table_off) op" where
  "free_table_loop L table_base 0 offset = sret offset"
| "free_table_loop L table_base (Suc n) offset =
     (if pid offset < 1024 then
        sbind (vld (traverse_table_entry L offset)) (\<lambda>e.
        sthen (if present e then
                 sbind (vld (table_base + 4 * pid offset)) (\<lambda>eb.
                 swhen (e \<noteq> eb)
                   (sbind (traverse_page L offset) (\<lambda>page. m_pmm_unalloc page PAGE_SIZE)))
               else sret ())
              (free_table_loop L table_base n (offset\<lparr>pid := pid offset + 1\<rparr>)))
      else sret offset)"

primrec free_dir_loop :: "symbols \<Rightarrow> nat \<Rightarrow> vmm_table_off \<Rightarrow> (mstate, unit) op" where
  "free_dir_loop L 0 offset = sret ()"
| "free_dir_loop L (Suc n) offset =
     sbind (vld (traverse_dir_entry L offset)) (\<lambda>e.
     sbind (sget base_kernel_cr3) (\<lambda>base.
     sbind (if present e then
              sbind (vld (base + 4 * tid offset)) (\<lambda>eb.
              if e \<noteq> eb then
                sbind (traverse_table L offset) (\<lambda>table.
                sbind (vld (base + 4 * tid offset)) (\<lambda>eb.
                sthen (open_table L table)
                      (free_table_loop L (push_bit 12 (address eb)) 1024 offset)))
              else sret offset)
            else sret offset) (\<lambda>offset.
     free_dir_loop L n (offset\<lparr>tid := tid offset + 1\<rparr>))))"

definition vmm_free_cr3 :: "symbols \<Rightarrow> u32 \<Rightarrow> (mstate, unit) op" where
  "vmm_free_cr3 L table0 =
     sbind (sget base_kernel_cr3) (\<lambda>base.
       if table0 = 0 \<or> table0 = base then sret ()
       else sbind interrupt_lock (\<lambda>state.
         sthen (open_dir L table0)
        (sthen (free_dir_loop L 1024 \<lparr>tid = 0, pid = 0, off = 0\<rparr>)
        (sthen (close_table L)
        (sthen (close_dir L)
        (sthen (m_pmm_unalloc table0 PAGE_SIZE)
               (interrupt_unlock state)))))))"

definition register_int_handler :: "u8 \<Rightarrow> int_handler \<Rightarrow> (mstate, unit) op" where
  "register_int_handler n h = smod (handlers_update (\<lambda>hs. hs(n := Some h)))"

definition vmm_memory_setup :: "symbols \<Rightarrow> (mstate, unit) op" where
  "vmm_memory_setup L =
     sthen (sfor 0 1024 (\<lambda>i. vst (sym_base_dir L + 4 * of_nat i) (VMM_WRITE OR VMM_USER)))
    (sthen (sfor 0 1024 (\<lambda>i. vst (sym_base_table L + 4 * of_nat i)
        (of_nat i * PAGE_SIZE OR VMM_PRESENT OR VMM_WRITE OR VMM_USER)))
    (sthen (vst (sym_base_dir L) (sym_base_table L OR VMM_PRESENT OR VMM_WRITE OR VMM_USER))
    (sthen (smod (base_kernel_cr3_update (\<lambda>_. sym_base_dir L)))
    (sthen (vmm_map_pages L (kernel_start L) (kernel_start L) (sym_base_dir L)
        (ALIGN (kernel_end L - kernel_start L) div PAGE_SIZE) 7)
    (sthen (register_int_handler 0x0E Vmm_page_fault)
    (sthen (vmm_set_cr3 (sym_base_dir L))
           vmm_enable_paging))))))"

section \<open>Splitting and composing virtual addresses\<close>

lemma tid_eq: "drop_bit 22 v AND 0x3FF = drop_bit 22 v" for v :: u32
proof -
  have "drop_bit 22 v AND mask 10 = drop_bit 22 v"
    by (auto simp: bit_eq_iff bit_simps dest: bit_imp_le_length)
  then show ?thesis by (simp add: mask_eq_exp_minus_1)
qed

lemma tid_less: "drop_bit 22 v < (1024 :: u32)"
  using and_mask_less' [of 10 "drop_bit 22 v"] by (simp add: mask_eq_exp_minus_1 tid_eq)

lemma pid_less: "x AND 0x3FF < (1024 :: u32)"
  using and_mask_less' [of 10 x] by (simp add: mask_eq_exp_minus_1)

lemma frame_eq: "frame e = e AND NOT (mask 12)"
  by (auto simp: frame_def address_def bit_eq_iff bit_simps)

lemma frame_aligned [simp]: "aligned 12 (frame e)"
  by (simp add: frame_eq)

lemma aligned_frame: "aligned 12 a \<Longrightarrow> frame a = a"
  unfolding frame_eq aligned_def by (metis mask_split add.right_neutral)

lemma frame_add: "aligned 12 a \<Longrightarrow> i < 4096 \<Longrightarrow> frame (a + i) = a"
proof -
  assume a: "aligned 12 a" and i: "i < 4096"
  have "(a + i) AND mask 12 = i" using aligned_offset [OF a] less_mask_eq [of i 12] i by simp
  moreover have "((a + i) AND NOT (mask 12)) + ((a + i) AND mask 12) = a + i"
    by (rule mask_split)
  ultimately show ?thesis by (simp add: frame_eq)
qed

lemma aligned_or: "aligned 12 a \<Longrightarrow> i < 4096 \<Longrightarrow> a OR i = a + i"
proof -
  assume a: "aligned 12 a" and i: "i < 4096"
  have "a AND i = 0"
  proof -
    have "i AND mask 12 = i" using less_mask_eq [of i 12] i by simp
    then have "a AND i = (a AND mask 12) AND i" by (metis and.assoc and.commute)
    with a show ?thesis by (simp add: aligned_def)
  qed
  then show ?thesis by (simp add: disjunctive_add_eq_or)
qed

lemma split_addr: "v = frame v + (v AND 0xFFF)"
proof -
  have "v AND 0xFFF = v AND mask 12" by (simp add: mask_eq_exp_minus_1)
  then show ?thesis by (simp add: frame_eq mask_split)
qed

lemma off_less: "v AND 0xFFF < (4096 :: u32)"
  using and_mask_less' [of 12 v] by (simp add: mask_eq_exp_minus_1)

lemma frame_eq_iff: "frame u = frame v \<longleftrightarrow> drop_bit 22 u = drop_bit 22 v \<and> drop_bit 12 u AND 0x3FF = drop_bit 12 v AND 0x3FF"
proof -
  have f: "frame u = frame v \<longleftrightarrow> (\<forall>n \<ge> 12. bit u n = bit v n)"
    by (auto simp: frame_eq bit_eq_iff bit_simps) (use u32_bit not_less in blast)+
  have t: "drop_bit 22 u = drop_bit 22 v \<longleftrightarrow> (\<forall>n \<ge> 22. bit u n = bit v n)"
    by (rule drop_bit_eq_iff)
  have "drop_bit 12 x AND 0x3FF = drop_bit 12 x AND mask 10" for x :: u32
    by (simp add: mask_eq_exp_minus_1)
  moreover have "drop_bit 12 u AND mask 10 = drop_bit 12 v AND mask 10 \<longleftrightarrow> (\<forall>n. 12 \<le> n \<and> n < 22 \<longrightarrow> bit u n = bit v n)"
    by (rule slice_eq_iff [of 12 _ 10, simplified])
  ultimately have p: "drop_bit 12 u AND 0x3FF = drop_bit 12 v AND 0x3FF \<longleftrightarrow> (\<forall>n. 12 \<le> n \<and> n < 22 \<longrightarrow> bit u n = bit v n)"
    by simp
  have "(\<forall>n \<ge> 12. Q n) \<longleftrightarrow> (\<forall>n \<ge> 22. Q n) \<and> (\<forall>n. 12 \<le> n \<and> n < 22 \<longrightarrow> Q n)" (is "?l = (?h \<and> ?m)") for Q :: "nat \<Rightarrow> bool"
  proof
    assume "?h \<and> ?m"
    then show ?l by (metis not_less)
  qed simp
  then show ?thesis unfolding f t p .
qed

lemma offs_roundtrip: "vmm_offs_to_virt (vmm_virt_to_offs v) = v"
proof -
  have "0xFFC00000 = NOT (mask 22 :: u32)" "0x003FF000 = (mask 22 AND NOT (mask 12) :: u32)" "0xFFF = (mask 12 :: u32)"
    by (simp_all add: mask_eq_exp_minus_1)
  moreover have "(0x3FF :: u32) = mask 10" by (simp add: mask_eq_exp_minus_1)
  ultimately show ?thesis
    unfolding vmm_offs_to_virt_def vmm_virt_to_offs_def
    by (simp only: vmm_table_off.select_convs) (auto simp: bit_eq_iff bit_simps)
qed

section \<open>The windows\<close>

text \<open>
  Where the linker may put the tables: page aligned, distinct, in the first 4 MB, which
  \<open>_base_table\<close> covers.
\<close>

definition symbols_ok :: "symbols \<Rightarrow> bool" where
  "symbols_ok L \<longleftrightarrow> aligned 12 (sym_base_table L) \<and> aligned 12 (sym_dir L) \<and> aligned 12 (sym_table L) \<and>
     distinct [sym_base_table L, sym_dir L, sym_table L] \<and>
     sym_base_table L < 0x400000 \<and> sym_dir L < 0x400000 \<and> sym_table L < 0x400000"

abbreviation dir_slot :: "symbols \<Rightarrow> u32" where "dir_slot L \<equiv> base_slot L (sym_dir L)"
abbreviation table_slot :: "symbols \<Rightarrow> u32" where "table_slot L \<equiv> base_slot L (sym_table L)"
abbreviation self_slot :: "symbols \<Rightarrow> u32" where "self_slot L \<equiv> base_slot L (sym_base_table L)"

text \<open>Through the directory \<open>c\<close>, \<open>_base_table\<close> covers the first 4 MB and maps itself.\<close>

definition reach :: "symbols \<Rightarrow> mem \<Rightarrow> u32 \<Rightarrow> bool" where
  "reach L m c \<longleftrightarrow> frame c \<noteq> sym_base_table L \<and>
     present (ld32 m (frame c)) \<and> frame (ld32 m (frame c)) = sym_base_table L \<and>
     present (ld32 m (self_slot L)) \<and> frame (ld32 m (self_slot L)) = sym_base_table L"

definition paged :: "symbols \<Rightarrow> mstate \<Rightarrow> bool" where
  "paged L s \<longleftrightarrow> symbols_ok L \<and> pg s \<and> reach L (phys s) (cr3 s)"

lemma word_al_times4 [simp]: "word_al (4 * i)"
proof -
  have "4 * i = push_bit 2 i" by (simp add: push_bit_eq_mult mult.commute)
  then show ?thesis by (simp add: aligned_def) (auto simp: bit_eq_iff bit_simps)
qed

lemma entry_word_al [simp]: "aligned 12 a \<Longrightarrow> word_al (a + 4 * i)"
  using aligned_add [of 2 a "4 * i"] aligned_mono [of 2 12 a] by simp

lemma page_word_al [simp]: "aligned 12 a \<Longrightarrow> word_al a"
  using aligned_mono [of 2 12 a] by simp

lemma times4_less: "i < 1024 \<Longrightarrow> 4 * i < (4096 :: u32)"
  by (simp add: word_less_nat_alt unat_word_ariths)

lemma times4_inj: "i < 1024 \<Longrightarrow> j < 1024 \<Longrightarrow> 4 * i = 4 * j \<longleftrightarrow> i = (j :: u32)"
  by (auto simp: word_less_nat_alt unat_word_ariths word_unat_eq_iff)

lemma entry_inj:
  assumes "aligned 12 a" "aligned 12 b" "i < 1024" "j < 1024"
  shows "a + 4 * i = b + 4 * j \<longleftrightarrow> a = b \<and> i = j"
  using aligned_add_inj [of 12 a b "4 * i" "4 * j"] times4_less times4_inj assms by auto

lemma pid_eq: "pid (vmm_virt_to_offs v) = drop_bit 12 v AND 0x3FF"
  and tid_off_eq: "tid (vmm_virt_to_offs v) = drop_bit 22 v"
  and off_eq: "off (vmm_virt_to_offs v) = v AND 0xFFF"
  by (simp_all add: vmm_virt_to_offs_def tid_eq)

lemmas offs_simps = pid_eq tid_off_eq off_eq

lemma low_tid: "v < 0x400000 \<Longrightarrow> drop_bit 22 v = (0 :: u32)"
  by (simp add: drop_bit_eq_div div_word_less)

lemma base_slot_al [simp]: "symbols_ok L \<Longrightarrow> word_al (base_slot L x)"
  by (simp add: symbols_ok_def base_slot_def)

lemma base_slot_inj:
  assumes "symbols_ok L" "frame x = x" "frame y = y" "x < 0x400000" "y < 0x400000"
  shows "base_slot L x = base_slot L y \<longleftrightarrow> x = y"
  using assms entry_inj [of "sym_base_table L" "sym_base_table L" "drop_bit 12 x AND 0x3FF" "drop_bit 12 y AND 0x3FF"]
    frame_eq_iff [of x y] by (auto simp: base_slot_def offs_simps pid_less low_tid symbols_ok_def)

lemma slots_distinct:
  assumes "symbols_ok L"
  shows "distinct [self_slot L, dir_slot L, table_slot L]"
proof -
  have "frame (sym_base_table L) = sym_base_table L" "frame (sym_dir L) = sym_dir L" "frame (sym_table L) = sym_table L"
    using assms by (simp_all add: symbols_ok_def aligned_frame)
  with assms base_slot_inj [OF assms] show ?thesis by (simp add: symbols_ok_def)
qed

lemma slot_not_page:
  assumes "symbols_ok L" "aligned 12 a" "a \<noteq> sym_base_table L" "i < 1024"
  shows "base_slot L x \<noteq> a + 4 * i" and "base_slot L x \<noteq> a"
  using assms entry_inj [of "sym_base_table L" a "drop_bit 12 x AND 0x3FF" i]
    entry_inj [of "sym_base_table L" a "drop_bit 12 x AND 0x3FF" 0]
  by (auto simp: base_slot_def offs_simps pid_less symbols_ok_def)

lemma walk_low:
  assumes "symbols_ok L" "reach L m c" "aligned 12 x" "x < 0x400000" "k < 1024"
  shows "walk m c (x + 4 * k) =
    (if present (ld32 m (base_slot L x)) then Some (frame (ld32 m (base_slot L x)) + 4 * k) else None)"
proof -
  have "frame (x + 4 * k) = frame x" using assms(3,5) by (simp add: frame_add aligned_frame times4_less)
  then have v: "drop_bit 22 (x + 4 * k) = drop_bit 22 x" "drop_bit 12 (x + 4 * k) AND 0x3FF = drop_bit 12 x AND 0x3FF"
    by (simp_all add: frame_eq_iff)
  have "(x + 4 * k) AND mask 12 = 4 * k AND mask 12" by (rule aligned_offset [OF assms(3)])
  then have "(x + 4 * k) AND 0xFFF = 4 * k"
    using times4_less [OF assms(5)] less_mask_eq [of "4 * k" 12] by (simp add: mask_eq_exp_minus_1)
  with assms v show ?thesis by (simp add: walk_def low_tid reach_def base_slot_def offs_simps Let_def)
qed

lemma vld_low:
  assumes "paged L s" "aligned 12 x" "x < 0x400000" "k < 1024" "present (ld32 (phys s) (base_slot L x))"
  shows "vld (x + 4 * k) s = Inr (ld32 (phys s) (frame (ld32 (phys s) (base_slot L x)) + 4 * k), s)"
  using assms walk_low [of L "phys s" "cr3 s" x k] by (simp add: vld_def mmu_def paged_def)

lemma vst_low:
  assumes "paged L s" "aligned 12 x" "x < 0x400000" "k < 1024" "present (ld32 (phys s) (base_slot L x))"
  shows "vst (x + 4 * k) v s =
    Inr ((), s\<lparr>phys := st32 (phys s) (frame (ld32 (phys s) (base_slot L x)) + 4 * k) v\<rparr>)"
  using assms walk_low [of L "phys s" "cr3 s" x k] by (simp add: vst_def mmu_def paged_def)

lemma slot_access:
  assumes "paged L s"
  shows "vld (base_slot L x) s = Inr (ld32 (phys s) (base_slot L x), s)"
    and "vst (base_slot L x) v s = Inr ((), s\<lparr>phys := st32 (phys s) (base_slot L x) v\<rparr>)"
  using assms vld_low [of L s "sym_base_table L" "drop_bit 12 x AND 0x3FF"]
    vst_low [of L s "sym_base_table L" "drop_bit 12 x AND 0x3FF" v]
  by (simp_all add: paged_def symbols_ok_def reach_def pid_less base_slot_def offs_simps)

lemma paged_store:
  assumes "paged L s" "word_al a" "a \<noteq> frame (cr3 s)" "a \<noteq> self_slot L"
  shows "paged L (s\<lparr>phys := st32 (phys s) a v\<rparr>)"
  using assms by (simp add: paged_def reach_def bytes.rd_wr)

lemma st32_same: "word_al a \<Longrightarrow> st32 m a (ld32 m a) = m"
  by (rule mem_eqI) (simp add: bytes.rd_wr)

lemma st32_twice: "word_al a \<Longrightarrow> st32 (st32 m a v) a w = st32 m a w"
  by (rule mem_eqI) (simp add: bytes.rd_wr)

lemma st32_swap: "word_al a \<Longrightarrow> word_al b \<Longrightarrow> a \<noteq> b \<Longrightarrow> st32 (st32 m a v) b w = st32 (st32 m b w) a v"
  by (rule mem_eqI) (auto simp: bytes.rd_wr)

text \<open>
  A window entry the code has written points to an aligned frame with the flag bits 7. Both
  windows are \<open>closed\<close> when they map themselves.
\<close>

abbreviation win :: "u32 \<Rightarrow> u32" where "win a \<equiv> a OR 7"

definition windowed :: "symbols \<Rightarrow> mem \<Rightarrow> u32 \<Rightarrow> u32 \<Rightarrow> bool" where
  "windowed L m d t \<longleftrightarrow> aligned 12 d \<and> aligned 12 t \<and>
     ld32 m (dir_slot L) = win d \<and> ld32 m (table_slot L) = win t"

abbreviation closed :: "symbols \<Rightarrow> mem \<Rightarrow> bool" where
  "closed L m \<equiv> windowed L m (sym_dir L) (sym_table L)"

lemma win_frame: "aligned 12 a \<Longrightarrow> frame (win a) = a"
  by (simp add: aligned_or frame_add)

lemma win_present [simp]: "present (win a)"
  by (simp add: present_def bit_or_iff)

lemma win_address: "aligned 12 a \<Longrightarrow> aligned 12 b \<Longrightarrow> address (win a) = drop_bit 12 b \<longleftrightarrow> a = b"
proof -
  assume "aligned 12 a" "aligned 12 b"
  then have "frame (win a) = a" "frame b = b" "frame a = a" by (simp_all add: win_frame aligned_frame)
  moreover have "drop_bit 12 (frame e) = address e" for e
    by (auto simp: frame_eq address_def bit_eq_iff bit_simps dest: u32_bit)
  ultimately show ?thesis by (metis address_def frame_def)
qed

lemma flags_or: "a OR VMM_PRESENT OR VMM_WRITE OR VMM_USER = win a"
  by (simp add: or.assoc [symmetric])

lemmas window_defs = open_dir_def open_table_def close_dir_def close_table_def

text \<open>Opening a window is one store to its entry, whether or not the code takes the early return.\<close>

lemma window_step:
  assumes "paged L s" "aligned 12 a" "aligned 12 b" "ld32 (phys s) (base_slot L x) = win a"
  shows "sbind (vld (base_slot L x)) (\<lambda>e. if address e = drop_bit 12 b then sret ()
      else sthen (vst (base_slot L x) (b OR VMM_PRESENT OR VMM_WRITE OR VMM_USER)) (vmm_invlpg y)) s =
    Inr ((), s\<lparr>phys := st32 (phys s) (base_slot L x) (win b)\<rparr>)"
proof (cases "a = b")
  case True
  have "word_al (base_slot L x)" using assms(1) by (simp add: paged_def)
  then have "st32 (phys s) (base_slot L x) (win b) = phys s"
    using st32_same [of "base_slot L x" "phys s"] assms(4) True by simp
  with assms True show ?thesis by (simp add: slot_access [OF assms(1)] sbind_Inr win_address)
next
  case False
  with assms show ?thesis
    by (simp add: slot_access [OF assms(1)] sbind_Inr sthen_Inr win_address flags_or vmm_invlpg_def)
qed

lemma window_ops:
  assumes "paged L s" "windowed L (phys s) d t"
  shows "aligned 12 b \<Longrightarrow> open_dir L b s = Inr ((), s\<lparr>phys := st32 (phys s) (dir_slot L) (win b)\<rparr>)"
    and "aligned 12 b \<Longrightarrow> open_table L b s = Inr ((), s\<lparr>phys := st32 (phys s) (table_slot L) (win b)\<rparr>)"
    and "close_dir L s = Inr ((), s\<lparr>phys := st32 (phys s) (dir_slot L) (win (sym_dir L))\<rparr>)"
    and "close_table L s = Inr ((), s\<lparr>phys := st32 (phys s) (table_slot L) (win (sym_table L))\<rparr>)"
proof -
  have d: "aligned 12 (sym_dir L)" "aligned 12 (sym_table L)" using assms(1) by (simp_all add: paged_def symbols_ok_def)
  show "aligned 12 b \<Longrightarrow> open_dir L b s = Inr ((), s\<lparr>phys := st32 (phys s) (dir_slot L) (win b)\<rparr>)"
    using assms unfolding open_dir_def Let_def by (intro window_step) (auto simp: windowed_def)
  show "aligned 12 b \<Longrightarrow> open_table L b s = Inr ((), s\<lparr>phys := st32 (phys s) (table_slot L) (win b)\<rparr>)"
    using assms unfolding open_table_def Let_def by (intro window_step) (auto simp: windowed_def)
  show "close_dir L s = Inr ((), s\<lparr>phys := st32 (phys s) (dir_slot L) (win (sym_dir L))\<rparr>)"
    using assms d unfolding close_dir_def Let_def by (intro window_step) (auto simp: windowed_def)
  show "close_table L s = Inr ((), s\<lparr>phys := st32 (phys s) (table_slot L) (win (sym_table L))\<rparr>)"
    using assms d unfolding close_table_def Let_def by (intro window_step) (auto simp: windowed_def)
qed

lemma windowed_set:
  assumes "symbols_ok L" "windowed L m d t" "aligned 12 b"
  shows "windowed L (st32 m (dir_slot L) (win b)) b t" and "windowed L (st32 m (table_slot L) (win b)) d b"
  using assms slots_distinct [OF assms(1)] by (auto simp: windowed_def bytes.rd_wr)

lemma paged_set:
  assumes "paged L s"
  shows "paged L (s\<lparr>phys := st32 (phys s) (dir_slot L) v\<rparr>)" and "paged L (s\<lparr>phys := st32 (phys s) (table_slot L) v\<rparr>)"
proof -
  have L: "symbols_ok L" "frame (cr3 s) \<noteq> sym_base_table L" using assms by (simp_all add: paged_def reach_def)
  have "dir_slot L \<noteq> frame (cr3 s)" "table_slot L \<noteq> frame (cr3 s)"
    using slot_not_page [OF L(1) frame_aligned L(2), of 0] by auto
  with L assms slots_distinct [OF L(1)] show "paged L (s\<lparr>phys := st32 (phys s) (dir_slot L) v\<rparr>)"
    and "paged L (s\<lparr>phys := st32 (phys s) (table_slot L) v\<rparr>)"
    by (auto intro!: paged_store)
qed

lemma window_access:
  assumes "paged L s" "windowed L (phys s) d t" "i < 1024"
  shows "vld (sym_dir L + 4 * i) s = Inr (ld32 (phys s) (d + 4 * i), s)"
    and "vst (sym_dir L + 4 * i) v s = Inr ((), s\<lparr>phys := st32 (phys s) (d + 4 * i) v\<rparr>)"
    and "vld (sym_table L + 4 * i) s = Inr (ld32 (phys s) (t + 4 * i), s)"
    and "vst (sym_table L + 4 * i) v s = Inr ((), s\<lparr>phys := st32 (phys s) (t + 4 * i) v\<rparr>)"
  using assms vld_low [OF assms(1), of "sym_dir L" i] vst_low [OF assms(1), of "sym_dir L" i v]
    vld_low [OF assms(1), of "sym_table L" i] vst_low [OF assms(1), of "sym_table L" i v]
  by (simp_all add: windowed_def paged_def symbols_ok_def win_frame)

lemma close_both:
  assumes P: "paged L s" and W: "windowed L (phys s) d t"
  shows "sthen (close_table L) (sthen (close_dir L) (sret x)) s =
      Inr (x, s\<lparr>phys := st32 (st32 (phys s) (table_slot L) (win (sym_table L))) (dir_slot L) (win (sym_dir L))\<rparr>)"
proof -
  have L: "symbols_ok L" using P by (simp add: paged_def)
  have "windowed L (st32 (phys s) (table_slot L) (win (sym_table L))) d (sym_table L)"
    using windowed_set(2) [OF L W] L by (simp add: symbols_ok_def)
  with window_ops(3) [OF paged_set(2) [OF P, of "win (sym_table L)"], of d "sym_table L"]
  show ?thesis using window_ops(4) [OF P W] by (simp add: sthen_Inr)
qed

section \<open>Translation agrees with the hardware walk\<close>

text \<open>The entries the walk of \<open>v\<close> from directory \<open>d\<close> reads.\<close>

abbreviation pde_addr :: "u32 \<Rightarrow> u32 \<Rightarrow> u32" where
  "pde_addr d v \<equiv> d + 4 * drop_bit 22 v"

definition pte_addr :: "mem \<Rightarrow> u32 \<Rightarrow> u32 \<Rightarrow> u32" where
  "pte_addr m d v = frame (ld32 m (pde_addr d v)) + 4 * (drop_bit 12 v AND 0x3FF)"

lemma walk_eq:
  "aligned 12 d \<Longrightarrow> walk m d v =
    (if present (ld32 m (pde_addr d v)) \<and> present (ld32 m (pte_addr m d v))
     then Some (frame (ld32 m (pte_addr m d v)) + (v AND 0xFFF)) else None)"
  by (simp add: walk_def pte_addr_def aligned_frame Let_def)

lemma pte_addr_al [simp]: "word_al (pte_addr m d v)"
  by (simp add: pte_addr_def)

text \<open>
  \<open>clear_of\<close>: the walk of \<open>v\<close> does not go through the two window entries, that is \<open>d\<close> is not
  \<open>_base_table\<close> and \<open>v\<close> is not itself a window page.
\<close>

definition clear_of :: "symbols \<Rightarrow> mem \<Rightarrow> u32 \<Rightarrow> u32 \<Rightarrow> bool" where
  "clear_of L m d v \<longleftrightarrow> d \<noteq> sym_base_table L \<and>
     (present (ld32 m (pde_addr d v)) \<longrightarrow> pte_addr m d v \<noteq> dir_slot L \<and> pte_addr m d v \<noteq> table_slot L)"

definition found :: "u32 option \<Rightarrow> u32" where
  "found r = (case r of None \<Rightarrow> UNMAPPED | Some p \<Rightarrow> p)"

lemma virt_to_phys_walk:
  assumes P: "paged L s" and C: "closed L (phys s)" and D: "aligned 12 d" and K: "clear_of L (phys s) d v"
  shows "virt_to_phys L v d s = Inr (found (walk (phys s) d v), s)"
proof -
  have L: "symbols_ok L" using P by (simp add: paged_def)
  note al = base_slot_al [OF L]
  note ds = slots_distinct [OF L]
  let ?m = "phys s"
  let ?a = "pde_addr d v" and ?b = "pte_addr ?m d v" and ?T = "frame (ld32 ?m (pde_addr d v))"
  define m1 where "m1 = st32 ?m (dir_slot L) (win d)"
  define m2 where "m2 = st32 m1 (table_slot L) (win ?T)"
  have a: "?a \<noteq> dir_slot L" "?a \<noteq> table_slot L"
    using slot_not_page(1) [OF L D _ tid_less [of v], THEN not_sym] K by (simp_all add: clear_of_def)
  note p1 = paged_set(1) [OF P, of "win d", folded m1_def]
  have w1: "windowed L m1 d (sym_table L)" unfolding m1_def by (rule windowed_set(1) [OF L C D])
  have r1: "ld32 m1 ?a = ld32 ?m ?a" using a al D by (auto simp: m1_def bytes.rd_wr)
  note p2 = paged_set(2) [OF p1, of "win ?T", simplified, folded m2_def]
  have w2: "windowed L m2 d ?T" unfolding m2_def by (rule windowed_set(2) [OF L w1]) simp
  have r2: "ld32 m2 ?b = ld32 ?m ?b" if "present (ld32 ?m ?a)"
    using K that al by (auto simp: m2_def m1_def bytes.rd_wr clear_of_def)
  have tid: "drop_bit 22 v < 1024" "drop_bit 12 v AND 0x3FF < (1024 :: u32)" by (rule tid_less pid_less)+
  have dslot: "ld32 ?m (dir_slot L) = win (sym_dir L)" "ld32 ?m (table_slot L) = win (sym_table L)"
    using C by (simp_all add: windowed_def)
  have end1: "st32 (st32 m1 (table_slot L) (win (sym_table L))) (dir_slot L) (win (sym_dir L)) = ?m"
    by (rule mem_eqI) (use al ds dslot in \<open>auto simp: m1_def bytes.rd_wr\<close>)
  have end2: "st32 (st32 m2 (table_slot L) (win (sym_table L))) (dir_slot L) (win (sym_dir L)) = ?m"
    by (rule mem_eqI) (use al ds dslot in \<open>auto simp: m2_def m1_def bytes.rd_wr\<close>)
  show ?thesis
  proof (cases "present (ld32 ?m ?a)")
    case False
    then show ?thesis
      unfolding virt_to_phys_def Let_def offs_simps traverse_dir_entry_def
      using window_ops(1) [OF P C D, folded m1_def] window_access(1) [OF p1, of d "sym_table L"] w1 r1 tid
        close_both [where 'a = u32, OF p1, of d "sym_table L"] end1 D
      by (simp add: sthen_Inr sbind_Inr walk_eq found_def)
  next
    case True
    then show ?thesis
      unfolding virt_to_phys_def Let_def offs_simps traverse_dir_entry_def traverse_table_def traverse_table_entry_def traverse_page_def
      using window_ops(1) [OF P C D, folded m1_def] window_access(1) [OF p1, of d "sym_table L"] w1 r1 tid
        window_ops(2) [OF p1, of d "sym_table L" ?T] window_access(3) [OF p2, of d ?T] w2 r2
        close_both [where 'a = u32, OF p2, of d ?T] end2 D
      by (simp add: sthen_Inr sbind_Inr walk_eq found_def pte_addr_def m2_def [symmetric] frame_def [symmetric] del: win_present)
  qed
qed

end
