(* ===== verification/Vmm_Map.thy ===== *)
theory Vmm_Map
  imports Vmm
begin

unbundle bit_operations_syntax

text \<open>
  What the mapping operations of \<^verbatim>\<open>src/mm/vmm.c\<close> do to the translation of a directory. The
  invariant \<open>vm_ok\<close> says that paging is on, that the windows are closed and that the directory
  is a well-formed address space; the loops keep the invariant \<open>editing\<close> while the windows are
  open. \<open>vmm_map_pages\<close>, \<open>vmm_remap_pages\<close> and \<open>vmm_unmap_pages\<close> refine updates of the map from
  virtual to physical addresses, and \<open>vmm_fork_kernel_space\<close> copies it.
\<close>

section \<open>Address spaces the code may change\<close>

text \<open>
  What the code relies on when it edits the directory \<open>d\<close>: the directory, its page tables and
  the directory in \<open>cr3\<close> are allocated frames, distinct from each other, and only entry 0 shares
  \<open>_base_table\<close>.
\<close>

abbreviation page_no :: "u32 \<Rightarrow> nat" where "page_no a \<equiv> unat a div 4096"

abbreviation dent :: "mem \<Rightarrow> u32 \<Rightarrow> u32 \<Rightarrow> u32" where "dent m d i \<equiv> ld32 m (d + 4 * i)"

definition space_ok :: "symbols \<Rightarrow> mem \<Rightarrow> u32 \<Rightarrow> nat set \<Rightarrow> u32 \<Rightarrow> bool" where
  "space_ok L m c F d \<longleftrightarrow> aligned 12 d \<and> d \<noteq> sym_base_table L \<and>
     page_no d \<notin> F \<and> page_no (frame c) \<notin> F \<and> page_no (sym_base_table L) \<notin> F \<and>
     present (dent m d 0) \<and> frame (dent m d 0) = sym_base_table L \<and>
     (\<forall>i < 1024. present (dent m d i) \<longrightarrow>
        page_no (frame (dent m d i)) \<notin> F \<and> frame (dent m d i) \<noteq> d \<and> frame (dent m d i) \<noteq> frame c \<and>
        (\<forall>j < 1024. present (dent m d j) \<and> frame (dent m d j) = frame (dent m d i) \<longrightarrow> j = i))"

definition editing :: "symbols \<Rightarrow> u32 \<Rightarrow> u32 \<Rightarrow> mstate \<Rightarrow> bool" where
  "editing L d t s \<longleftrightarrow> paged L s \<and> windowed L (phys s) d t \<and>
     space_ok L (phys s) (cr3 s) (free_pages (pmm s)) d \<and> pmm_ok (pmm s)"

definition window_page :: "symbols \<Rightarrow> u32 \<Rightarrow> bool" where
  "window_page L u \<longleftrightarrow> frame u = sym_dir L \<or> frame u = sym_table L"

lemma space_table:
  assumes "space_ok L m c F d" "i < 1024" "present (dent m d i)"
  shows "page_no (frame (dent m d i)) \<notin> F" "frame (dent m d i) \<noteq> d" "frame (dent m d i) \<noteq> frame c"
    and "j < 1024 \<Longrightarrow> present (dent m d j) \<Longrightarrow> frame (dent m d j) = frame (dent m d i) \<Longrightarrow> j = i"
    and "i \<noteq> 0 \<Longrightarrow> frame (dent m d i) \<noteq> sym_base_table L"
  using assms by (auto simp: space_ok_def)

lemma walk_cong:
  assumes "aligned 12 d" "ld32 m' (pde_addr d u) = ld32 m (pde_addr d u)"
    and "present (ld32 m (pde_addr d u)) \<Longrightarrow> ld32 m' (pte_addr m d u) = ld32 m (pte_addr m d u)"
  shows "walk m' d u = walk m d u"
proof -
  have "pte_addr m' d u = pte_addr m d u" using assms(2) by (simp add: pte_addr_def)
  with assms show ?thesis by (auto simp: walk_eq)
qed

text \<open>Where the walk of an ordinary page looks: never at a window entry.\<close>

lemma pte_addr_not_slot:
  assumes L: "symbols_ok L" and S: "space_ok L m c F d" and w: "\<not> window_page L u"
    and p: "present (ld32 m (pde_addr d u))"
  shows "pte_addr m d u \<noteq> dir_slot L" and "pte_addr m d u \<noteq> table_slot L"
proof -
  let ?T = "frame (ld32 m (pde_addr d u))"
  have al: "aligned 12 ?T" "aligned 12 (sym_base_table L)" using L by (simp_all add: symbols_ok_def)
  have "frame x = frame u" if "x < 0x400000" "pte_addr m d u = base_slot L x" for x
  proof -
    have "?T = sym_base_table L" "drop_bit 12 u AND 0x3FF = drop_bit 12 x AND 0x3FF"
      using that(2) entry_inj [OF al, of "drop_bit 12 u AND 0x3FF" "drop_bit 12 x AND 0x3FF"]
      by (auto simp: pte_addr_def base_slot_def offs_simps pid_less)
    moreover have "drop_bit 22 u = 0"
      using space_table(5) [OF S tid_less p] calculation(1) by auto
    ultimately show ?thesis using low_tid [OF that(1)] by (simp add: frame_eq_iff)
  qed
  from this [of "sym_dir L"] this [of "sym_table L"] w L
  show "pte_addr m d u \<noteq> dir_slot L" and "pte_addr m d u \<noteq> table_slot L"
    by (auto simp: window_page_def symbols_ok_def aligned_frame)
qed

text \<open>Replacing the page-table entry of \<open>v\<close> changes the translation of the page of \<open>v\<close> only.\<close>

lemma walk_set_pte:
  assumes S: "space_ok L m c F d" and p: "present (ld32 m (pde_addr d v))"
  shows "walk (st32 m (pte_addr m d v) x) d u =
    (if frame u = frame v then if present x then Some (frame x + (u AND 0xFFF)) else None else walk m d u)"
proof -
  let ?a = "pte_addr m d v" and ?T = "frame (ld32 m (pde_addr d v))"
  have d: "aligned 12 d" using S by (simp add: space_ok_def)
  have "pde_addr d u \<noteq> ?a"
    using space_table(2) [OF S tid_less p] d entry_inj [of d ?T "drop_bit 22 u" "drop_bit 12 v AND 0x3FF"]
    by (auto simp: pte_addr_def tid_less pid_less)
  then have pde: "ld32 (st32 m ?a x) (pde_addr d u) = ld32 m (pde_addr d u)"
    using d by (simp add: bytes.rd_wr)
  show ?thesis
  proof (cases "frame u = frame v")
    case True
    then have "pte_addr m d u = ?a" "pde_addr d u = pde_addr d v"
      by (simp_all add: frame_eq_iff pte_addr_def)
    moreover have "pte_addr (st32 m ?a x) d u = pte_addr m d u"
      unfolding pte_addr_def [of "st32 m ?a x"] pde by (simp add: pte_addr_def)
    ultimately show ?thesis using True p pde d by (simp add: walk_eq)
  next
    case False
    have "ld32 (st32 m ?a x) (pte_addr m d u) = ld32 m (pte_addr m d u)" if pu: "present (ld32 m (pde_addr d u))"
    proof -
      have "pte_addr m d u \<noteq> ?a"
      proof
        assume "pte_addr m d u = ?a"
        then have "frame (ld32 m (pde_addr d u)) = ?T" "drop_bit 12 u AND 0x3FF = drop_bit 12 v AND 0x3FF"
          using entry_inj [of "frame (ld32 m (pde_addr d u))" ?T "drop_bit 12 u AND 0x3FF" "drop_bit 12 v AND 0x3FF"]
          by (simp_all add: pte_addr_def pid_less)
        moreover have "drop_bit 22 u = drop_bit 22 v"
          using space_table(4) [OF S tid_less p tid_less pu] calculation(1) by simp
        ultimately show False using False by (simp add: frame_eq_iff)
      qed
      then show ?thesis by (simp add: bytes.rd_wr)
    qed
    with walk_cong [OF d pde] False show ?thesis by simp
  qed
qed

lemma space_ok_cong:
  assumes "space_ok L m c F d" "\<And>i. i < 1024 \<Longrightarrow> dent m' d i = dent m d i" "F' \<subseteq> F"
  shows "space_ok L m' c F' d"
  using assms(1,3) assms(2) [of 0] assms(2) by (auto simp: space_ok_def)

lemma walk_set_slot:
  assumes L: "symbols_ok L" and S: "space_ok L m c F d" and w: "\<not> window_page L u"
  shows "walk (st32 m (table_slot L) x) d u = walk m d u" and "walk (st32 m (dir_slot L) x) d u = walk m d u"
proof -
  have d: "aligned 12 d" "d \<noteq> sym_base_table L" using S by (simp_all add: space_ok_def)
  note ne = slot_not_page(1) [OF L d tid_less [of u]] and al = base_slot_al [OF L]
  show "walk (st32 m (table_slot L) x) d u = walk m d u"
    by (rule walk_cong) (use d ne al pte_addr_not_slot [OF L S w] in \<open>auto simp: bytes.rd_wr\<close>)
  show "walk (st32 m (dir_slot L) x) d u = walk m d u"
    by (rule walk_cong) (use d ne al pte_addr_not_slot [OF L S w] in \<open>auto simp: bytes.rd_wr\<close>)
qed

lemma space_set_slot:
  assumes L: "symbols_ok L" and S: "space_ok L m c F d"
  shows "space_ok L (st32 m (base_slot L y) x) c F d"
proof (rule space_ok_cong [OF S])
  fix i :: u32 assume "i < 1024"
  then show "dent (st32 m (base_slot L y) x) d i = dent m d i"
    using S slot_not_page(1) [OF L, of d i y] base_slot_al [OF L] by (simp add: space_ok_def bytes.rd_wr)
qed simp

section \<open>Creating a page table\<close>

lemma page_no_inj: "aligned 12 a \<Longrightarrow> aligned 12 b \<Longrightarrow> page_no a = page_no b \<Longrightarrow> a = b"
  by (auto simp: aligned_dvd word_unat_eq_iff)

lemma clear_page_loop:
  assumes P: "paged L s" and W: "windowed L (phys s) d t" and t: "t \<noteq> sym_base_table L" "t \<noteq> frame (cr3 s)"
  shows "sfor 0 1024 (\<lambda>i. vst (sym_table L + 4 * of_nat i) 0) s =
    Inr ((), s\<lparr>phys := bytes.fill (phys s) t 0 1024\<rparr>)" (is "sfor 0 1024 ?f s = _")
proof -
  have L: "symbols_ok L" and tal: "aligned 12 t" using P W by (simp_all add: paged_def windowed_def)
  let ?Q = "\<lambda>k u. u = s\<lparr>phys := bytes.fill (phys s) t 0 k\<rparr> \<and> paged L u \<and> windowed L (phys u) d t"
  have "\<exists>u'. ?f k u = Inr ((), u') \<and> ?Q (Suc k) u'" if "k < 1024" "?Q k u" for k u
  proof -
    have k: "(of_nat k :: u32) < 1024" using that(1) of_nat_less_iff_u32 [of k 1024] by simp
    let ?m = "st32 (phys u) (t + 4 * of_nat k) 0"
    have u: "u = s\<lparr>phys := bytes.fill (phys s) t 0 k\<rparr>" and Pu: "paged L u" and Wu: "windowed L (phys u) d t"
      using that(2) by blast+
    have ne: "base_slot L x \<noteq> t + 4 * of_nat k" for x by (rule slot_not_page(1) [OF L tal t(1) k])
    have "t + 4 * of_nat k \<noteq> frame (cr3 u)"
      using entry_inj [of t "frame (cr3 s)" "of_nat k" 0] k tal t(2) u by auto
    then have "paged L (u\<lparr>phys := ?m\<rparr>)" using Pu tal ne [of "sym_base_table L"] by (intro paged_store) auto
    moreover have "windowed L ?m d t"
      using Wu ne [THEN not_sym] tal base_slot_al [OF L] by (simp add: windowed_def bytes.rd_wr)
    moreover have "?f k u = Inr ((), u\<lparr>phys := ?m\<rparr>)" by (rule window_access(4) [OF Pu Wu k])
    moreover have "u\<lparr>phys := ?m\<rparr> = s\<lparr>phys := bytes.fill (phys s) t 0 (Suc k)\<rparr>" by (simp add: u)
    ultimately show ?thesis by (simp add: u)
  qed
  from sfor_keeps [of 0 1024 ?Q ?f s, simplified] this P W show ?thesis by auto
qed

text \<open>The frames the allocator can still hand out one at a time.\<close>

definition frames_left :: "mstate \<Rightarrow> nat" where
  "frames_left s = card (free_pages (pmm s) \<inter> {..<131071})"

lemma frames_left_upd [simp]: "frames_left (s\<lparr>phys := m\<rparr>) = frames_left s" "frames_left (s\<lparr>iflag := b\<rparr>) = frames_left s"
  by (simp_all add: frames_left_def)

lemma frames_left_take:
  assumes "free_pages (pmm t) = free_pages (pmm s) - {a}"
  shows "frames_left s \<le> Suc (frames_left t)"
proof -
  have "free_pages (pmm t) \<inter> {..<131071} = (free_pages (pmm s) \<inter> {..<131071}) - {a}" using assms by auto
  then show ?thesis unfolding frames_left_def
    by (cases "a \<in> free_pages (pmm s) \<inter> {..<131071}") (simp_all add: card_Diff_singleton)
qed

lemma pmm_alloc_page:
  assumes "pmm_ok p"
  shows "pmm_alloc p PAGE_SIZE = Inl Halted \<and> free_pages p \<inter> {..<131071} = {} \<or> (\<exists>a q. pmm_alloc p PAGE_SIZE = Inr (a, q) \<and> aligned 12 a \<and>
    page_no a \<in> free_pages p \<and> free_pages q = free_pages p - {page_no a} \<and> pmm_ok q)"
proof -
  have n: "npages PAGE_SIZE = 1" by (simp add: npages_def)
  from pmm_alloc_cases [of p PAGE_SIZE] assms n consider
      (none) "pmm_alloc p PAGE_SIZE = Inl Halted" "\<forall>q. \<not> window p 1 q"
    | (page) k q where "window p 1 k" "pmm_alloc p PAGE_SIZE = Inr (of_nat k * PAGE_SIZE, q)"
    by fastforce
  then show ?thesis
  proof cases
    case page
    have u: "unat (of_nat k * PAGE_SIZE) = 4096 * k" using page(1) by (intro unat_page_addr) (simp add: window_def)
    then have "block_pages (of_nat k * PAGE_SIZE) PAGE_SIZE = {k}" by (auto simp: block_pages_def n)
    moreover have "aligned 12 (of_nat k * PAGE_SIZE)" using u by (simp add: aligned_dvd)
    ultimately show ?thesis using pmm_alloc_block [OF assms page(2)] page(2) u by auto
  next
    case none
    have "free_pages p \<inter> {..<131071} = {}"
    proof (rule ccontr)
      assume "free_pages p \<inter> {..<131071} \<noteq> {}"
      then obtain k where "k \<in> free_pages p" "k < 131071" by blast
      then have "window p 1 k" by (simp add: window_def)
      with none(2) show False by blast
    qed
    with none(1) show ?thesis by blast
  qed
qed

lemma ld32_fill_page:
  assumes "aligned 12 t" "word_al a"
  shows "ld32 (bytes.fill m t v 1024) a = (if frame a = t then v else ld32 m a)"
proof (cases "frame a = t")
  case True
  obtain k where k: "k < 1024" "a = t + 4 * of_nat k"
  proof -
    have "a AND 0xFFF = a - t" using split_addr [of a] True by (simp add: algebra_simps)
    moreover have "word_al (a - t)" using assms by (intro aligned_minus) simp_all
    ultimately have "4 dvd unat (a AND 0xFFF)" "unat (a AND 0xFFF) < 4096"
      using off_less [of a] by (simp_all add: aligned_dvd word_less_nat_alt)
    then obtain k where "unat (a AND 0xFFF) = 4 * k" "k < 1024" by auto
    moreover have "of_nat (unat (a AND 0xFFF)) = a AND 0xFFF" by simp
    ultimately have "a AND 0xFFF = 4 * of_nat k" by simp
    with that [of k] split_addr [of a] True \<open>k < 1024\<close> show ?thesis by simp
  qed
  with True assms show ?thesis using bytes.rd_fill_in [of 1024 t k m v] by simp
next
  case False
  have "a \<noteq> t + 4 * of_nat i" if "i < 1024" for i
  proof
    assume "a = t + 4 * of_nat i"
    moreover have "(of_nat i :: u32) < 1024" using that of_nat_less_iff_u32 [of i 1024] by simp
    ultimately show False using False frame_add [OF assms(1) times4_less] by simp
  qed
  with False assms show ?thesis by (subst bytes.rd_fill_out) simp_all
qed

text \<open>What an editing step keeps of the rest of the machine.\<close>

definition same_core :: "mstate \<Rightarrow> mstate \<Rightarrow> bool" where
  "same_core s t \<longleftrightarrow> cr3 t = cr3 s \<and> pg t = pg s \<and> iflag t = iflag s \<and>
     base_kernel_cr3 t = base_kernel_cr3 s \<and> free_pages (pmm t) \<subseteq> free_pages (pmm s)"

lemma same_core_refl [simp]: "same_core s s"
  by (simp add: same_core_def)

lemma same_core_trans: "same_core s t \<Longrightarrow> same_core t u \<Longrightarrow> same_core s u"
  by (auto simp: same_core_def)

lemma same_core_phys [simp]:
  "same_core s (t\<lparr>phys := m\<rparr>) \<longleftrightarrow> same_core s t" "same_core (s\<lparr>phys := m\<rparr>) t \<longleftrightarrow> same_core s t"
  by (simp_all add: same_core_def)

lemma ensure_table_present:
  assumes "editing L d t s" "present (ld32 (phys s) (pde_addr d v))"
  shows "ensure_table L (vmm_virt_to_offs v) s = Inr ((), s)"
  using assms window_access(1) [of L s d t "drop_bit 22 v"]
  by (simp add: ensure_table_def traverse_dir_entry_def offs_simps editing_def tid_less sbind_Inr Let_def)

text \<open>A new table: what memory holds afterwards.\<close>

lemma ensure_table_new:
  assumes E: "editing L d t s" and np: "\<not> present (ld32 (phys s) (pde_addr d v))"
    and A: "pmm_alloc (pmm s) PAGE_SIZE = Inr (a, q)" "aligned 12 a" "page_no a \<in> free_pages (pmm s)"
  shows "\<exists>m. ensure_table L (vmm_virt_to_offs v) s = Inr ((), s\<lparr>pmm := q, phys := m\<rparr>) \<and>
    paged L (s\<lparr>pmm := q, phys := m\<rparr>) \<and> windowed L m d (sym_table L) \<and>
    (\<forall>b. word_al b \<longrightarrow> ld32 m b = (if b = pde_addr d v then win a else if b = table_slot L then win (sym_table L)
       else if frame b = a then 0 else ld32 (phys s) b))"
proof -
  have P: "paged L s" and W: "windowed L (phys s) d t" and S: "space_ok L (phys s) (cr3 s) (free_pages (pmm s)) d"
    using E by (simp_all add: editing_def)
  have L: "symbols_ok L" using P by (simp add: paged_def)
  have d: "aligned 12 d" "d \<noteq> sym_base_table L" and tb: "aligned 12 (sym_table L)"
    using S L by (simp_all add: space_ok_def symbols_ok_def)
  have ane: "a \<noteq> sym_base_table L" "a \<noteq> frame (cr3 s)" "a \<noteq> d" using S A(3) by (auto simp: space_ok_def)
  let ?s0 = "s\<lparr>pmm := q\<rparr>"
  have P0: "paged L ?s0" using P by (simp add: paged_def)
  define m1 where "m1 = st32 (phys s) (table_slot L) (win a)"
  define m2 where "m2 = bytes.fill m1 a 0 1024"
  define m3 where "m3 = st32 m2 (table_slot L) (win (sym_table L))"
  define m4 where "m4 = st32 m3 (pde_addr d v) (win a)"
  have o1: "open_table L a ?s0 = Inr ((), ?s0\<lparr>phys := m1\<rparr>)"
    using window_ops(2) [OF P0, of d t a] W A(2) by (simp add: m1_def)
  have P1: "paged L (?s0\<lparr>phys := m1\<rparr>)" using paged_set(2) [OF P0, of "win a"] by (simp add: m1_def)
  have W1: "windowed L m1 d a" using windowed_set(2) [OF L W A(2)] by (simp add: m1_def)
  have c2: "sfor 0 1024 (\<lambda>i. vst (sym_table L + 4 * of_nat i) 0) (?s0\<lparr>phys := m1\<rparr>) = Inr ((), ?s0\<lparr>phys := m2\<rparr>)"
    using clear_page_loop [OF P1, of d a] W1 ane by (simp add: m2_def)
  have slot: "frame (base_slot L x) \<noteq> a" for x
    using frame_add [of "sym_base_table L" "4 * (drop_bit 12 x AND 0x3FF)"] L ane
    by (simp add: base_slot_def offs_simps times4_less pid_less symbols_ok_def)
  have r2: "ld32 m2 b = (if frame b = a then 0 else ld32 m1 b)" if "word_al b" for b
    unfolding m2_def by (rule ld32_fill_page [OF A(2) that])
  have P2: "paged L (?s0\<lparr>phys := m2\<rparr>)"
    using P1 ane slot base_slot_al [OF L] by (simp add: paged_def reach_def r2 aligned_frame)
  have W2: "windowed L m2 d a" using W1 slot base_slot_al [OF L] by (simp add: windowed_def r2)
  have o3: "close_table L (?s0\<lparr>phys := m2\<rparr>) = Inr ((), ?s0\<lparr>phys := m3\<rparr>)"
    using window_ops(4) [OF P2, of d a] W2 by (simp add: m3_def)
  have P3: "paged L (?s0\<lparr>phys := m3\<rparr>)" using paged_set(2) [OF P2, of "win (sym_table L)"] by (simp add: m3_def)
  have W3: "windowed L m3 d (sym_table L)" unfolding m3_def by (rule windowed_set(2) [OF L W2 tb])
  have o4: "vst (sym_dir L + 4 * drop_bit 22 v) (win a) (?s0\<lparr>phys := m3\<rparr>) = Inr ((), ?s0\<lparr>phys := m4\<rparr>)"
    using window_access(2) [OF P3, of d "sym_table L" "drop_bit 22 v"] W3 tid_less by (simp add: m4_def)
  have tid0: "drop_bit 22 v \<noteq> 0" using np S by (auto simp: space_ok_def)
  have nes: "base_slot L x \<noteq> pde_addr d v" for x by (rule slot_not_page(1) [OF L d tid_less])
  have nec: "pde_addr d v \<noteq> frame (cr3 s)"
    using entry_inj [of d "frame (cr3 s)" "drop_bit 22 v" 0] d tid_less tid0 by auto
  have P4: "paged L (?s0\<lparr>phys := m4\<rparr>)"
    using paged_store [OF P3, of "pde_addr d v"] d nec nes [of "sym_base_table L"] by (auto simp: m4_def)
  have W4: "windowed L m4 d (sym_table L)"
    using W3 nes [THEN not_sym] d base_slot_al [OF L] by (simp add: windowed_def m4_def bytes.rd_wr)
  have run: "ensure_table L (vmm_virt_to_offs v) s = Inr ((), ?s0\<lparr>phys := m4\<rparr>)"
    using window_access(1) [OF P, of d t "drop_bit 22 v"] W np o1 c2 o3 o4 A(1)
    by (simp add: ensure_table_def traverse_dir_entry_def offs_simps tid_less sbind_Inr sthen_Inr Let_def
        m_pmm_alloc_def flags_or)
  have "frame (pde_addr d v) \<noteq> a" using frame_add [OF d(1) times4_less [OF tid_less]] ane by simp
  then have "\<forall>b. word_al b \<longrightarrow> ld32 m4 b = (if b = pde_addr d v then win a else if b = table_slot L then win (sym_table L)
       else if frame b = a then 0 else ld32 (phys s) b)"
    using d base_slot_al [OF L] by (auto simp: m4_def m3_def r2 m1_def bytes.rd_wr)
  with run P4 W4 show ?thesis by auto
qed

lemma editing_new_table:
  assumes E: "editing L d t s" and np: "\<not> present (ld32 (phys s) (pde_addr d v))"
    and A: "aligned 12 a" "page_no a \<in> free_pages (pmm s)" "free_pages q = free_pages (pmm s) - {page_no a}" "pmm_ok q"
    and P: "paged L (s\<lparr>pmm := q, phys := m\<rparr>)" and W: "windowed L m d t'"
    and R: "\<And>b. word_al b \<Longrightarrow> ld32 m b = (if b = pde_addr d v then win a else if b = table_slot L then x
       else if frame b = a then 0 else ld32 (phys s) b)"
  shows "editing L d t' (s\<lparr>pmm := q, phys := m\<rparr>) \<and> (\<forall>u. \<not> window_page L u \<longrightarrow> walk m d u = walk (phys s) d u)"
proof -
  have S: "space_ok L (phys s) (cr3 s) (free_pages (pmm s)) d" and L: "symbols_ok L"
    using E by (simp_all add: editing_def paged_def)
  have d: "aligned 12 d" "d \<noteq> sym_base_table L" using S by (simp_all add: space_ok_def)
  let ?i = "drop_bit 22 v"
  have ane: "a \<noteq> sym_base_table L" "a \<noteq> frame (cr3 s)" "a \<noteq> d" using S A(2) by (auto simp: space_ok_def)
  have i0: "?i \<noteq> 0" using np S by (auto simp: space_ok_def)
  have ent: "dent m d j = (if j = ?i then win a else dent (phys s) d j)" if "j < 1024" for j
    using R [of "d + 4 * j"] d that entry_inj [OF d(1) d(1) that tid_less [of v]] slot_not_page(1) [OF L d that, of "sym_table L"]
      frame_add [OF d(1) times4_less [OF that]] ane by auto
  have old: "frame (dent (phys s) d j) \<noteq> a" if "j < 1024" "present (dent (phys s) d j)" for j
    using space_table(1) [OF S that] A(2) by auto
  have "space_ok L m (cr3 s) (free_pages q) d"
    unfolding space_ok_def
  proof (intro conjI allI impI)
    show "frame (dent m d 0) = sym_base_table L" "present (dent m d 0)" using ent [of 0] i0 S by (auto simp: space_ok_def)
    show "page_no d \<notin> free_pages q" "page_no (frame (cr3 s)) \<notin> free_pages q" "page_no (sym_base_table L) \<notin> free_pages q"
      using S A(3) by (auto simp: space_ok_def)
    fix i :: u32 assume i: "i < 1024" "present (dent m d i)"
    have c: "(i = ?i \<and> frame (dent m d i) = a) \<or> (i \<noteq> ?i \<and> dent m d i = dent (phys s) d i \<and> present (dent (phys s) d i))"
      using ent [OF i(1)] i(2) win_frame [OF A(1)] by (cases "i = ?i") auto
    show "page_no (frame (dent m d i)) \<notin> free_pages q"
      using c space_table(1) [OF S i(1)] unfolding A(3) by (metis DiffE singletonI)
    show "frame (dent m d i) \<noteq> d" using c ane(3) space_table(2) [OF S i(1)] by metis
    show "frame (dent m d i) \<noteq> frame (cr3 s)" using c ane(2) space_table(3) [OF S i(1)] by metis
    fix j :: u32 assume j: "j < 1024" "present (dent m d j) \<and> frame (dent m d j) = frame (dent m d i)"
    have "(j = ?i \<and> frame (dent m d j) = a) \<or> (j \<noteq> ?i \<and> dent m d j = dent (phys s) d j \<and> present (dent (phys s) d j))"
      using ent [OF j(1)] j(2) win_frame [OF A(1)] by (cases "j = ?i") auto
    with c j show "j = i" using old [OF i(1)] old [OF j(1)] space_table(4) [OF S i(1) _ j(1)] by metis
  qed (use d in simp_all)
  moreover have "walk m d u = walk (phys s) d u" if w: "\<not> window_page L u" for u
  proof (cases "drop_bit 22 u = ?i")
    case True
    have "frame (pte_addr m d u) = a"
      using ent [of ?i] True tid_less win_frame [OF A(1)] frame_add [OF A(1) times4_less [OF pid_less]]
      by (simp add: pte_addr_def)
    moreover have "pte_addr m d u \<noteq> pde_addr d v" "pte_addr m d u \<noteq> table_slot L"
      using calculation frame_add [OF d(1) times4_less [OF tid_less]] ane
        frame_add [of "sym_base_table L" "4 * (drop_bit 12 (sym_table L) AND 0x3FF)"] L
      by (auto simp: base_slot_def offs_simps times4_less pid_less symbols_ok_def)
    ultimately have "ld32 m (pte_addr m d u) = 0" using R by simp
    then show ?thesis using True np d by (simp add: walk_eq present_def)
  next
    case False
    have pde: "ld32 m (pde_addr d u) = ld32 (phys s) (pde_addr d u)" using ent [OF tid_less] False by simp
    have "ld32 m (pte_addr (phys s) d u) = ld32 (phys s) (pte_addr (phys s) d u)" if p: "present (ld32 (phys s) (pde_addr d u))"
    proof -
      have f: "frame (pte_addr (phys s) d u) = frame (ld32 (phys s) (pde_addr d u))"
        by (simp add: pte_addr_def frame_add times4_less pid_less)
      have "frame (pde_addr d v) = d" by (rule frame_add [OF d(1) times4_less [OF tid_less]])
      with f R [of "pte_addr (phys s) d u"] old [OF tid_less p] space_table(2) [OF S tid_less p]
        pte_addr_not_slot(2) [OF L S w p] show ?thesis by auto
    qed
    from walk_cong [OF d(1) pde this] show ?thesis .
  qed
  ultimately show ?thesis using P W A(4) by (simp add: editing_def)
qed

definition same_walks :: "symbols \<Rightarrow> u32 \<Rightarrow> mstate \<Rightarrow> mstate \<Rightarrow> bool" where
  "same_walks L d s t \<longleftrightarrow> (\<forall>u. \<not> window_page L u \<longrightarrow> walk (phys t) d u = walk (phys s) d u)"

lemma ensure_table_ok:
  assumes E: "editing L d t s"
  shows "ensure_table L (vmm_virt_to_offs v) s = Inl Halted \<and> frames_left s = 0 \<or>
    (\<exists>s' t'. ensure_table L (vmm_virt_to_offs v) s = Inr ((), s') \<and> editing L d t' s' \<and> same_core s s' \<and>
       same_walks L d s s' \<and> present (ld32 (phys s') (pde_addr d v)) \<and>
       frames_left s \<le> Suc (frames_left s'))"
proof (cases "present (ld32 (phys s) (pde_addr d v))")
  case True
  with E ensure_table_present [OF E] show ?thesis by (auto simp: same_walks_def)
next
  case False
  have ok: "pmm_ok (pmm s)" and d: "aligned 12 d" using E by (simp_all add: editing_def space_ok_def)
  from pmm_alloc_page [OF ok] show ?thesis
  proof (elim disjE exE conjE)
    assume "pmm_alloc (pmm s) PAGE_SIZE = Inl Halted" "free_pages (pmm s) \<inter> {..<131071} = {}"
    moreover have "paged L s" "windowed L (phys s) d t" using E by (simp_all add: editing_def)
    note window_access(1) [OF this tid_less [of v]]
    ultimately show ?thesis using False
      by (simp add: ensure_table_def traverse_dir_entry_def offs_simps sbind_Inr sbind_Inl m_pmm_alloc_def Let_def
          frames_left_def)
  next
    fix a q
    assume A: "pmm_alloc (pmm s) PAGE_SIZE = Inr (a, q)" "aligned 12 a" "page_no a \<in> free_pages (pmm s)"
      "free_pages q = free_pages (pmm s) - {page_no a}" "pmm_ok q"
    obtain m where m: "ensure_table L (vmm_virt_to_offs v) s = Inr ((), s\<lparr>pmm := q, phys := m\<rparr>)"
      "paged L (s\<lparr>pmm := q, phys := m\<rparr>)" "windowed L m d (sym_table L)"
      and R: "\<forall>b. word_al b \<longrightarrow> ld32 m b = (if b = pde_addr d v then win a else if b = table_slot L then win (sym_table L)
       else if frame b = a then 0 else ld32 (phys s) b)"
      using ensure_table_new [OF E False A(1-3)] by blast
    have "editing L d (sym_table L) (s\<lparr>pmm := q, phys := m\<rparr>) \<and> (\<forall>u. \<not> window_page L u \<longrightarrow> walk m d u = walk (phys s) d u)"
      by (rule editing_new_table [OF E False A(2-5) m(2,3)]) (use R in blast)
    moreover have "present (ld32 m (pde_addr d v))" using R d by simp
    moreover have "same_core s (s\<lparr>pmm := q, phys := m\<rparr>)" using A(4) by (auto simp: same_core_def)
    moreover have "frames_left s \<le> Suc (frames_left (s\<lparr>pmm := q, phys := m\<rparr>))"
      by (rule frames_left_take) (simp add: A(4))
    ultimately show ?thesis using m(1) by (auto simp: same_walks_def)
  qed
qed

section \<open>Editing one entry\<close>

lemma editing_open_table:
  assumes E: "editing L d t s" and T: "aligned 12 T"
  shows "editing L d T (s\<lparr>phys := st32 (phys s) (table_slot L) (win T)\<rparr>)"
    and "same_walks L d s (s\<lparr>phys := st32 (phys s) (table_slot L) (win T)\<rparr>)"
    and "ld32 (st32 (phys s) (table_slot L) (win T)) (pde_addr d v) = ld32 (phys s) (pde_addr d v)"
proof -
  have P: "paged L s" and W: "windowed L (phys s) d t" and S: "space_ok L (phys s) (cr3 s) (free_pages (pmm s)) d"
    and L: "symbols_ok L" using E by (simp_all add: editing_def paged_def)
  have d: "aligned 12 d" "d \<noteq> sym_base_table L" using S by (simp_all add: space_ok_def)
  show "editing L d T (s\<lparr>phys := st32 (phys s) (table_slot L) (win T)\<rparr>)"
    using E paged_set(2) [OF P] windowed_set(2) [OF L W T] space_set_slot [OF L S] by (simp add: editing_def)
  show "same_walks L d s (s\<lparr>phys := st32 (phys s) (table_slot L) (win T)\<rparr>)"
    using walk_set_slot(1) [OF L S] by (simp add: same_walks_def)
  show "ld32 (st32 (phys s) (table_slot L) (win T)) (pde_addr d v) = ld32 (phys s) (pde_addr d v)"
    using slot_not_page(1) [OF L d tid_less] base_slot_al [OF L] d by (simp add: bytes.rd_wr)
qed

lemma editing_set_pte:
  assumes E: "editing L d t s" and p: "present (ld32 (phys s) (pde_addr d v))" and v: "drop_bit 22 v \<noteq> 0"
  shows "editing L d t (s\<lparr>phys := st32 (phys s) (pte_addr (phys s) d v) x\<rparr>)"
proof -
  have P: "paged L s" and W: "windowed L (phys s) d t" and S: "space_ok L (phys s) (cr3 s) (free_pages (pmm s)) d"
    and L: "symbols_ok L" using E by (simp_all add: editing_def paged_def)
  have d: "aligned 12 d" using S by (simp add: space_ok_def)
  let ?T = "frame (ld32 (phys s) (pde_addr d v))" and ?k = "drop_bit 12 v AND 0x3FF"
  note T = space_table [OF S tid_less p]
  have a: "pte_addr (phys s) d v = ?T + 4 * ?k" by (simp add: pte_addr_def)
  have ne: "base_slot L y \<noteq> ?T + 4 * ?k" for y
    by (rule slot_not_page(1) [OF L frame_aligned T(5) [OF v] pid_less])
  have nc: "?T + 4 * ?k \<noteq> frame (cr3 s)"
    using entry_inj [of ?T "frame (cr3 s)" ?k 0] pid_less T(3) by auto
  have "paged L (s\<lparr>phys := st32 (phys s) (?T + 4 * ?k) x\<rparr>)"
    using nc ne [of "sym_base_table L"] by (intro paged_store [OF P]) auto
  moreover have "windowed L (st32 (phys s) (?T + 4 * ?k) x) d t"
    using W ne [THEN not_sym] base_slot_al [OF L] by (simp add: windowed_def bytes.rd_wr)
  moreover have "space_ok L (st32 (phys s) (?T + 4 * ?k) x) (cr3 s) (free_pages (pmm s)) d"
  proof (rule space_ok_cong [OF S])
    fix i :: u32 assume "i < 1024"
    then have "?T + 4 * ?k \<noteq> d + 4 * i" using entry_inj [of ?T d ?k i] d pid_less T(2) by auto
    then show "dent (st32 (phys s) (?T + 4 * ?k) x) d i = dent (phys s) d i" using d by (simp add: bytes.rd_wr)
  qed simp
  ultimately show ?thesis using E by (simp add: editing_def a)
qed

text \<open>
  The common prefix of the three mapping loops: after it the table of \<open>v\<close> is in its window, the
  entry of \<open>v\<close> can be read and replaced, and no translation has changed.
\<close>

definition at_entry :: "symbols \<Rightarrow> u32 \<Rightarrow> u32 \<Rightarrow> mstate \<Rightarrow> bool" where
  "at_entry L d v s \<longleftrightarrow> (\<exists>t. editing L d t s) \<and>
     (\<exists>e. vld (traverse_table_entry L (vmm_virt_to_offs v)) s = Inr (e, s) \<and> (present e \<longleftrightarrow> walk (phys s) d v \<noteq> None)) \<and>
     (\<forall>x. \<exists>s' t. vst (traverse_table_entry L (vmm_virt_to_offs v)) x s = Inr ((), s') \<and> editing L d t s' \<and> same_core s s' \<and>
        frames_left s' = frames_left s \<and>
        (\<forall>u. walk (phys s') d u = (if frame u = frame v
           then if present x then Some (frame x + (u AND 0xFFF)) else None else walk (phys s) d u)))"

lemma open_entry:
  assumes E1: "editing L d t1 s1" and p1: "present (ld32 (phys s1) (pde_addr d v))" and v: "drop_bit 22 v \<noteq> 0"
  shows "\<exists>s2. sbind (traverse_table L (vmm_virt_to_offs v)) (\<lambda>T. sthen (open_table L T) k) s1 = k s2 \<and>
    same_core s1 s2 \<and> same_walks L d s1 s2 \<and> at_entry L d v s2 \<and> frames_left s2 = frames_left s1"
proof -
  let ?o = "vmm_virt_to_offs v"
  let ?T = "frame (ld32 (phys s1) (pde_addr d v))"
  let ?s2 = "s1\<lparr>phys := st32 (phys s1) (table_slot L) (win ?T)\<rparr>"
  have P1: "paged L s1" and W1: "windowed L (phys s1) d t1" and d: "aligned 12 d"
    using E1 by (simp_all add: editing_def space_ok_def)
  have tt: "traverse_table L ?o s1 = Inr (?T, s1)"
    using window_access(1) [OF P1 W1 tid_less]
    by (simp add: traverse_table_def traverse_dir_entry_def offs_simps sbind_Inr frame_def)
  have ot: "open_table L ?T s1 = Inr ((), ?s2)" by (rule window_ops(2) [OF P1 W1 frame_aligned])
  note o = editing_open_table [OF E1 frame_aligned, of "ld32 (phys s1) (pde_addr d v)"]
  have P2: "paged L ?s2" and W2: "windowed L (phys ?s2) d ?T"
    and S2: "space_ok L (phys ?s2) (cr3 ?s2) (free_pages (pmm ?s2)) d" using o(1) by (simp_all add: editing_def)
  have p2: "present (ld32 (phys ?s2) (pde_addr d v))" using o(3) [of v] p1 by simp
  have pa: "pte_addr (phys ?s2) d v = ?T + 4 * (drop_bit 12 v AND 0x3FF)" using o(3) [of v] by (simp add: pte_addr_def)
  have "vld (traverse_table_entry L ?o) ?s2 = Inr (ld32 (phys ?s2) (pte_addr (phys ?s2) d v), ?s2)"
    using window_access(3) [OF P2 W2 pid_less] by (simp only: traverse_table_entry_def offs_simps pa)
  moreover have "present (ld32 (phys ?s2) (pte_addr (phys ?s2) d v)) \<longleftrightarrow> walk (phys ?s2) d v \<noteq> None"
    using p2 d by (simp add: walk_eq)
  moreover have "\<exists>s' t. vst (traverse_table_entry L ?o) x ?s2 = Inr ((), s') \<and> editing L d t s' \<and> same_core ?s2 s' \<and>
      frames_left s' = frames_left ?s2 \<and>
      (\<forall>u. walk (phys s') d u = (if frame u = frame v
         then if present x then Some (frame x + (u AND 0xFFF)) else None else walk (phys ?s2) d u))" for x
  proof (intro exI conjI)
    let ?s3 = "?s2\<lparr>phys := st32 (phys ?s2) (pte_addr (phys ?s2) d v) x\<rparr>"
    show "vst (traverse_table_entry L ?o) x ?s2 = Inr ((), ?s3)"
      using window_access(4) [OF P2 W2 pid_less] by (simp only: traverse_table_entry_def offs_simps pa)
    show "editing L d ?T ?s3" by (rule editing_set_pte [OF o(1) p2 v])
    show "same_core ?s2 ?s3" by simp
    show "frames_left ?s3 = frames_left ?s2" by (simp only: frames_left_upd)
    show "\<forall>u. walk (phys ?s3) d u = (if frame u = frame v
         then if present x then Some (frame x + (u AND 0xFFF)) else None else walk (phys ?s2) d u)"
      using walk_set_pte [OF S2 p2, of x] by simp
  qed
  ultimately have "at_entry L d v ?s2" unfolding at_entry_def using o(1) by blast
  moreover have "sbind (traverse_table L ?o) (\<lambda>T. sthen (open_table L T) k) s1 = k ?s2"
    using tt ot by (simp add: sthen_Inr sbind_Inr)
  moreover have "same_core s1 ?s2" "frames_left ?s2 = frames_left s1" by simp_all
  ultimately show ?thesis using o(2) by blast
qed

lemma enter_table:
  assumes E: "editing L d t s" and v: "drop_bit 22 v \<noteq> 0"
  shows "sthen (ensure_table L (vmm_virt_to_offs v)) (sbind (traverse_table L (vmm_virt_to_offs v))
        (\<lambda>T. sthen (open_table L T) k)) s = Inl Halted \<and> frames_left s = 0 \<or>
    (\<exists>s'. sthen (ensure_table L (vmm_virt_to_offs v)) (sbind (traverse_table L (vmm_virt_to_offs v))
        (\<lambda>T. sthen (open_table L T) k)) s = k s' \<and> same_core s s' \<and> same_walks L d s s' \<and> at_entry L d v s' \<and>
        frames_left s \<le> Suc (frames_left s'))"
proof -
  let ?o = "vmm_virt_to_offs v"
  from ensure_table_ok [OF E, of v] show ?thesis
  proof (elim disjE exE conjE)
    fix s1 t1
    assume e1: "ensure_table L ?o s = Inr ((), s1)" and E1: "editing L d t1 s1" and c1: "same_core s s1"
      and w1: "same_walks L d s s1" and p1: "present (ld32 (phys s1) (pde_addr d v))"
      and f1: "frames_left s \<le> Suc (frames_left s1)"
    obtain s2 where s2: "sbind (traverse_table L ?o) (\<lambda>T. sthen (open_table L T) k) s1 = k s2" "same_core s1 s2"
      "same_walks L d s1 s2" "at_entry L d v s2" "frames_left s2 = frames_left s1"
      using open_entry [OF E1 p1 v, of k] by blast
    have "same_core s s2" by (rule same_core_trans [OF c1 s2(2)])
    moreover have "same_walks L d s s2" using w1 s2(3) by (simp add: same_walks_def)
    ultimately show ?thesis using s2 e1 f1 by (auto simp: sthen_Inr)
  qed (simp add: sthen_Inl)
qed

section \<open>The mapping loops\<close>

definition in_range :: "u32 \<Rightarrow> nat \<Rightarrow> u32 \<Rightarrow> bool" where
  "in_range v n u \<longleftrightarrow> unat v \<le> unat u \<and> unat u < unat v + 4096 * n"

text \<open>A range of \<open>n\<close> pages above the first 4 MB that does not wrap.\<close>

definition range_ok :: "u32 \<Rightarrow> nat \<Rightarrow> bool" where
  "range_ok v n \<longleftrightarrow> aligned 12 v \<and> (0 < n \<longrightarrow> 0x400000 \<le> unat v \<and> unat v + 4096 * n \<le> 2 ^ 32)"

lemma frame_range:
  assumes "aligned 12 v"
  shows "frame u = v \<longleftrightarrow> unat v \<le> unat u \<and> unat u < unat v + 4096"
proof
  assume f: "frame u = v"
  have u: "u = v + (u AND 0xFFF)" using split_addr [of u] f by simp
  have o: "unat (u AND 0xFFF) < 4096" using off_less [of u] by (simp add: word_less_nat_alt)
  moreover have "4096 dvd unat v" using assms by (simp add: aligned_dvd)
  then obtain k where k: "unat v = 4096 * k" by (rule dvdE)
  then have "4096 * k < 4294967296" using unat_less_2p32 [of v] by (simp only:)
  then have "unat v + 4096 \<le> 2 ^ 32" using k by simp
  ultimately have "unat (v + (u AND 0xFFF)) = unat v + unat (u AND 0xFFF)" by (intro unat_add_small) simp
  with u o show "unat v \<le> unat u \<and> unat u < unat v + 4096" by simp
next
  assume r: "unat v \<le> unat u \<and> unat u < unat v + 4096"
  have "unat (u - v) = unat u - unat v" using r by (simp add: unat_sub word_le_nat_alt)
  then have "unat (u - v) < 4096" using r by linarith
  then have "u - v < 4096" by (simp add: word_less_nat_alt)
  from frame_add [OF assms this] show "frame u = v" by simp
qed

lemma range_step:
  assumes "range_ok v (Suc n)"
  shows "frame v = v" "drop_bit 22 v \<noteq> 0" "range_ok (v + PAGE_SIZE) n"
    and "in_range v (Suc n) u \<longleftrightarrow> frame u = v \<or> in_range (v + PAGE_SIZE) n u"
    and "frame u = v \<Longrightarrow> \<not> in_range (v + PAGE_SIZE) n u"
proof -
  have v: "aligned 12 v" "0x400000 \<le> unat v" "unat v + 4096 * Suc n \<le> 2 ^ 32" using assms by (simp_all add: range_ok_def)
  show "frame v = v" using v(1) by (rule aligned_frame)
  have "unat (drop_bit 22 v) = unat v div 4194304" by (simp add: drop_bit_eq_div unat_div)
  moreover have "0 < unat v div 4194304" using v(2) by (simp add: div_greater_zero_iff)
  ultimately show "drop_bit 22 v \<noteq> 0" by auto
  have nw: "unat (v + PAGE_SIZE) = unat v + 4096" if "0 < n"
    using v(3) that by (subst unat_add_small) auto
  show "range_ok (v + PAGE_SIZE) n"
    using v nw by (auto simp: range_ok_def aligned_add)
  show "in_range v (Suc n) u \<longleftrightarrow> frame u = v \<or> in_range (v + PAGE_SIZE) n u"
    using nw by (cases "n = 0") (auto simp: in_range_def frame_range [OF v(1)])
  show "frame u = v \<Longrightarrow> \<not> in_range (v + PAGE_SIZE) n u"
    using nw by (cases "n = 0") (auto simp: in_range_def frame_range [OF v(1)])
qed

lemma range_not_window:
  assumes "symbols_ok L" "range_ok v n" "in_range v n u"
  shows "\<not> window_page L u"
proof
  assume "window_page L u"
  then obtain x where x: "aligned 12 x" "x < 0x400000" "frame u = x"
    using assms(1) by (auto simp: window_page_def symbols_ok_def)
  then have "unat x + 4096 \<le> 0x400000" by (auto simp: aligned_dvd word_less_nat_alt elim!: dvdE)
  moreover have "unat u < unat x + 4096" using frame_range [OF x(1)] x(3) by simp
  moreover have "0x400000 \<le> unat u" using assms(2,3) by (cases "n = 0") (auto simp: range_ok_def in_range_def)
  ultimately show False by simp
qed

lemma range_value:
  assumes "frame u = v" shows "u AND 0xFFF = u - v"
  using split_addr [of u] assms by (metis add_diff_cancel_left')

lemma perms_or:
  assumes "aligned 12 p" "perms < 4096" "bit perms 0"
  shows "frame (p OR perms) = p" "present (p OR perms)"
  using assms by (simp_all add: aligned_or frame_add) (simp add: aligned_or [symmetric] present_def bit_or_iff)

text \<open>What \<open>n\<close> pages mapped from \<open>v\<close> to \<open>p\<close> make of a translation.\<close>

definition mapped :: "u32 \<Rightarrow> nat \<Rightarrow> u32 \<Rightarrow> (u32 \<Rightarrow> u32 option) \<Rightarrow> u32 \<Rightarrow> u32 option" where
  "mapped v n p w u = (if in_range v n u then Some (p + (u - v)) else w u)"

definition unmapped :: "u32 \<Rightarrow> nat \<Rightarrow> (u32 \<Rightarrow> u32 option) \<Rightarrow> u32 \<Rightarrow> u32 option" where
  "unmapped v n w u = (if in_range v n u then None else w u)"

lemma mapped_step:
  assumes "range_ok v (Suc n)"
    and "w' u = (if frame u = v then Some (p + (u AND 0xFFF)) else w u)"
  shows "mapped (v + PAGE_SIZE) n (p + PAGE_SIZE) w' u = mapped v (Suc n) p w u"
  using range_step(4,5) [OF assms(1), of u] range_value [of u v] assms(2) by (auto simp: mapped_def)

lemma map_loop_ok:
  assumes "editing L d t s" "range_ok v n" "aligned 12 p" "perms < 4096" "bit perms 0"
    and "\<forall>u. in_range v n u \<longrightarrow> walk (phys s) d u = None"
  shows "map_loop L perms n v p r s = Inl Halted \<and> frames_left s < n \<or>
    (\<exists>s' t'. map_loop L perms n v p r s = Inr (r, s') \<and> editing L d t' s' \<and> same_core s s' \<and>
       (\<forall>u. \<not> window_page L u \<longrightarrow> walk (phys s') d u = mapped v n p (walk (phys s) d) u))"
  using assms
proof (induction n arbitrary: v p s t)
  case 0
  then show ?case by (auto simp: mapped_def in_range_def)
next
  case (Suc n)
  note st = range_step [OF Suc.prems(2)]
  have L: "symbols_ok L" using Suc.prems(1) by (simp add: editing_def paged_def)
  let ?o = "vmm_virt_to_offs v"
  let ?k = "sbind (vld (traverse_table_entry L ?o)) (\<lambda>e.
         if \<not> present e then
           sthen (vst (traverse_table_entry L ?o) (p OR perms))
          (sthen (vmm_invlpg v) (map_loop L perms n (v + PAGE_SIZE) (p + PAGE_SIZE) r))
         else map_loop L perms n v p True)"
  have run: "map_loop L perms (Suc n) v p r =
      sthen (ensure_table L ?o) (sbind (traverse_table L ?o) (\<lambda>T. sthen (open_table L T) ?k))"
    by (simp add: Let_def)
  from enter_table [OF Suc.prems(1) st(2), of ?k, folded run] show ?case
  proof (elim disjE exE conjE)
    fix s1
    assume m1: "map_loop L perms (Suc n) v p r s = ?k s1" and c1: "same_core s s1" and w1: "same_walks L d s s1"
      and a1: "at_entry L d v s1" and f1: "frames_left s \<le> Suc (frames_left s1)"
    have vr: "in_range v (Suc n) v" using st(1,4) by simp
    then have "walk (phys s1) d v = None"
      using Suc.prems(6) w1 range_not_window [OF L Suc.prems(2)] by (simp add: same_walks_def)
    then obtain e where e: "vld (traverse_table_entry L ?o) s1 = Inr (e, s1)" "\<not> present e"
      using a1 unfolding at_entry_def by blast
    obtain s2 t2 where s2: "vst (traverse_table_entry L ?o) (p OR perms) s1 = Inr ((), s2)" "editing L d t2 s2"
      "same_core s1 s2" "frames_left s2 = frames_left s1" and w2: "\<forall>u. walk (phys s2) d u = (if frame u = frame v
           then if present (p OR perms) then Some (frame (p OR perms) + (u AND 0xFFF)) else None else walk (phys s1) d u)"
      using a1 unfolding at_entry_def by blast
    have w2': "walk (phys s2) d u = (if frame u = v then Some (p + (u AND 0xFFF)) else walk (phys s) d u)"
      if "\<not> window_page L u" for u
      using w2 w1 that st(1) perms_or [OF Suc.prems(3-5)] by (simp add: same_walks_def)
    have next_run: "map_loop L perms (Suc n) v p r s = map_loop L perms n (v + PAGE_SIZE) (p + PAGE_SIZE) r s2"
      using m1 e s2(1) by (simp add: sbind_Inr sthen_Inr vmm_invlpg_def)
    have "\<forall>u. in_range (v + PAGE_SIZE) n u \<longrightarrow> walk (phys s2) d u = None"
      using w2' range_not_window [OF L Suc.prems(2)] st(4,5) Suc.prems(6) by auto
    moreover have "aligned 12 (p + PAGE_SIZE)" using Suc.prems(3) by (simp add: aligned_add)
    ultimately have "map_loop L perms (Suc n) v p r s = Inl Halted \<and> frames_left s2 < n \<or>
      (\<exists>s' t'. map_loop L perms (Suc n) v p r s = Inr (r, s') \<and> editing L d t' s' \<and> same_core s2 s' \<and>
       (\<forall>u. \<not> window_page L u \<longrightarrow> walk (phys s') d u = mapped (v + PAGE_SIZE) n (p + PAGE_SIZE) (walk (phys s2) d) u))"
      unfolding next_run using Suc.IH [OF s2(2) st(3), of "p + PAGE_SIZE"] Suc.prems(4,5) by blast
    moreover have "mapped (v + PAGE_SIZE) n (p + PAGE_SIZE) (walk (phys s2) d) u = mapped v (Suc n) p (walk (phys s) d) u"
      if "\<not> window_page L u" for u
      by (rule mapped_step [OF Suc.prems(2)]) (rule w2' [OF that])
    moreover have "same_core s s'" if "same_core s2 s'" for s'
      by (rule same_core_trans [OF c1 same_core_trans [OF s2(3) that]])
    moreover have "frames_left s < Suc n" if "frames_left s2 < n" using f1 s2(4) that by simp
    ultimately show ?case by metis
  qed simp
qed

lemma remap_loop_ok:
  assumes "editing L d t s" "range_ok v n" "aligned 12 p" "perms < 4096" "bit perms 0"
  shows "remap_loop L perms n v p s = Inl Halted \<and> frames_left s < n \<or>
    (\<exists>s' t'. remap_loop L perms n v p s = Inr ((), s') \<and> editing L d t' s' \<and> same_core s s' \<and>
       (\<forall>u. \<not> window_page L u \<longrightarrow> walk (phys s') d u = mapped v n p (walk (phys s) d) u))"
  using assms
proof (induction n arbitrary: v p s t)
  case 0
  then show ?case by (auto simp: mapped_def in_range_def)
next
  case (Suc n)
  note st = range_step [OF Suc.prems(2)]
  let ?o = "vmm_virt_to_offs v"
  let ?k = "sthen (vst (traverse_table_entry L ?o) (p OR perms))
      (sthen (vmm_invlpg v) (remap_loop L perms n (v + PAGE_SIZE) (p + PAGE_SIZE)))"
  have run: "remap_loop L perms (Suc n) v p =
      sthen (ensure_table L ?o) (sbind (traverse_table L ?o) (\<lambda>T. sthen (open_table L T) ?k))"
    by (simp add: Let_def)
  from enter_table [OF Suc.prems(1) st(2), of ?k, folded run] show ?case
  proof (elim disjE exE conjE)
    fix s1
    assume m1: "remap_loop L perms (Suc n) v p s = ?k s1" and c1: "same_core s s1" and w1: "same_walks L d s s1"
      and a1: "at_entry L d v s1" and f1: "frames_left s \<le> Suc (frames_left s1)"
    obtain s2 t2 where s2: "vst (traverse_table_entry L ?o) (p OR perms) s1 = Inr ((), s2)" "editing L d t2 s2"
      "same_core s1 s2" "frames_left s2 = frames_left s1" and w2: "\<forall>u. walk (phys s2) d u = (if frame u = frame v
           then if present (p OR perms) then Some (frame (p OR perms) + (u AND 0xFFF)) else None else walk (phys s1) d u)"
      using a1 unfolding at_entry_def by blast
    have w2': "walk (phys s2) d u = (if frame u = v then Some (p + (u AND 0xFFF)) else walk (phys s) d u)"
      if "\<not> window_page L u" for u
      using w2 w1 that st(1) perms_or [OF Suc.prems(3-5)] by (simp add: same_walks_def)
    have next_run: "remap_loop L perms (Suc n) v p s = remap_loop L perms n (v + PAGE_SIZE) (p + PAGE_SIZE) s2"
      using m1 s2(1) by (simp add: sbind_Inr sthen_Inr vmm_invlpg_def)
    have "aligned 12 (p + PAGE_SIZE)" using Suc.prems(3) by (simp add: aligned_add)
    then have "remap_loop L perms (Suc n) v p s = Inl Halted \<and> frames_left s2 < n \<or>
      (\<exists>s' t'. remap_loop L perms (Suc n) v p s = Inr ((), s') \<and> editing L d t' s' \<and> same_core s2 s' \<and>
       (\<forall>u. \<not> window_page L u \<longrightarrow> walk (phys s') d u = mapped (v + PAGE_SIZE) n (p + PAGE_SIZE) (walk (phys s2) d) u))"
      unfolding next_run using Suc.IH [OF s2(2) st(3), of "p + PAGE_SIZE"] Suc.prems(4,5) by blast
    moreover have "mapped (v + PAGE_SIZE) n (p + PAGE_SIZE) (walk (phys s2) d) u = mapped v (Suc n) p (walk (phys s) d) u"
      if "\<not> window_page L u" for u
      by (rule mapped_step [OF Suc.prems(2)]) (rule w2' [OF that])
    moreover have "same_core s s'" if "same_core s2 s'" for s'
      by (rule same_core_trans [OF c1 same_core_trans [OF s2(3) that]])
    moreover have "frames_left s < Suc n" if "frames_left s2 < n" using f1 s2(4) that by simp
    ultimately show ?case by metis
  qed simp
qed

lemma unmap_loop_ok:
  assumes "editing L d t s" "range_ok v n"
  shows "unmap_loop L n v r s = Inl Halted \<and> frames_left s < n \<or>
    (\<exists>s' t' r'. unmap_loop L n v r s = Inr (r', s') \<and> editing L d t' s' \<and> same_core s s' \<and>
       (\<forall>u. \<not> window_page L u \<longrightarrow> walk (phys s') d u = unmapped v n (walk (phys s) d) u))"
  using assms
proof (induction n arbitrary: v s t r)
  case 0
  then show ?case by (auto simp: unmapped_def in_range_def)
next
  case (Suc n)
  note st = range_step [OF Suc.prems(2)]
  have L: "symbols_ok L" using Suc.prems(1) by (simp add: editing_def paged_def)
  let ?o = "vmm_virt_to_offs v"
  let ?k = "sbind (vld (traverse_table_entry L ?o)) (\<lambda>e.
         sbind (if present e then sthen (vst (traverse_table_entry L ?o) 0) (sret r) else sret True) (\<lambda>r.
         sthen (vmm_invlpg v) (unmap_loop L n (v + PAGE_SIZE) r)))"
  have run: "unmap_loop L (Suc n) v r =
      sthen (ensure_table L ?o) (sbind (traverse_table L ?o) (\<lambda>T. sthen (open_table L T) ?k))"
    by (simp add: Let_def)
  from enter_table [OF Suc.prems(1) st(2), of ?k, folded run] show ?case
  proof (elim disjE exE conjE)
    fix s1
    assume m1: "unmap_loop L (Suc n) v r s = ?k s1" and c1: "same_core s s1" and w1: "same_walks L d s s1"
      and a1: "at_entry L d v s1" and f1: "frames_left s \<le> Suc (frames_left s1)"
    obtain e where e: "vld (traverse_table_entry L ?o) s1 = Inr (e, s1)" "present e \<longleftrightarrow> walk (phys s1) d v \<noteq> None"
      using a1 unfolding at_entry_def by blast
    obtain s2 t2 r2 where nx: "unmap_loop L (Suc n) v r s = unmap_loop L n (v + PAGE_SIZE) r2 s2"
      and E2: "editing L d t2 s2" "same_core s1 s2" "frames_left s2 = frames_left s1"
      and w2: "\<forall>u. walk (phys s2) d u = (if frame u = v then None else walk (phys s1) d u)"
    proof (cases "present e")
      case True
      obtain s2 t2 where s2: "vst (traverse_table_entry L ?o) 0 s1 = Inr ((), s2)" "editing L d t2 s2" "same_core s1 s2"
        "frames_left s2 = frames_left s1" "\<forall>u. walk (phys s2) d u = (if frame u = frame v
           then if present 0 then Some (frame 0 + (u AND 0xFFF)) else None else walk (phys s1) d u)"
        using a1 unfolding at_entry_def by blast
      with that [of r s2 t2] m1 e(1) True st(1) show ?thesis by (simp add: sbind_Inr sthen_Inr vmm_invlpg_def present_def)
    next
      case False
      obtain t1 where E1: "editing L d t1 s1" using a1 unfolding at_entry_def by blast
      then have d: "aligned 12 d" by (simp add: editing_def space_ok_def)
      have "walk (phys s1) d u = None" if "frame u = v" for u
      proof -
        have "frame u = frame v" using that st(1) by simp
        then have "pde_addr d u = pde_addr d v" "pte_addr (phys s1) d u = pte_addr (phys s1) d v"
          by (simp_all add: frame_eq_iff pte_addr_def)
        with False e(2) d show ?thesis by (simp add: walk_eq split: if_splits)
      qed
      with that [of True s1 t1] m1 e(1) False E1 show ?thesis by (simp add: sbind_Inr sthen_Inr vmm_invlpg_def)
    qed
    have "unmapped (v + PAGE_SIZE) n (walk (phys s2) d) u = unmapped v (Suc n) (walk (phys s) d) u"
      if "\<not> window_page L u" for u
      using st(4,5) [of u] w2 w1 that by (auto simp: unmapped_def same_walks_def)
    moreover have "same_core s s'" if "same_core s2 s'" for s'
      by (rule same_core_trans [OF c1 same_core_trans [OF E2(2) that]])
    moreover have "frames_left s < Suc n" if "frames_left s2 < n" using f1 E2(3) that by simp
    ultimately show ?case using Suc.IH [OF E2(1) st(3), of r2, folded nx] by metis
  qed simp
qed

text \<open>
  When the page at \<open>cur_virt\<close> is already mapped, \<open>map_loop\<close> stays on it: the remaining
  iterations change no translation.
\<close>

lemma map_loop_stuck:
  assumes "editing L d t s" "drop_bit 22 v \<noteq> 0" "\<not> window_page L v" "walk (phys s) d v \<noteq> None"
  shows "\<exists>s' t'. map_loop L perms n v p r s = Inr (r \<or> 0 < n, s') \<and> editing L d t' s' \<and> same_core s s' \<and> same_walks L d s s'"
  using assms
proof (induction n arbitrary: s t r)
  case 0
  then show ?case by (auto simp: same_walks_def)
next
  case (Suc n)
  let ?o = "vmm_virt_to_offs v"
  let ?k = "sbind (vld (traverse_table_entry L ?o)) (\<lambda>e.
         if \<not> present e then
           sthen (vst (traverse_table_entry L ?o) (p OR perms))
          (sthen (vmm_invlpg v) (map_loop L perms n (v + PAGE_SIZE) (p + PAGE_SIZE) r))
         else map_loop L perms n v p True)"
  have d: "aligned 12 d" using Suc.prems(1) by (simp add: editing_def space_ok_def)
  then have p: "present (ld32 (phys s) (pde_addr d v))" using Suc.prems(4) by (auto simp: walk_eq split: if_splits)
  obtain s1 where s1: "map_loop L perms (Suc n) v p r s = ?k s1" "same_core s s1" "same_walks L d s s1" "at_entry L d v s1"
    using open_entry [OF Suc.prems(1) p Suc.prems(2), of ?k] ensure_table_present [OF Suc.prems(1) p]
    by (auto simp: Let_def sthen_Inr)
  have w: "walk (phys s1) d v \<noteq> None" using s1(3) Suc.prems(3,4) by (simp add: same_walks_def)
  then obtain e t1 where e: "vld (traverse_table_entry L ?o) s1 = Inr (e, s1)" "present e" and E1: "editing L d t1 s1"
    using s1(4) unfolding at_entry_def by blast
  obtain s2 t2 where s2: "map_loop L perms n v p True s1 = Inr (True, s2)" "editing L d t2 s2" "same_core s1 s2" "same_walks L d s1 s2"
    using Suc.IH [OF E1 Suc.prems(2,3) w, of True] by auto
  have "map_loop L perms (Suc n) v p r s = Inr (True, s2)" using s1(1) e s2(1) by (simp add: sbind_Inr)
  moreover have "same_walks L d s s2" using s1(3) s2(4) by (simp add: same_walks_def)
  ultimately show ?case using s2(2) same_core_trans [OF s1(2) s2(3)] by auto
qed

section \<open>The operations on a directory\<close>

definition vm_ok :: "symbols \<Rightarrow> u32 \<Rightarrow> mstate \<Rightarrow> bool" where
  "vm_ok L d s \<longleftrightarrow> paged L s \<and> closed L (phys s) \<and>
     space_ok L (phys s) (cr3 s) (free_pages (pmm s)) d \<and> pmm_ok (pmm s)"

lemma walk_window:
  assumes "vm_ok L d s" "window_page L u"
  shows "walk (phys s) d u = Some u"
proof -
  obtain x where x: "frame u = x" "aligned 12 x" "x < 0x400000" "ld32 (phys s) (base_slot L x) = win x"
    using assms by (auto simp: window_page_def vm_ok_def windowed_def paged_def symbols_ok_def)
  have d: "aligned 12 d" "present (dent (phys s) d 0)" "frame (dent (phys s) d 0) = sym_base_table L"
    using assms by (simp_all add: vm_ok_def space_ok_def)
  have "frame u = frame x" using x by (simp add: aligned_frame)
  then have "drop_bit 22 u = 0" "drop_bit 12 u AND 0x3FF = drop_bit 12 x AND 0x3FF"
    using low_tid [OF x(3)] by (simp_all add: frame_eq_iff)
  then have "pte_addr (phys s) d u = base_slot L x" "pde_addr d u = d"
    using d by (simp_all add: pte_addr_def base_slot_def offs_simps)
  with d x show ?thesis using split_addr [of u] by (simp add: walk_eq win_frame)
qed

lemma edit_session:
  assumes V: "vm_ok L d s"
    and K: "\<And>s1. editing L d (sym_table L) s1 \<Longrightarrow> same_walks L d s s1 \<Longrightarrow> k s1 = Inl Halted \<and> frames_left s1 < n \<or>
       (\<exists>s2 t r. k s1 = Inr (r, s2) \<and> P r \<and> editing L d t s2 \<and> same_core s1 s2 \<and>
         (\<forall>u. \<not> window_page L u \<longrightarrow> walk (phys s2) d u = f (walk (phys s1) d) u))"
    and F: "\<And>w w' u. w u = w' u \<Longrightarrow> f w u = f w' u" "\<And>w u. window_page L u \<Longrightarrow> f w u = w u"
  shows "sthen (open_dir L d) (sbind k (\<lambda>r. sthen (close_table L) (sthen (close_dir L) (sret (g r))))) s = Inl Halted \<and> frames_left s < n \<or>
    (\<exists>s' r. sthen (open_dir L d) (sbind k (\<lambda>r. sthen (close_table L) (sthen (close_dir L) (sret (g r))))) s = Inr (g r, s') \<and>
       P r \<and> vm_ok L d s' \<and> same_core s s' \<and> walk (phys s') d = f (walk (phys s) d))"
proof -
  have P: "paged L s" and C: "closed L (phys s)" and S: "space_ok L (phys s) (cr3 s) (free_pages (pmm s)) d"
    and L: "symbols_ok L" using V by (simp_all add: vm_ok_def paged_def)
  have d: "aligned 12 d" using S by (simp add: space_ok_def)
  let ?s1 = "s\<lparr>phys := st32 (phys s) (dir_slot L) (win d)\<rparr>"
  have o: "open_dir L d s = Inr ((), ?s1)" by (rule window_ops(1) [OF P C d])
  have E1: "editing L d (sym_table L) ?s1"
    using V paged_set(1) [OF P] windowed_set(1) [OF L C d] space_set_slot [OF L S] by (simp add: editing_def vm_ok_def)
  have w1: "same_walks L d s ?s1" using walk_set_slot(2) [OF L S] by (simp add: same_walks_def)
  from K [OF E1 w1] show ?thesis
  proof (elim disjE exE conjE)
    fix s2 t r
    assume k: "k ?s1 = Inr (r, s2)" "P r" and E2: "editing L d t s2" and c2: "same_core ?s1 s2"
      and w2: "\<forall>u. \<not> window_page L u \<longrightarrow> walk (phys s2) d u = f (walk (phys ?s1) d) u"
    have P2: "paged L s2" and W2: "windowed L (phys s2) d t"
      and S2: "space_ok L (phys s2) (cr3 s2) (free_pages (pmm s2)) d" and p2: "pmm_ok (pmm s2)"
      using E2 by (simp_all add: editing_def)
    define m3 where "m3 = st32 (phys s2) (table_slot L) (win (sym_table L))"
    define m4 where "m4 = st32 m3 (dir_slot L) (win (sym_dir L))"
    have al: "aligned 12 (sym_table L)" "aligned 12 (sym_dir L)" using L by (simp_all add: symbols_ok_def)
    have P3: "paged L (s2\<lparr>phys := m3\<rparr>)" unfolding m3_def by (rule paged_set(2) [OF P2])
    have P4: "paged L (s2\<lparr>phys := m4\<rparr>)" using paged_set(1) [OF P3] by (simp add: m4_def)
    have W4: "closed L m4"
      unfolding m4_def m3_def by (rule windowed_set(1) [OF L windowed_set(2) [OF L W2 al(1)] al(2)])
    have S3: "space_ok L m3 (cr3 s2) (free_pages (pmm s2)) d" unfolding m3_def by (rule space_set_slot [OF L S2])
    have S4: "space_ok L m4 (cr3 s2) (free_pages (pmm s2)) d" unfolding m4_def by (rule space_set_slot [OF L S3])
    have V4: "vm_ok L d (s2\<lparr>phys := m4\<rparr>)" using P4 W4 S4 p2 by (simp add: vm_ok_def)
    have "walk m4 d u = f (walk (phys s) d) u" for u
    proof (cases "window_page L u")
      case True
      with walk_window [OF V4] walk_window [OF V] F(2) show ?thesis by simp
    next
      case False
      have "walk m4 d u = walk (phys s2) d u"
        using walk_set_slot(2) [OF L S3 False] walk_set_slot(1) [OF L S2 False] by (simp add: m4_def m3_def)
      also have "\<dots> = f (walk (phys ?s1) d) u" using w2 False by blast
      also have "\<dots> = f (walk (phys s) d) u"
        by (rule F(1)) (use w1 False in \<open>unfold same_walks_def, blast\<close>)
      finally show ?thesis .
    qed
    then have w4: "walk (phys (s2\<lparr>phys := m4\<rparr>)) d = f (walk (phys s) d)" by (simp add: fun_eq_iff)
    have "sbind k (\<lambda>r. sthen (close_table L) (sthen (close_dir L) (sret (g r)))) ?s1 = Inr (g r, s2\<lparr>phys := m4\<rparr>)"
      using k close_both [OF P2 W2] by (simp add: sbind_Inr m4_def m3_def)
    then have run: "sthen (open_dir L d) (sbind k (\<lambda>r. sthen (close_table L) (sthen (close_dir L) (sret (g r))))) s =
        Inr (g r, s2\<lparr>phys := m4\<rparr>)" using o by (simp add: sthen_Inr)
    have c4: "same_core s (s2\<lparr>phys := m4\<rparr>)" using c2 by simp
    show ?thesis by (intro disjI2 exI conjI) (fact run k(2) V4 c4 w4)+
  qed (use o in \<open>simp add: sthen_Inr sbind_Inl\<close>)
qed

lemma mapped_window:
  assumes "vm_ok L d s" "range_ok v n" "window_page L u"
  shows "mapped v n p w u = w u" "unmapped v n w u = w u"
  using assms range_not_window [of L v n u] by (auto simp: mapped_def unmapped_def vm_ok_def paged_def)

lemma mask_frame: "v AND VMM_4K_PERM_MASK = frame v"
proof -
  have "VMM_4K_PERM_MASK = NOT (mask 12)" by (simp add: VMM_4K_PERM_MASK_def mask_eq_exp_minus_1)
  then show ?thesis by (simp add: frame_eq)
qed

lemma ucast_perms:
  fixes perms :: u16
  assumes "perms < 0x1000" "bit perms 0"
  shows "(ucast perms :: u32) < 4096" "bit (ucast perms :: u32) 0"
  using assms order.strict_trans1 [OF take_bit_nat_less_eq_self, of "unat perms" 4096 32]
  by (simp_all add: word_less_nat_alt bit_simps unsigned_ucast_eq)

lemma vmm_map_pages_mapped:
  assumes V: "vm_ok L d s" and R: "range_ok (frame v) (unat n)" and Q: "perms < 0x1000" "bit perms 0"
    and U: "\<forall>u. in_range (frame v) (unat n) u \<longrightarrow> walk (phys s) d u = None"
  shows "vmm_map_pages L p v d n perms s = Inl Halted \<and> frames_left s < unat n \<or>
    (\<exists>s'. vmm_map_pages L p v d n perms s = Inr (False, s') \<and> vm_ok L d s' \<and> same_core s s' \<and>
       walk (phys s') d = mapped (frame v) (unat n) (frame p) (walk (phys s) d))"
proof -
  have L: "symbols_ok L" using V by (simp add: vm_ok_def paged_def)
  have un: "\<forall>u. in_range (frame v) (unat n) u \<longrightarrow> walk (phys s1) d u = None" if "same_walks L d s s1" for s1
    using that U range_not_window [OF L R] by (simp add: same_walks_def)
  note loop = map_loop_ok [OF _ R frame_aligned ucast_perms [OF Q], of L d _ _ p False]
  have "sthen (open_dir L d) (sbind (map_loop L (ucast perms) (unat n) (frame v) (frame p) False)
        (\<lambda>r. sthen (close_table L) (sthen (close_dir L) (sret r)))) s = Inl Halted \<and> frames_left s < unat n \<or>
    (\<exists>s' r. sthen (open_dir L d) (sbind (map_loop L (ucast perms) (unat n) (frame v) (frame p) False)
        (\<lambda>r. sthen (close_table L) (sthen (close_dir L) (sret r)))) s = Inr (r, s') \<and> r = False \<and> vm_ok L d s' \<and> same_core s s' \<and>
       walk (phys s') d = mapped (frame v) (unat n) (frame p) (walk (phys s) d))"
  proof (rule edit_session [OF V])
    fix s1 assume "editing L d (sym_table L) s1" "same_walks L d s s1"
    from loop [OF this(1) un [OF this(2)]]
    show "map_loop L (ucast perms) (unat n) (frame v) (frame p) False s1 = Inl Halted \<and> frames_left s1 < unat n \<or>
      (\<exists>s2 t r. map_loop L (ucast perms) (unat n) (frame v) (frame p) False s1 = Inr (r, s2) \<and> r = False \<and>
        editing L d t s2 \<and> same_core s1 s2 \<and>
        (\<forall>u. \<not> window_page L u \<longrightarrow> walk (phys s2) d u = mapped (frame v) (unat n) (frame p) (walk (phys s1) d) u))"
      by blast
  qed (use mapped_window [OF V R] in \<open>simp_all add: mapped_def\<close>)
  then show ?thesis unfolding vmm_map_pages_def mask_frame by blast
qed

lemma vmm_remap_pages_mapped:
  assumes V: "vm_ok L d s" and R: "range_ok (frame v) (unat n)" and Q: "perms < 0x1000" "bit perms 0"
  shows "vmm_remap_pages L p v d n perms s = Inl Halted \<and> frames_left s < unat n \<or>
    (\<exists>s'. vmm_remap_pages L p v d n perms s = Inr (False, s') \<and> vm_ok L d s' \<and> same_core s s' \<and>
       walk (phys s') d = mapped (frame v) (unat n) (frame p) (walk (phys s) d))"
proof -
  note loop = remap_loop_ok [OF _ R frame_aligned ucast_perms [OF Q], of L d _ _ p]
  have "sthen (open_dir L d) (sbind (remap_loop L (ucast perms) (unat n) (frame v) (frame p))
        (\<lambda>r. sthen (close_table L) (sthen (close_dir L) (sret False)))) s = Inl Halted \<and> frames_left s < unat n \<or>
    (\<exists>s' (r :: unit). sthen (open_dir L d) (sbind (remap_loop L (ucast perms) (unat n) (frame v) (frame p))
        (\<lambda>r. sthen (close_table L) (sthen (close_dir L) (sret False)))) s = Inr (False, s') \<and> True \<and> vm_ok L d s' \<and> same_core s s' \<and>
       walk (phys s') d = mapped (frame v) (unat n) (frame p) (walk (phys s) d))"
  proof (rule edit_session [OF V])
    fix s1 assume "editing L d (sym_table L) s1" "same_walks L d s s1"
    from loop [OF this(1)]
    show "remap_loop L (ucast perms) (unat n) (frame v) (frame p) s1 = Inl Halted \<and> frames_left s1 < unat n \<or>
      (\<exists>s2 t r. remap_loop L (ucast perms) (unat n) (frame v) (frame p) s1 = Inr (r, s2) \<and> True \<and>
        editing L d t s2 \<and> same_core s1 s2 \<and>
        (\<forall>u. \<not> window_page L u \<longrightarrow> walk (phys s2) d u = mapped (frame v) (unat n) (frame p) (walk (phys s1) d) u))"
      by blast
  qed (use mapped_window [OF V R] in \<open>simp_all add: mapped_def\<close>)
  then show ?thesis unfolding vmm_remap_pages_def mask_frame sthen_def [of "remap_loop _ _ _ _ _"] by blast
qed

lemma vmm_unmap_pages_unmapped:
  assumes V: "vm_ok L d s" and R: "range_ok (frame v) (unat n)"
  shows "vmm_unmap_pages L v d n s = Inl Halted \<and> frames_left s < unat n \<or>
    (\<exists>r s'. vmm_unmap_pages L v d n s = Inr (r, s') \<and> vm_ok L d s' \<and> same_core s s' \<and>
       walk (phys s') d = unmapped (frame v) (unat n) (walk (phys s) d))"
proof -
  note loop = unmap_loop_ok [OF _ R, of L d _ _ False]
  have "sthen (open_dir L d) (sbind (unmap_loop L (unat n) (frame v) False)
        (\<lambda>r. sthen (close_table L) (sthen (close_dir L) (sret r)))) s = Inl Halted \<and> frames_left s < unat n \<or>
    (\<exists>s' r. sthen (open_dir L d) (sbind (unmap_loop L (unat n) (frame v) False)
        (\<lambda>r. sthen (close_table L) (sthen (close_dir L) (sret r)))) s = Inr (r, s') \<and> True \<and> vm_ok L d s' \<and> same_core s s' \<and>
       walk (phys s') d = unmapped (frame v) (unat n) (walk (phys s) d))"
  proof (rule edit_session [OF V])
    fix s1 assume "editing L d (sym_table L) s1" "same_walks L d s s1"
    from loop [OF this(1)]
    show "unmap_loop L (unat n) (frame v) False s1 = Inl Halted \<and> frames_left s1 < unat n \<or>
      (\<exists>s2 t r. unmap_loop L (unat n) (frame v) False s1 = Inr (r, s2) \<and> True \<and>
        editing L d t s2 \<and> same_core s1 s2 \<and>
        (\<forall>u. \<not> window_page L u \<longrightarrow> walk (phys s2) d u = unmapped (frame v) (unat n) (walk (phys s1) d) u))"
      by blast
  qed (use mapped_window [OF V R] in \<open>simp_all add: unmapped_def\<close>)
  then show ?thesis unfolding vmm_unmap_pages_def mask_frame by blast
qed

lemma vmm_map_pages_first_mapped:
  assumes V: "vm_ok L d s" and v: "0x400000 \<le> unat v" and W: "walk (phys s) d (frame v) \<noteq> None" and n: "n \<noteq> 0"
  shows "\<exists>s'. vmm_map_pages L p v d n perms s = Inr (True, s') \<and> vm_ok L d s' \<and> walk (phys s') d = walk (phys s) d"
proof -
  have L: "symbols_ok L" using V by (simp add: vm_ok_def paged_def)
  have f: "frame v \<le> v" "unat v < unat (frame v) + 4096"
    using frame_range [OF frame_aligned, of v v] by (simp_all add: word_le_nat_alt)
  have dv: "4096 dvd unat (frame v)" using frame_aligned [of v] by (simp add: aligned_dvd)
  have "0x400000 \<le> unat (frame v)" using dv f(2) v by (elim dvdE) simp
  moreover have "unat (frame v) + 4096 \<le> 2 ^ 32" using dv unat_less_2p32 [of "frame v"] by (elim dvdE) (simp del: unat_less_2p32)
  ultimately have R: "range_ok (frame v) (Suc 0)" by (simp add: range_ok_def)
  note st = range_step [OF R]
  have nw: "\<not> window_page L (frame v)" by (rule range_not_window [OF L R]) (simp add: in_range_def)
  have "0 < unat n" using n by (simp add: unat_gt_0)
  have "sthen (open_dir L d) (sbind (map_loop L (ucast perms) (unat n) (frame v) (frame p) False)
        (\<lambda>r. sthen (close_table L) (sthen (close_dir L) (sret r)))) s = Inl Halted \<and> frames_left s < 0 \<or>
    (\<exists>s' r. sthen (open_dir L d) (sbind (map_loop L (ucast perms) (unat n) (frame v) (frame p) False)
        (\<lambda>r. sthen (close_table L) (sthen (close_dir L) (sret r)))) s = Inr (r, s') \<and> r = True \<and> vm_ok L d s' \<and> same_core s s' \<and>
       walk (phys s') d = walk (phys s) d)"
  proof (rule edit_session [OF V])
    fix s1 assume E: "editing L d (sym_table L) s1" "same_walks L d s s1"
    have "walk (phys s1) d (frame v) \<noteq> None" using E(2) W nw by (simp add: same_walks_def)
    from map_loop_stuck [OF E(1) st(2) nw this, of "ucast perms" "unat n" "frame p" False]
    show "map_loop L (ucast perms) (unat n) (frame v) (frame p) False s1 = Inl Halted \<and> frames_left s1 < 0 \<or>
      (\<exists>s2 t r. map_loop L (ucast perms) (unat n) (frame v) (frame p) False s1 = Inr (r, s2) \<and> r = True \<and>
        editing L d t s2 \<and> same_core s1 s2 \<and>
        (\<forall>u. \<not> window_page L u \<longrightarrow> walk (phys s2) d u = walk (phys s1) d u))"
      using \<open>0 < unat n\<close> by (auto simp: same_walks_def)
  qed simp_all
  then show ?thesis unfolding vmm_map_pages_def mask_frame by blast
qed

section \<open>Forking the kernel space\<close>

text \<open>The base directory is reachable through its own identity mapping in the first 4 MB.\<close>

definition base_ok :: "symbols \<Rightarrow> mstate \<Rightarrow> bool" where
  "base_ok L s \<longleftrightarrow> base_kernel_cr3 s = sym_base_dir L \<and> aligned 12 (sym_base_dir L) \<and> sym_base_dir L < 0x400000 \<and>
     sym_base_dir L \<notin> {sym_base_table L, sym_dir L, sym_table L} \<and>
     present (ld32 (phys s) (base_slot L (sym_base_dir L))) \<and>
     frame (ld32 (phys s) (base_slot L (sym_base_dir L))) = sym_base_dir L"

text \<open>The copy in progress: entries below \<open>k\<close> are done, nothing outside the new page has changed.\<close>

definition forking :: "symbols \<Rightarrow> mstate \<Rightarrow> u32 \<Rightarrow> (u32 \<Rightarrow> u32) \<Rightarrow> mstate \<Rightarrow> bool" where
  "forking L s0 d f s \<longleftrightarrow> paged L s \<and> windowed L (phys s) d (sym_table L) \<and>
     (\<exists>m. s = s0\<lparr>phys := m\<rparr>) \<and> (\<forall>i < 1024. dent (phys s) d i = f i) \<and>
     (\<forall>b. word_al b \<longrightarrow> frame b \<noteq> d \<longrightarrow> ld32 (phys s) b = ld32 (phys s0) b)"

lemma forking_store:
  assumes F: "forking L s0 d f s" and d: "d \<noteq> sym_base_table L" "d \<noteq> frame (cr3 s)" and i: "i < 1024"
  shows "\<exists>s'. vst (sym_dir L + 4 * i) x s = Inr ((), s') \<and> forking L s0 d (f(i := x)) s'"
proof -
  have P: "paged L s" and W: "windowed L (phys s) d (sym_table L)" and L: "symbols_ok L" and al: "aligned 12 d"
    using F by (simp_all add: forking_def paged_def windowed_def)
  let ?m = "st32 (phys s) (d + 4 * i) x"
  have ne: "base_slot L y \<noteq> d + 4 * i" for y by (rule slot_not_page(1) [OF L al d(1) i])
  have "d + 4 * i \<noteq> frame (cr3 s)" using entry_inj [of d "frame (cr3 s)" i 0] i al d(2) by auto
  then have "paged L (s\<lparr>phys := ?m\<rparr>)" using al ne [of "sym_base_table L"] by (intro paged_store [OF P]) auto
  moreover have "windowed L ?m d (sym_table L)"
    using W ne [THEN not_sym] al base_slot_al [OF L] by (simp add: windowed_def bytes.rd_wr)
  moreover have "dent ?m d j = (f(i := x)) j" if "j < 1024" for j
    using F that times4_inj [OF i that] al by (simp add: forking_def bytes.rd_wr)
  moreover have "\<forall>b. word_al b \<longrightarrow> frame b \<noteq> d \<longrightarrow> ld32 ?m b = ld32 (phys s0) b"
    using F al frame_add [OF al times4_less [OF i]] by (auto simp: forking_def bytes.rd_wr)
  moreover have "\<exists>m. s\<lparr>phys := ?m\<rparr> = s0\<lparr>phys := m\<rparr>" using F by (auto simp: forking_def)
  ultimately have "forking L s0 d (f(i := x)) (s\<lparr>phys := ?m\<rparr>)" by (simp add: forking_def)
  with window_access(2) [OF P W i, of x] show ?thesis by blast
qed

definition cleared_below :: "nat \<Rightarrow> (u32 \<Rightarrow> u32) \<Rightarrow> u32 \<Rightarrow> u32" where
  "cleared_below k f i = (if unat i < k then 0 else f i)"

definition kernel_entries :: "symbols \<Rightarrow> mem \<Rightarrow> nat \<Rightarrow> u32 \<Rightarrow> u32" where
  "kernel_entries L m k i =
     (if unat i < k \<and> present (dent m (sym_base_dir L) i) then dent m (sym_base_dir L) i else 0)"

lemma forking_cong: "forking L s0 d f s \<Longrightarrow> (\<And>i. i < 1024 \<Longrightarrow> f i = g i) \<Longrightarrow> forking L s0 d g s"
  by (simp add: forking_def)

lemma index_split:
  fixes j :: u32
  assumes "k < 1024" "j \<noteq> of_nat k"
  shows "unat j < Suc k \<longleftrightarrow> unat j < k"
  using assms by (metis less_antisym less_SucI word_of_nat_eq_iff of_nat_unat ucast_id unat_of_nat)

lemma fork_loops:
  assumes V: "vm_ok L (sym_base_dir L) s0" and B: "base_ok L s0" and d: "aligned 12 d" "page_no d \<in> free_pages (pmm s0)"
    and F: "forking L s1 d f s1" and s1: "phys s1 = st32 (phys s0) (dir_slot L) (win d)" "cr3 s1 = cr3 s0"
      "base_kernel_cr3 s1 = base_kernel_cr3 s0"
  shows "\<exists>s2. sthen (sfor 0 1024 (\<lambda>i. vst (sym_dir L + 4 * of_nat i) 0))
       (sfor 0 1024 (\<lambda>i. sbind (sget base_kernel_cr3) (\<lambda>base.
          sbind (vld (base + 4 * of_nat i)) (\<lambda>e. swhen (present e) (vst (sym_dir L + 4 * of_nat i) e))))) s1 = Inr ((), s2) \<and>
     forking L s1 d (kernel_entries L (phys s0) 1024) s2"
proof -
  let ?B = "sym_base_dir L"
  have S: "space_ok L (phys s0) (cr3 s0) (free_pages (pmm s0)) ?B" and L: "symbols_ok L"
    using V by (simp_all add: vm_ok_def paged_def)
  have dne: "d \<noteq> sym_base_table L" "d \<noteq> frame (cr3 s0)" "d \<noteq> ?B" using S d(2) by (auto simp: space_ok_def)
  have bal: "aligned 12 ?B" "?B < 0x400000" "?B \<noteq> sym_base_table L" using B by (simp_all add: base_ok_def)
  have k1024: "(of_nat k :: u32) < 1024" if "k < 1024" for k using that of_nat_less_iff_u32 [of k 1024] by simp
  have uk: "unat (of_nat k :: u32) = k" if "k < 1024" for k using that by (intro unat_of_nat_small) simp
  have cr: "cr3 s = cr3 s0" "base_kernel_cr3 s = ?B" if "forking L s1 d g s" for g s
    using that s1 B by (auto simp: forking_def base_ok_def)
  have 1: "\<exists>u. sfor 0 1024 (\<lambda>i. vst (sym_dir L + 4 * of_nat i) 0) s1 = Inr ((), u) \<and> forking L s1 d (cleared_below (0 + 1024) f) u"
  proof (rule sfor_keeps)
    show "forking L s1 d (cleared_below 0 f) s1" using F by (simp add: cleared_below_def [abs_def])
    fix k s assume k: "k < 0 + 1024" and Fk: "forking L s1 d (cleared_below k f) s"
    have "\<exists>u. vst (sym_dir L + 4 * of_nat k) 0 s = Inr ((), u) \<and> forking L s1 d ((cleared_below k f)(of_nat k := 0)) u"
      using dne cr [OF Fk] k by (intro forking_store [OF Fk] k1024) simp_all
    then show "\<exists>u. vst (sym_dir L + 4 * of_nat k) 0 s = Inr ((), u) \<and> forking L s1 d (cleared_below (Suc k) f) u"
      using forking_cong index_split [of k] k uk [of k] by (fastforce simp: cleared_below_def)
  qed
  then obtain u where u: "sfor 0 1024 (\<lambda>i. vst (sym_dir L + 4 * of_nat i) 0) s1 = Inr ((), u)"
    and Fu: "forking L s1 d (kernel_entries L (phys s0) 0) u"
    using forking_cong [of L s1 d "cleared_below 1024 f" _ "kernel_entries L (phys s0) 0"]
    by (auto simp: cleared_below_def kernel_entries_def word_less_nat_alt)
  have rd: "vld (?B + 4 * of_nat k) s = Inr (dent (phys s0) ?B (of_nat k), s)" if k: "k < 1024" and Fk: "forking L s1 d g s" for k s g
  proof -
    have P: "paged L s" using Fk by (simp add: forking_def)
    have "frame (base_slot L ?B) = sym_base_table L"
      using L frame_add [of "sym_base_table L"] by (simp add: base_slot_def offs_simps times4_less pid_less symbols_ok_def)
    moreover have "base_slot L ?B \<noteq> dir_slot L"
      using base_slot_inj [OF L, of ?B "sym_dir L"] B L by (simp add: base_ok_def symbols_ok_def aligned_frame)
    ultimately have slot: "ld32 (phys s) (base_slot L ?B) = ld32 (phys s0) (base_slot L ?B)"
      using Fk dne(1) base_slot_al [OF L] by (simp add: forking_def s1 bytes.rd_wr)
    have "frame (?B + 4 * of_nat k) = ?B" by (rule frame_add [OF bal(1) times4_less [OF k1024 [OF k]]])
    moreover have "dir_slot L \<noteq> ?B + 4 * of_nat k" by (rule slot_not_page(1) [OF L bal(1,3) k1024 [OF k]])
    ultimately have "dent (phys s) ?B (of_nat k) = dent (phys s0) ?B (of_nat k)"
      using Fk dne(3) bal(1) base_slot_al [OF L] by (simp add: forking_def s1 bytes.rd_wr)
    with slot B vld_low [OF P bal(1,2) k1024 [OF k]] show ?thesis by (simp add: base_ok_def)
  qed
  have "\<exists>v. sfor 0 1024 (\<lambda>i. sbind (sget base_kernel_cr3) (\<lambda>base.
      sbind (vld (base + 4 * of_nat i)) (\<lambda>e. swhen (present e) (vst (sym_dir L + 4 * of_nat i) e)))) u = Inr ((), v) \<and>
    forking L s1 d (kernel_entries L (phys s0) (0 + 1024)) v"
  proof (rule sfor_keeps)
    show "forking L s1 d (kernel_entries L (phys s0) 0) u" by (rule Fu)
    fix k s assume k: "k < 0 + 1024" and Fk: "forking L s1 d (kernel_entries L (phys s0) k) s"
    let ?e = "dent (phys s0) ?B (of_nat k)"
    obtain s' where s': "vst (sym_dir L + 4 * of_nat k) ?e s = Inr ((), s')"
      "forking L s1 d ((kernel_entries L (phys s0) k)(of_nat k := ?e)) s'"
      using forking_store [OF Fk, of "of_nat k" ?e] dne cr [OF Fk] k k1024 [of k] by auto
    have "forking L s1 d (kernel_entries L (phys s0) (Suc k)) s'" if "present ?e"
      by (rule forking_cong [OF s'(2)]) (use that k uk [of k] index_split [of k] in \<open>auto simp: kernel_entries_def\<close>)
    moreover have "forking L s1 d (kernel_entries L (phys s0) (Suc k)) s" if "\<not> present ?e"
    proof (rule forking_cong [OF Fk])
      fix j :: u32
      show "kernel_entries L (phys s0) k j = kernel_entries L (phys s0) (Suc k) j"
        using that k uk [of k] index_split [of k j] by (cases "j = of_nat k") (simp_all add: kernel_entries_def)
    qed
    ultimately have step: "forking L s1 d (kernel_entries L (phys s0) (Suc k)) (if present ?e then s' else s)" by simp
    have "sbind (sget base_kernel_cr3) (\<lambda>base. sbind (vld (base + 4 * of_nat k))
        (\<lambda>e. swhen (present e) (vst (sym_dir L + 4 * of_nat k) e))) s = Inr ((), if present ?e then s' else s)"
      using rd [OF _ Fk, of k] k cr [OF Fk] s'(1) by (simp add: sbind_Inr)
    with step show "\<exists>t. sbind (sget base_kernel_cr3) (\<lambda>base. sbind (vld (base + 4 * of_nat k))
        (\<lambda>e. swhen (present e) (vst (sym_dir L + 4 * of_nat k) e))) s = Inr ((), t) \<and>
        forking L s1 d (kernel_entries L (phys s0) (Suc k)) t" by blast
  qed
  with u show ?thesis by (auto simp: sthen_Inr)
qed

text \<open>A directory with the kernel entries translates like the base directory.\<close>

lemma kernel_entries_space:
  assumes S: "space_ok L m c F (sym_base_dir L)" and d: "aligned 12 d" "page_no d \<in> F"
    and E: "\<And>i. i < 1024 \<Longrightarrow> dent m' d i = kernel_entries L m 1024 i"
  shows "space_ok L m' c (F - {page_no d}) d"
proof -
  let ?B = "sym_base_dir L"
  have dne: "d \<noteq> sym_base_table L" "d \<noteq> frame c" using S d(2) by (auto simp: space_ok_def)
  have u: "unat i < 1024" if "i < 1024" for i :: u32 using that by (simp add: word_less_nat_alt)
  have E': "dent m' d i = (if present (dent m ?B i) then dent m ?B i else 0)" if "i < 1024" for i
    using E [OF that] u [OF that] by (simp add: kernel_entries_def)
  have p: "present (dent m' d i) \<longleftrightarrow> present (dent m ?B i)" if "i < 1024" for i
    using E' [OF that] by (simp add: present_def)
  show ?thesis
    unfolding space_ok_def
  proof (intro conjI allI impI)
    show "present (dent m' d 0)" "frame (dent m' d 0) = sym_base_table L"
      using p [of 0] E' [of 0] S by (simp_all add: space_ok_def)
    fix i :: u32 assume i: "i < 1024" "present (dent m' d i)"
    then have pi: "present (dent m ?B i)" and ei: "dent m' d i = dent m ?B i" using p E' by simp_all
    note T = space_table [OF S i(1) pi]
    show "page_no (frame (dent m' d i)) \<notin> F - {page_no d}" "frame (dent m' d i) \<noteq> frame c"
      using T(1,3) ei by simp_all
    show "frame (dent m' d i) \<noteq> d" using T(1) d(2) ei by auto
    fix j :: u32 assume j: "j < 1024" "present (dent m' d j) \<and> frame (dent m' d j) = frame (dent m' d i)"
    then show "j = i" using T(4) [of j] p [of j] E' [of j] ei by simp
  qed (use S d dne in \<open>auto simp: space_ok_def\<close>)
qed

lemma kernel_entries_walk:
  assumes S: "space_ok L m c F (sym_base_dir L)" and d: "aligned 12 d" "page_no d \<in> F"
    and E: "\<And>i. i < 1024 \<Longrightarrow> dent m' d i = kernel_entries L m 1024 i"
    and R: "\<And>b. word_al b \<Longrightarrow> frame b \<noteq> d \<Longrightarrow> ld32 m' b = ld32 m b"
  shows "walk m' d u = walk m (sym_base_dir L) u"
proof -
  let ?B = "sym_base_dir L"
  have B: "aligned 12 ?B" using S by (simp add: space_ok_def)
  have "unat (drop_bit 22 u) < 1024" using tid_less [of u] by (simp add: word_less_nat_alt)
  then have e: "ld32 m' (pde_addr d u) = (if present (ld32 m (pde_addr ?B u)) then ld32 m (pde_addr ?B u) else 0)"
    using E [OF tid_less, of u] by (simp add: kernel_entries_def)
  show ?thesis
  proof (cases "present (ld32 m (pde_addr ?B u))")
    case True
    then have pt: "pte_addr m' d u = pte_addr m ?B u" using e by (simp add: pte_addr_def)
    have "frame (pte_addr m ?B u) = frame (ld32 m (pde_addr ?B u))"
      by (simp add: pte_addr_def frame_add times4_less pid_less)
    then have "ld32 m' (pte_addr m ?B u) = ld32 m (pte_addr m ?B u)"
      using space_table(1) [OF S tid_less True] d(2) by (intro R) auto
    with True e pt d B show ?thesis by (simp add: walk_eq)
  next
    case False
    with e d B show ?thesis by (simp add: walk_eq present_def)
  qed
qed

lemma vmm_fork_space:
  assumes V: "vm_ok L (sym_base_dir L) s" and B: "base_ok L s"
  shows "vmm_fork_kernel_space L s = Inl Halted \<and> frames_left s = 0 \<or>
    (\<exists>d s'. vmm_fork_kernel_space L s = Inr (d, s') \<and> vm_ok L d s' \<and> same_core s s' \<and>
       page_no d \<in> free_pages (pmm s) \<and> free_pages (pmm s') = free_pages (pmm s) - {page_no d} \<and>
       walk (phys s') d = walk (phys s) (sym_base_dir L))"
proof -
  have P: "paged L s" and C: "closed L (phys s)" and L: "symbols_ok L" and ok: "pmm_ok (pmm s)"
    and S: "space_ok L (phys s) (cr3 s) (free_pages (pmm s)) (sym_base_dir L)"
    using V by (simp_all add: vm_ok_def paged_def)
  let ?i = "s\<lparr>iflag := False\<rparr>"
  have il: "interrupt_lock s = Inr (iflag s, ?i)"
    by (simp add: interrupt_lock_def check_interrupts_def sbind_def sthen_def)
  from pmm_alloc_page [OF ok] show ?thesis
  proof (elim disjE exE conjE)
    assume "pmm_alloc (pmm s) PAGE_SIZE = Inl Halted" "free_pages (pmm s) \<inter> {..<131071} = {}"
    then show ?thesis using il by (simp add: vmm_fork_kernel_space_def sbind_Inr sbind_Inl m_pmm_alloc_def frames_left_def)
  next
    fix d q
    assume A: "pmm_alloc (pmm s) PAGE_SIZE = Inr (d, q)" "aligned 12 d" "page_no d \<in> free_pages (pmm s)"
      "free_pages q = free_pages (pmm s) - {page_no d}" "pmm_ok q"
    let ?a = "s\<lparr>iflag := False, pmm := q\<rparr>"
    define m1 where "m1 = st32 (phys s) (dir_slot L) (win d)"
    have Pa: "paged L ?a" using P by (simp add: paged_def)
    have o: "open_dir L d ?a = Inr ((), ?a\<lparr>phys := m1\<rparr>)"
      using window_ops(1) [OF Pa, of "sym_dir L" "sym_table L" d] C A(2) by (simp add: m1_def)
    let ?s1 = "?a\<lparr>phys := m1\<rparr>"
    have F1: "forking L ?s1 d (dent m1 d) ?s1"
      using paged_set(1) [OF Pa, of "win d"] windowed_set(1) [OF L C A(2)] by (auto simp: forking_def m1_def)
    obtain s2 where run: "sthen (sfor 0 1024 (\<lambda>i. vst (sym_dir L + 4 * of_nat i) 0))
       (sfor 0 1024 (\<lambda>i. sbind (sget base_kernel_cr3) (\<lambda>base.
          sbind (vld (base + 4 * of_nat i)) (\<lambda>e. swhen (present e) (vst (sym_dir L + 4 * of_nat i) e))))) ?s1 = Inr ((), s2)"
      and F2: "forking L ?s1 d (kernel_entries L (phys s) 1024) s2"
      using fork_loops [OF V B A(2,3) F1] by (auto simp: m1_def)
    obtain m2 where s2: "s2 = ?a\<lparr>phys := m2\<rparr>" using F2 by (auto simp: forking_def)
    have P2: "paged L s2" and W2: "windowed L (phys s2) d (sym_table L)" using F2 by (simp_all add: forking_def)
    let ?m3 = "st32 m2 (dir_slot L) (win (sym_dir L))"
    have cl: "close_dir L s2 = Inr ((), ?a\<lparr>phys := ?m3\<rparr>)"
      using window_ops(3) [OF P2 W2] by (simp add: s2)
    let ?s' = "s\<lparr>pmm := q, phys := ?m3\<rparr>"
    have iu: "interrupt_unlock (iflag s) (?a\<lparr>phys := ?m3\<rparr>) = Inr ((), ?s')"
      by (cases "iflag s") (simp_all add: interrupt_unlock_def)
    obtain s1' where "sfor 0 1024 (\<lambda>i. vst (sym_dir L + 4 * of_nat i) 0) ?s1 = Inr ((), s1')"
      "sfor 0 1024 (\<lambda>i. sbind (sget base_kernel_cr3) (\<lambda>base.
          sbind (vld (base + 4 * of_nat i)) (\<lambda>e. swhen (present e) (vst (sym_dir L + 4 * of_nat i) e)))) s1' = Inr ((), s2)"
      using run by (auto simp: sthen_eq_Inr)
    then have res: "vmm_fork_kernel_space L s = Inr (d, ?s')"
      using il A(1) o cl iu
      by (simp add: vmm_fork_kernel_space_def sbind_Inr sthen_Inr m_pmm_alloc_def)
    have dB: "d \<noteq> sym_base_table L" using S A(3) by (auto simp: space_ok_def)
    have ent: "dent ?m3 d i = kernel_entries L (phys s) 1024 i" if "i < 1024" for i
      using F2 that slot_not_page(1) [OF L A(2) dB that, of "sym_dir L"] A(2) base_slot_al [OF L]
      by (simp add: forking_def s2 bytes.rd_wr)
    have out: "ld32 ?m3 b = ld32 (phys s) b" if "word_al b" "frame b \<noteq> d" for b
      using F2 that base_slot_al [OF L] C by (auto simp: forking_def s2 m1_def bytes.rd_wr windowed_def)
    have "closed L ?m3" using windowed_set(1) [OF L W2, of "sym_dir L"] L by (simp add: s2 symbols_ok_def)
    moreover have "paged L ?s'" using paged_set(1) [OF P2, of "win (sym_dir L)"] by (simp add: s2 paged_def)
    moreover have "space_ok L ?m3 (cr3 s) (free_pages q) d"
      unfolding A(4) by (rule kernel_entries_space [OF S A(2,3) ent])
    ultimately have "vm_ok L d ?s'" using A(5) by (simp add: vm_ok_def)
    moreover have "walk ?m3 d = walk (phys s) (sym_base_dir L)"
      using kernel_entries_walk [OF S A(2,3) ent out] by blast
    moreover have "same_core s ?s'" using A(4) by (auto simp: same_core_def)
    ultimately show ?thesis using res A(3,4) by auto
  qed
qed

section \<open>A concrete machine\<close>

text \<open>
  Memory given by its aligned words, and the state \<open>vmm_memory_setup\<close> aims at: \<open>_base_table\<close> maps
  the first 4 MB onto themselves and is entry 0 of \<open>_base_dir\<close>, whose other entries are absent.
\<close>

definition words_mem :: "(u32 \<Rightarrow> u32) \<Rightarrow> mem" where
  "words_mem f a = ucast (drop_bit (8 * unat (a AND mask 2)) (f (a AND NOT (mask 2))))"

lemma ld32_words_mem: "word_al a \<Longrightarrow> ld32 (words_mem f) a = f a"
proof -
  assume a: "word_al a"
  have o: "(a + k) AND mask 2 = k" "(a + k) AND NOT (mask 2) = a" if "k < 4" for k :: u32
  proof -
    have "k AND mask 2 = k" using less_mask_eq [of k 2] that by simp
    then show k: "(a + k) AND mask 2 = k" using aligned_offset [OF a] by simp
    show "(a + k) AND NOT (mask 2) = a" using mask_split [of "a + k" 2] k by simp
  qed
  have b: "words_mem f (a + k) = ucast (drop_bit (8 * unat k) (f a))" if "k < 4" for k
    using o [OF that] by (simp add: words_mem_def)
  show ?thesis using b [of 0] b [of 1] b [of 2] b [of 3] ucast_bytes32 [of "f a"] by (simp add: ld32_def)
qed

definition demo_symbols :: symbols where
  "demo_symbols = \<lparr>sym_base_dir = 0x101000, sym_base_table = 0x102000, sym_dir = 0x103000,
     sym_table = 0x104000, kernel_start = 0x100000, kernel_end = 0x110000\<rparr>"

definition demo_words :: "u32 \<Rightarrow> u32" where
  "demo_words a = (if frame a = 0x101000 then if a = 0x101000 then 0x102007 else 6
     else if frame a = 0x102000 then 1024 * (a - 0x102000) OR 7 else 0)"

definition demo_machine :: mstate where
  "demo_machine = \<lparr>phys = words_mem demo_words, cr3 = 0x101000, pg = True, iflag = True,
     base_kernel_cr3 = 0x101000, pmm = demo_pmm, kernel_heap = 0, handlers = (\<lambda>_. None)\<rparr>"

lemma demo_aligned: "aligned 12 0x101000" "aligned 12 0x102000" "aligned 12 0x103000" "aligned 12 0x104000"
  by simp_all

lemma demo_frames: "frame 0x101000 = 0x101000" "frame 0x102000 = 0x102000" "frame 0x102007 = 0x102000"
  by (simp_all add: frame_def address_def)

lemma demo_symbols_ok: "symbols_ok demo_symbols"
  by (simp add: symbols_ok_def demo_symbols_def)

lemma demo_slots:
  "base_slot demo_symbols 0x101000 = 0x102404" "base_slot demo_symbols 0x102000 = 0x102408"
  "base_slot demo_symbols 0x103000 = 0x10240C" "base_slot demo_symbols 0x104000 = 0x102410"
  by (simp_all add: base_slot_def offs_simps demo_symbols_def)

lemma demo_ld32: "word_al a \<Longrightarrow> ld32 (phys demo_machine) a = demo_words a"
  by (simp add: demo_machine_def ld32_words_mem)

lemma demo_slot_words:
  "demo_words 0x102404 = 0x101007" "demo_words 0x102408 = 0x102007"
  "demo_words 0x10240C = 0x103007" "demo_words 0x102410 = 0x104007" "demo_words 0x101000 = 0x102007"
  by (simp_all add: demo_words_def frame_def address_def)

lemma demo_dent: "i < 1024 \<Longrightarrow> dent (phys demo_machine) 0x101000 i = (if i = 0 then 0x102007 else 6)"
proof -
  assume i: "i < 1024"
  have "frame (0x101000 + 4 * i) = 0x101000" by (rule frame_add [OF demo_aligned(1) times4_less [OF i]])
  moreover have "4 * i = 4 * 0 \<longleftrightarrow> i = 0" using times4_inj [of i 0] i by simp
  moreover have "word_al (0x101000 + 4 * i)" by (rule entry_word_al [OF demo_aligned(1)])
  ultimately show ?thesis by (simp add: demo_ld32) (simp add: demo_words_def demo_frames)
qed

lemma demo_vm_ok: "vm_ok demo_symbols 0x101000 demo_machine"
proof -
  have free: "free_pages (pmm demo_machine) = {1, 2, 4}" by (simp add: demo_machine_def demo_free)
  have reach: "reach demo_symbols (phys demo_machine) 0x101000"
    by (simp add: reach_def demo_frames demo_ld32 demo_slot_words demo_symbols_def [THEN arg_cong, of sym_base_table, simplified]
        demo_slots present_def)
  have "paged demo_symbols demo_machine"
    using reach demo_symbols_ok by (simp add: paged_def demo_machine_def)
  moreover have "closed demo_symbols (phys demo_machine)"
    by (simp add: windowed_def demo_ld32 demo_slots demo_slot_words demo_symbols_def [THEN arg_cong, of sym_dir, simplified]
        demo_symbols_def [THEN arg_cong, of sym_table, simplified])
  moreover have "space_ok demo_symbols (phys demo_machine) (cr3 demo_machine) (free_pages (pmm demo_machine)) 0x101000"
    unfolding space_ok_def free
    using demo_dent demo_dent [of 0] by (auto simp: demo_symbols_def demo_machine_def demo_frames present_def)
  moreover have "pmm_ok (pmm demo_machine)" by (simp add: demo_machine_def demo_ok)
  ultimately show ?thesis by (simp add: vm_ok_def)
qed

lemma demo_walk_high: "0x400000 \<le> u \<Longrightarrow> walk (phys demo_machine) 0x101000 u = None"
proof -
  assume u: "0x400000 \<le> u"
  have "unat (drop_bit 22 u) = unat u div 4194304" by (simp add: drop_bit_eq_div unat_div)
  moreover have "0 < unat u div 4194304" using u by (simp add: div_greater_zero_iff word_le_nat_alt)
  ultimately have "drop_bit 22 u \<noteq> 0" by auto
  then show ?thesis using demo_dent [OF tid_less [of u]] by (simp add: walk_eq present_def)
qed

lemma demo_frames_left: "frames_left demo_machine = 3"
proof -
  have "{1, 2, 4 :: nat} \<inter> {..<131071} = {1, 2, 4}" by auto
  then show ?thesis by (simp add: frames_left_def demo_machine_def demo_free)
qed

lemma demo_base_ok: "base_ok demo_symbols demo_machine"
proof -
  have "ld32 (phys demo_machine) (base_slot demo_symbols 0x101000) = 0x101007"
    by (simp add: demo_slots demo_ld32 demo_slot_words)
  then show ?thesis
    by (simp add: base_ok_def demo_symbols_def demo_machine_def present_def) (simp add: frame_def address_def)
qed

section \<open>Properties\<close>

lemma space_clear_of:
  assumes "vm_ok L d s" "\<not> window_page L u"
  shows "clear_of L (phys s) d u"
  using assms pte_addr_not_slot [of L "phys s" "cr3 s" "free_pages (pmm s)" d u]
  by (auto simp: clear_of_def vm_ok_def paged_def space_ok_def)

text \<open>C3: for every page that is not one of the two windows, \<open>virt_to_phys\<close> returns what the
  hardware page walk of the directory gives (all ones for an unmapped page) and leaves memory
  and the whole machine as they were.\<close>

theorem virt_to_phys_correct:
  assumes "vm_ok L d s" and "\<not> window_page L v"
  shows "virt_to_phys L v d s = Inr (found (walk (phys s) d v), s)"
  using assms by (intro virt_to_phys_walk space_clear_of) (simp_all add: vm_ok_def space_ok_def)

theorem virt_to_phys_correct_witness:
  "virt_to_phys demo_symbols 0x102404 0x101000 demo_machine = Inr (0x102404, demo_machine)"
proof -
  have "\<not> window_page demo_symbols 0x102404" by (simp add: window_page_def demo_symbols_def frame_def address_def)
  moreover have "walk (phys demo_machine) 0x101000 0x102404 = Some 0x102404"
    using demo_dent [of 0] demo_ld32 [of "0x102408"]
    by (simp add: walk_def demo_frames present_def demo_slot_words Let_def)
  ultimately show ?thesis using virt_to_phys_correct [OF demo_vm_ok] by (simp add: found_def)
qed

text \<open>C1: \<open>vmm_map_pages\<close> on \<open>n\<close> unmapped pages above the first 4 MB refines the update of the
  directory's translation: it returns 0, maps exactly those pages to consecutive frames, leaves
  every other translation, \<open>cr3\<close> and the interrupt flag alone and keeps the invariant. It
  halts only when fewer than \<open>n\<close> frames are left for page tables.\<close>

theorem vmm_map_pages_refines:
  assumes "vm_ok L d s" and "range_ok (frame v) (unat n)" and "perms < 0x1000" and "bit perms 0"
    and "\<forall>u. in_range (frame v) (unat n) u \<longrightarrow> walk (phys s) d u = None"
  shows "vmm_map_pages L p v d n perms s = Inl Halted \<and> frames_left s < unat n \<or>
    (\<exists>s'. vmm_map_pages L p v d n perms s = Inr (False, s') \<and> vm_ok L d s' \<and> same_core s s' \<and>
       walk (phys s') d = mapped (frame v) (unat n) (frame p) (walk (phys s) d))"
  by (rule vmm_map_pages_mapped [OF assms])

lemma demo_range: "range_ok 0x400000 2" "frame 0x400123 = 0x400000"
  by (simp_all add: range_ok_def frame_def address_def)

theorem vmm_map_pages_refines_witness:
  "\<exists>s'. vmm_map_pages demo_symbols 0x200000 0x400123 0x101000 2 3 demo_machine = Inr (False, s') \<and>
     walk (phys s') 0x101000 0x401234 = Some 0x201234"
proof -
  have "bit (3 :: u16) 0" by simp
  moreover have "\<forall>u. in_range (frame 0x400123) 2 u \<longrightarrow> walk (phys demo_machine) 0x101000 u = None"
    using demo_walk_high by (simp add: in_range_def demo_range word_le_nat_alt)
  moreover have "frame 0x200000 = 0x200000" by (simp add: frame_def address_def)
  moreover have "in_range 0x400000 2 0x401234" by (simp add: in_range_def)
  ultimately show ?thesis
    using vmm_map_pages_refines [OF demo_vm_ok, of "0x400123" 2 3 "0x200000"]
    by (auto simp: demo_range demo_frames_left mapped_def)
qed

text \<open>C2: \<open>vmm_unmap_pages\<close> removes exactly the pages of the range from the translation and
  keeps the invariant; it halts only when fewer than \<open>n\<close> frames are left.\<close>

theorem vmm_unmap_pages_refines:
  assumes "vm_ok L d s" and "range_ok (frame v) (unat n)"
  shows "vmm_unmap_pages L v d n s = Inl Halted \<and> frames_left s < unat n \<or>
    (\<exists>r s'. vmm_unmap_pages L v d n s = Inr (r, s') \<and> vm_ok L d s' \<and> same_core s s' \<and>
       walk (phys s') d = unmapped (frame v) (unat n) (walk (phys s) d))"
  by (rule vmm_unmap_pages_unmapped [OF assms])

theorem vmm_unmap_pages_refines_witness:
  "\<exists>r s'. vmm_unmap_pages demo_symbols 0x400123 0x101000 2 demo_machine = Inr (r, s') \<and>
     walk (phys s') 0x101000 0x401234 = None \<and> vm_ok demo_symbols 0x101000 s'"
  using vmm_unmap_pages_refines [OF demo_vm_ok, of "0x400123" 2] demo_walk_high [of "0x401234"]
  by (auto simp: demo_range demo_frames_left unmapped_def)

text \<open>\<open>vmm_remap_pages\<close> has the effect of \<open>vmm_map_pages\<close> whether or not the pages of the
  range were mapped before.\<close>

lemma vmm_remap_pages_refines:
  assumes "vm_ok L d s" and "range_ok (frame v) (unat n)" and "perms < 0x1000" and "bit perms 0"
  shows "vmm_remap_pages L p v d n perms s = Inl Halted \<and> frames_left s < unat n \<or>
    (\<exists>s'. vmm_remap_pages L p v d n perms s = Inr (False, s') \<and> vm_ok L d s' \<and> same_core s s' \<and>
       walk (phys s') d = mapped (frame v) (unat n) (frame p) (walk (phys s) d))"
  by (rule vmm_remap_pages_mapped [OF assms])

text \<open>C33: when the first page of the range is mapped already, \<open>vmm_map_pages\<close> returns 1 and maps
  none of the pages, because the loop does not advance past it.\<close>

theorem vmm_map_pages_stuck:
  assumes "vm_ok L d s" and "0x400000 \<le> unat v" and "walk (phys s) d (frame v) \<noteq> None" and "n \<noteq> 0"
  shows "\<exists>s'. vmm_map_pages L p v d n perms s = Inr (True, s') \<and> vm_ok L d s' \<and> walk (phys s') d = walk (phys s) d"
  by (rule vmm_map_pages_first_mapped [OF assms])

theorem vmm_map_pages_stuck_witness:
  "\<exists>s s'. vmm_map_pages demo_symbols 0x300000 0x401000 0x101000 2 3 s = Inr (True, s') \<and> walk (phys s') 0x101000 0x402000 = None"
proof -
  have f: "frame 0x400123 = 0x400000" "frame 0x200000 = 0x200000" "frame 0x401000 = 0x401000" "bit (3 :: u16) 0"
    by (simp_all add: frame_def address_def)
  obtain s where s: "vm_ok demo_symbols 0x101000 s"
    "walk (phys s) 0x101000 = mapped 0x400000 2 0x200000 (walk (phys demo_machine) 0x101000)"
    using vmm_remap_pages_mapped [OF demo_vm_ok, of "0x400123" 2 3 "0x200000"] f
    by (auto simp: demo_range demo_frames_left)
  have "walk (phys s) 0x101000 (frame 0x401000) \<noteq> None" by (simp add: s mapped_def f in_range_def)
  moreover have "walk (phys s) 0x101000 0x402000 = None"
    using demo_walk_high [of "0x402000"] by (simp add: s mapped_def in_range_def)
  moreover obtain s' where "vmm_map_pages demo_symbols 0x300000 0x401000 0x101000 2 3 s = Inr (True, s')"
    "walk (phys s') 0x101000 = walk (phys s) 0x101000"
    using vmm_map_pages_stuck [OF s(1), of "0x401000" 2 "0x300000" 3] calculation(1) by auto
  ultimately show ?thesis by (intro exI [of _ s] exI [of _ s']) simp
qed

text \<open>C12: \<open>vmm_fork_kernel_space\<close> returns a fresh frame that is a well-formed address space with
  the translation of the base directory, and changes nothing else the machine state fixes; it
  halts only when no frame is left.\<close>

theorem vmm_fork_kernel_space_correct:
  assumes "vm_ok L (sym_base_dir L) s" and "base_ok L s"
  shows "vmm_fork_kernel_space L s = Inl Halted \<and> frames_left s = 0 \<or>
    (\<exists>d s'. vmm_fork_kernel_space L s = Inr (d, s') \<and> vm_ok L d s' \<and> same_core s s' \<and>
       page_no d \<in> free_pages (pmm s) \<and> free_pages (pmm s') = free_pages (pmm s) - {page_no d} \<and>
       walk (phys s') d = walk (phys s) (sym_base_dir L))"
  by (rule vmm_fork_space [OF assms])

theorem vmm_fork_kernel_space_correct_witness:
  "\<exists>d s'. vmm_fork_kernel_space demo_symbols demo_machine = Inr (d, s') \<and> page_no d \<in> {1, 2, 4} \<and>
     walk (phys s') d = walk (phys demo_machine) 0x101000"
proof -
  have "sym_base_dir demo_symbols = 0x101000" by (simp add: demo_symbols_def)
  moreover have "free_pages (pmm demo_machine) = {1, 2, 4}" by (simp add: demo_machine_def demo_free)
  ultimately show ?thesis
    using vmm_fork_kernel_space_correct [OF _ demo_base_ok] demo_vm_ok by (auto simp: demo_frames_left)
qed

text \<open>Splitting a virtual address into directory index, table index and offset and putting the
  parts together gives the address back, and the other way round for parts in range.\<close>

lemma vmm_offs_virt_inverse:
  "vmm_offs_to_virt (vmm_virt_to_offs v) = v \<and>
   vmm_virt_to_offs (vmm_offs_to_virt \<lparr>tid = i AND 0x3FF, pid = j AND 0x3FF, off = k AND 0xFFF\<rparr>) =
     \<lparr>tid = i AND 0x3FF, pid = j AND 0x3FF, off = k AND 0xFFF\<rparr>"
proof
  have c: "0xFFC00000 = NOT (mask 22 :: u32)" "0x003FF000 = (mask 22 AND NOT (mask 12) :: u32)" "0xFFF = (mask 12 :: u32)"
    "(0x3FF :: u32) = mask 10"
    by (simp_all add: mask_eq_exp_minus_1)
  show "vmm_virt_to_offs (vmm_offs_to_virt \<lparr>tid = i AND 0x3FF, pid = j AND 0x3FF, off = k AND 0xFFF\<rparr>) =
     \<lparr>tid = i AND 0x3FF, pid = j AND 0x3FF, off = k AND 0xFFF\<rparr>"
    unfolding vmm_offs_to_virt_def vmm_virt_to_offs_def vmm_table_off.select_convs vmm_table_off.ext_inject c
    by (intro conjI bit_word_eqI) (auto simp: bit_simps)
qed (rule offs_roundtrip)

end
