(* ===== verification/Heap.thy ===== *)
theory Heap
  imports Vmm_Map
begin

unbundle bit_operations_syntax

text \<open>
  The kernel heap, \<^verbatim>\<open>src/mm/heap.c\<close>, and the allocation calls of \<^verbatim>\<open>src/klibc/stdlib.c\<close>. The
  structures \<open>Heap_t\<close> and \<open>HeapChunk_t\<close> live in the paged memory of the machine and every field
  access goes through the page walk, so that touching an unmapped chunk header is the error
  \<open>PageFault\<close>. Loops over the free list return \<open>Diverges\<close> on a list that does not come back to
  its head; a failed check of the code is the panic with its message.
\<close>

section \<open>Memory accesses and structures\<close>

definition vld16 :: "u32 \<Rightarrow> (mstate, u16) op" where
  "vld16 v s = (case mmu s v of None \<Rightarrow> Inl (PageFault v) | Some p \<Rightarrow> Inr (ld16 (phys s) p, s))"

definition vst16 :: "u32 \<Rightarrow> u16 \<Rightarrow> (mstate, unit) op" where
  "vst16 v x s = (case mmu s v of None \<Rightarrow> Inl (PageFault v)
     | Some p \<Rightarrow> Inr ((), s\<lparr>phys := st16 (phys s) p x\<rparr>))"

text \<open>Field addresses of \<open>Heap_t\<close> and \<open>HeapChunk_t\<close>, with the layout of the i386 ABI.\<close>

abbreviation (input) startAddr :: "u32 \<Rightarrow> u32" where "startAddr h \<equiv> h"
abbreviation (input) endAddr :: "u32 \<Rightarrow> u32" where "endAddr h \<equiv> h + 4"
abbreviation (input) maxAddr :: "u32 \<Rightarrow> u32" where "maxAddr h \<equiv> h + 8"
abbreviation (input) heap_cr3 :: "u32 \<Rightarrow> u32" where "heap_cr3 h \<equiv> h + 12"
abbreviation (input) heap_perms :: "u32 \<Rightarrow> u32" where "heap_perms h \<equiv> h + 16"
abbreviation (input) get_head :: "u32 \<Rightarrow> u32" where "get_head h \<equiv> h + 20"

abbreviation (input) prevFoot :: "u32 \<Rightarrow> u32" where "prevFoot c \<equiv> c"
abbreviation (input) chunk_head :: "u32 \<Rightarrow> u32" where "chunk_head c \<equiv> c + 4"
abbreviation (input) chunk_list :: "u32 \<Rightarrow> u32" where "chunk_list c \<equiv> c + 8"
abbreviation (input) list_chunk :: "u32 \<Rightarrow> u32" where "list_chunk l \<equiv> l - 8"

abbreviation (input) PINUSE_BIT :: u32 where "PINUSE_BIT \<equiv> 1"
abbreviation (input) CINUSE_BIT :: u32 where "CINUSE_BIT \<equiv> 2"
abbreviation (input) RESERV_BIT :: u32 where "RESERV_BIT \<equiv> 4"

definition FLAG_BITS :: u32 where
  "FLAG_BITS = PINUSE_BIT OR CINUSE_BIT OR RESERV_BIT"

abbreviation (input) HEAPCHUNK_SIZE :: u32 where "HEAPCHUNK_SIZE \<equiv> 16"
abbreviation (input) CHUNK_OVERHEAD :: u32 where "CHUNK_OVERHEAD \<equiv> 4"
abbreviation (input) TWO_SIZE_T_SIZES :: u32 where "TWO_SIZE_T_SIZES \<equiv> 8"
abbreviation (input) HEAP_MIN_SIZE :: u32 where "HEAP_MIN_SIZE \<equiv> 0x100000"

definition KMALLOC_ALIGN_MASK :: u32 where
  "KMALLOC_ALIGN_MASK = 2 * 4 - 1"

definition MIN_CHUNK_SIZE :: u32 where
  "MIN_CHUNK_SIZE = (HEAPCHUNK_SIZE + KMALLOC_ALIGN_MASK) AND NOT KMALLOC_ALIGN_MASK"

definition MIN_REQUEST :: u32 where
  "MIN_REQUEST = MIN_CHUNK_SIZE - CHUNK_OVERHEAD - 1"

definition chunksize :: "u32 \<Rightarrow> u32" where
  "chunksize hw = hw AND NOT FLAG_BITS"

definition pad_request :: "u32 \<Rightarrow> u32" where
  "pad_request req = (req + CHUNK_OVERHEAD + KMALLOC_ALIGN_MASK) AND NOT KMALLOC_ALIGN_MASK"

definition request2size :: "u32 \<Rightarrow> u32" where
  "request2size req = (if req < MIN_REQUEST then MIN_CHUNK_SIZE else pad_request req)"

definition chunk2mem :: "u32 \<Rightarrow> u32" where
  "chunk2mem p = p + TWO_SIZE_T_SIZES"

definition mem2chunk :: "u32 \<Rightarrow> u32" where
  "mem2chunk p = p - TWO_SIZE_T_SIZES"

definition pinuse :: "u32 \<Rightarrow> bool" where
  "pinuse hw \<longleftrightarrow> hw AND PINUSE_BIT \<noteq> 0"

definition cinuse :: "u32 \<Rightarrow> bool" where
  "cinuse hw \<longleftrightarrow> hw AND CINUSE_BIT \<noteq> 0"

definition ok_inuse :: "u32 \<Rightarrow> bool" where
  "ok_inuse hw \<longleftrightarrow> hw AND (PINUSE_BIT OR CINUSE_BIT) \<noteq> PINUSE_BIT"

definition ok_address :: "u32 \<Rightarrow> u32 \<Rightarrow> (mstate, bool) op" where
  "ok_address p h = sbind (vld (startAddr h)) (\<lambda>a. if p \<ge> a then sbind (vld (endAddr h)) (\<lambda>e. sret (p < e)) else sret False)"

definition set_head :: "u32 \<Rightarrow> (u32 \<Rightarrow> u32) \<Rightarrow> (mstate, unit) op" where
  "set_head c f = sbind (vld (chunk_head c)) (\<lambda>hw. vst (chunk_head c) (f hw))"

definition set_inuse :: "u32 \<Rightarrow> u32 \<Rightarrow> (mstate, unit) op" where
  "set_inuse p sz = sthen (set_head p (\<lambda>hw. (hw AND PINUSE_BIT) OR CINUSE_BIT OR sz))
     (set_head (p + sz) (\<lambda>hw. hw OR PINUSE_BIT))"

definition set_size_and_pinuse :: "u32 \<Rightarrow> u32 \<Rightarrow> (mstate, unit) op" where
  "set_size_and_pinuse p sz = vst (chunk_head p) (sz OR PINUSE_BIT)"

definition clear_pinuse :: "u32 \<Rightarrow> (mstate, unit) op" where
  "clear_pinuse p = set_head p (\<lambda>hw. hw AND NOT PINUSE_BIT)"

definition set_foot :: "u32 \<Rightarrow> u32 \<Rightarrow> (mstate, unit) op" where
  "set_foot p sz = vst (prevFoot (p + sz)) sz"

section \<open>The free list\<close>

text \<open>The list operations of \<^verbatim>\<open>klibc/llist.h\<close> that the heap uses, on paged memory.\<close>

definition v_INIT_LIST_HEAD :: "u32 \<Rightarrow> (mstate, unit) op" where
  "v_INIT_LIST_HEAD p = sthen (vst p p) (vst (p + 4) p)"

definition v_list_empty :: "u32 \<Rightarrow> (mstate, bool) op" where
  "v_list_empty head = sbind (vld head) (\<lambda>n. sret (n = head \<or> n = 0))"

definition v_list_add_tail :: "u32 \<Rightarrow> u32 \<Rightarrow> (mstate, unit) op" where
  "v_list_add_tail new head =
     sbind (vld (head + 4)) (\<lambda>prev.
     sthen (vst (head + 4) new) (sthen (vst new head) (sthen (vst (new + 4) prev) (vst prev new))))"

definition v_list_del_entry :: "u32 \<Rightarrow> (mstate, unit) op" where
  "v_list_del_entry entry =
     sbind (vld (entry + 4)) (\<lambda>prev. sbind (vld entry) (\<lambda>next.
     sthen (vst (next + 4) prev) (vst prev next)))"

text \<open>
  The search of \<open>findSmallestChunk\<close> and \<open>insertChunk\<close> from the node \<open>iter\<close>: the first node whose
  chunk is large enough, or the head.
\<close>

definition fit_loop :: "u32 \<Rightarrow> u32 \<Rightarrow> u32 \<Rightarrow> (mstate, u32) op" where
  "fit_loop head sz = sloop (\<lambda>iter.
     if iter = head then sret (Inl iter)
     else sbind (vld (chunk_head (list_chunk iter))) (\<lambda>hw.
          if chunksize hw \<ge> sz then sret (Inl iter)
          else sbind (vld iter) (\<lambda>next. sret (Inr next))))"

text \<open>The loop of \<open>alloc\<close> that looks for the node with the highest address.\<close>

definition top_loop :: "u32 \<Rightarrow> u32 \<times> u32 \<Rightarrow> (mstate, u32) op" where
  "top_loop head = sloop (\<lambda>(tmp, iter).
     if iter = head then sret (Inl tmp)
     else sbind (vld iter) (\<lambda>next. sret (Inr (if iter > tmp then iter else tmp, next))))"

definition findSmallestChunk :: "u32 \<Rightarrow> u32 \<Rightarrow> (mstate, u32) op" where
  "findSmallestChunk sz heap =
     sbind (vld (get_head heap)) (\<lambda>first.
     sbind (fit_loop (get_head heap) sz first) (\<lambda>iter.
     sret (if iter = get_head heap then 0 else list_chunk iter)))"

definition insertChunk :: "u32 \<Rightarrow> u32 \<Rightarrow> (mstate, unit) op" where
  "insertChunk chunk heap =
     sbind (v_list_empty (get_head heap)) (\<lambda>empty.
     if empty then v_list_add_tail (chunk_list chunk) (get_head heap)
     else sbind (vld (chunk_head chunk)) (\<lambda>hw.
          sbind (vld (get_head heap)) (\<lambda>first.
          sbind (fit_loop (get_head heap) (chunksize hw) first) (\<lambda>iter.
          v_list_add_tail (chunk_list chunk) iter))))"

definition removeChunk :: "u32 \<Rightarrow> (mstate, unit) op" where
  "removeChunk chunk = v_list_del_entry (chunk_list chunk)"

section \<open>Growing and shrinking\<close>

definition createHeap :: "symbols \<Rightarrow> u32 \<Rightarrow> u32 \<Rightarrow> u32 \<Rightarrow> u32 \<Rightarrow> u32 \<Rightarrow> u16 \<Rightarrow> (mstate, u32) op" where
  "createHeap L placementAddr hcr3 start sz limit perms =
     (let heap = placementAddr; stop = start + sz
      in sthen (sassert (start mod PAGE_SIZE = 0))
        (sthen (sassert (stop mod PAGE_SIZE = 0))
        (sthen (vst (startAddr heap) start)
        (sthen (vst (endAddr heap) stop)
        (sthen (vst (maxAddr heap) limit)
        (sthen (vst16 (heap_perms heap) perms)
        (sthen (vst (heap_cr3 heap) hcr3)
        (sthen (v_INIT_LIST_HEAD (get_head heap))
        (sbind (m_pmm_alloc sz) (\<lambda>paddr.
         sbind (vld (heap_cr3 heap)) (\<lambda>dir.
         sbind (vld16 (heap_perms heap)) (\<lambda>pr.
         sthen (vmm_map_pages L paddr start dir (sz div PAGE_SIZE) (pr OR 1))
        (sthen (vst (prevFoot start) 0)
        (sthen (set_size_and_pinuse start sz)
        (sthen (insertChunk start heap)
               (sret heap))))))))))))))))"

definition round_page :: "u32 \<Rightarrow> u32" where
  "round_page newSize =
     (if newSize mod PAGE_SIZE \<noteq> 0 then (newSize AND (- PAGE_SIZE)) + PAGE_SIZE else newSize)"

definition expand :: "symbols \<Rightarrow> u32 \<Rightarrow> u32 \<Rightarrow> (mstate, unit) op" where
  "expand L newSize heap =
     sbind (vld (endAddr heap)) (\<lambda>oldEnd.
     sbind (vld (startAddr heap)) (\<lambda>start.
     sthen (sassert (newSize > oldEnd - start))
    (let newSize = round_page newSize
     in sbind (vld (maxAddr heap)) (\<lambda>limit.
     sthen (sassert (start + newSize \<le> limit))
    (sthen (vst (endAddr heap) (start + newSize))
    (let sz = start + newSize - oldEnd
     in sbind (m_pmm_alloc sz) (\<lambda>paddr.
     sbind (vld16 (heap_perms heap)) (\<lambda>pr.
     sthen (vmm_map L paddr oldEnd (sz div PAGE_SIZE) (pr OR 1)) (sret ())))))))))"

definition contract :: "symbols \<Rightarrow> u32 \<Rightarrow> u32 \<Rightarrow> (mstate, u32) op" where
  "contract L newSize heap =
     sbind (vld (endAddr heap)) (\<lambda>oldEnd.
     sbind (vld (startAddr heap)) (\<lambda>start.
     sthen (sassert (newSize < oldEnd - start))
    (let newSize = round_page newSize;
         newSize = (if newSize < HEAP_MIN_SIZE then HEAP_MIN_SIZE else newSize);
         newEnd = start + newSize;
         sz = oldEnd - newEnd
     in sthen (vst (endAddr heap) newEnd)
       (sbind (vld (heap_cr3 heap)) (\<lambda>dir.
        sthen (sthen (is_mapped L newEnd dir) (sret ()))
       (sthen (vmm_unmap_pages L newEnd dir (sz div PAGE_SIZE))
       (sbind (virt_to_phys L newEnd dir) (\<lambda>paddr.
        sthen (swhen (paddr \<noteq> UNMAPPED) (m_pmm_unalloc paddr sz))
              (sret newSize)))))))))"

section \<open>Allocation\<close>

text \<open>
  \<open>alloc\<close> in its two parts: the branch that finds no hole, which grows the heap and calls
  \<open>alloc\<close> again, and the branch that splits or takes the hole.
\<close>

definition alloc_grow :: "symbols \<Rightarrow> u32 \<Rightarrow> u32 \<Rightarrow> (mstate, unit) op" where
  "alloc_grow L nb heap =
     sbind (vld (endAddr heap)) (\<lambda>oldEndAddr.
     sbind (vld (startAddr heap)) (\<lambda>start.
     sthen (expand L (oldEndAddr - start + nb) heap)
    (sbind (v_list_empty (get_head heap)) (\<lambda>empty.
     sbind (if empty then sret 0
            else sbind (vld (get_head heap)) (\<lambda>first. top_loop (get_head heap) (0, first))) (\<lambda>tmp.
     sbind (if tmp \<noteq> 0 then
              sbind (vld (chunk_head (list_chunk tmp))) (\<lambda>hw.
              if \<not> pinuse hw \<and> cinuse hw then sfail (Panic ''(alloc) Memory Corrupt'')
              else if list_chunk tmp + chunksize hw \<noteq> oldEndAddr then sret (0, 0)
              else sthen (removeChunk (list_chunk tmp))
                     (sbind (vld (endAddr heap)) (\<lambda>newEnd. sret (list_chunk tmp, newEnd - list_chunk tmp))))
            else sret (0, 0)) (\<lambda>(topChunk, csize).
     sbind (if topChunk = 0 then sbind (vld (endAddr heap)) (\<lambda>newEnd. sret (oldEndAddr, newEnd - oldEndAddr))
            else sret (topChunk, csize)) (\<lambda>(topChunk, csize).
     sthen (set_size_and_pinuse topChunk csize) (insertChunk topChunk heap))))))))"

definition alloc_take :: "u32 \<Rightarrow> u32 \<Rightarrow> u32 \<Rightarrow> (mstate, u32) op" where
  "alloc_take nb hole heap =
     sbind (vld (chunk_head hole)) (\<lambda>hw.
     sthen (sassert (chunksize hw \<ge> nb))
    (sthen (removeChunk hole)
    (sbind (vld (chunk_head hole)) (\<lambda>hw.
     sbind (if chunksize hw \<ge> nb + MIN_CHUNK_SIZE then
              sthen (vst (chunk_head (hole + nb)) (chunksize hw - nb))
             (sthen (insertChunk (hole + nb) heap) (sret nb))
            else sret (chunksize hw)) (\<lambda>nb.
     sthen (set_inuse hole nb) (sret (chunk2mem hole)))))))"

definition alloc_step :: "symbols \<Rightarrow> u32 \<Rightarrow> u32 \<Rightarrow> (mstate, u32 + unit) op" where
  "alloc_step L sz heap =
     (let nb = request2size sz
      in sbind (findSmallestChunk nb heap) (\<lambda>hole.
         if hole = 0 then sthen (alloc_grow L nb heap) (sret (Inr ()))
         else sbind (alloc_take nb hole heap) (\<lambda>p. sret (Inl p))))"

definition alloc :: "symbols \<Rightarrow> u32 \<Rightarrow> u32 \<Rightarrow> (mstate, u32) op" where
  "alloc L sz heap = sloop (\<lambda>_. alloc_step L sz heap) ()"

section \<open>Release\<close>

text \<open>
  The part of \<open>free\<close> that looks at the chunk after the block, as the code has it: the test of
  \<open>ok_address\<close> is negated.
\<close>

definition free_next :: "u32 \<Rightarrow> u32 \<Rightarrow> u32 \<Rightarrow> (mstate, u32) op" where
  "free_next block sz heap =
     (let next = block + sz;
          corrupt = sthen (insertChunk block heap) (sfail (Panic ''(free) Memory Corrupt''))
      in sbind (ok_address next heap) (\<lambda>ok.
         if \<not> ok then
           sbind (vld (chunk_head next)) (\<lambda>hw.
           if \<not> pinuse hw then corrupt
           else if cinuse hw then sthen (clear_pinuse next) (sret sz)
           else sbind (vld (endAddr heap)) (\<lambda>e.
                if next + chunksize hw > e then corrupt
                else sthen (removeChunk next) (sret (sz + chunksize hw))))
         else sret sz))"

definition free_last :: "symbols \<Rightarrow> u32 \<Rightarrow> u32 \<Rightarrow> u32 \<Rightarrow> (mstate, u32 \<times> u32) op" where
  "free_last L block sz heap =
     sbind (vld (endAddr heap)) (\<lambda>e.
     sbind (vld (startAddr heap)) (\<lambda>start.
     let oldSize = e - start;
         newSize = block - start;
         newSize = (if newSize mod PAGE_SIZE \<noteq> 0 then newSize + MIN_CHUNK_SIZE else newSize)
     in sbind (contract L newSize heap) (\<lambda>newSize.
        sret (if sz > oldSize - newSize then (block, sz - (oldSize - newSize)) else (0, 0)))))"

definition free_chunk :: "symbols \<Rightarrow> u32 \<Rightarrow> u32 \<Rightarrow> (mstate, unit) op" where
  "free_chunk L ptr heap =
     (if ptr = 0 then sret ()
      else sbind (ok_address ptr heap) (\<lambda>ok.
        if \<not> ok then sfail (Panic ''(free) Memory Corrupt'')
        else sbind (vld (chunk_head (mem2chunk ptr))) (\<lambda>hw.
          if \<not> ok_inuse hw then sfail (Panic ''(free) Memory Corrupt'')
          else sbind (if \<not> pinuse hw then
                   sbind (vld (prevFoot (mem2chunk ptr))) (\<lambda>prevsize.
                   sbind (ok_address (mem2chunk ptr - prevsize) heap) (\<lambda>ok.
                   if \<not> ok then sfail (Panic ''(free) Memory Corrupt'')
                   else sthen (removeChunk (mem2chunk ptr - prevsize))
                          (sret (mem2chunk ptr - prevsize, chunksize hw + prevsize))))
                 else sret (mem2chunk ptr, chunksize hw)) (\<lambda>(block, sz).
               sbind (free_next block sz heap) (\<lambda>sz.
               sbind (vld (endAddr heap)) (\<lambda>e.
               sbind (if block + sz = e then free_last L block sz heap
                      else sthen (set_foot block sz) (sret (block, sz))) (\<lambda>(block, sz).
               swhen (block \<noteq> 0 \<and> sz \<noteq> 0)
                 (sthen (set_size_and_pinuse block sz) (insertChunk block heap)))))))))"

definition palignedAlloc :: "symbols \<Rightarrow> u32 \<Rightarrow> u32 \<Rightarrow> (mstate, u32) op" where
  "palignedAlloc L sz heap =
     (let nb = request2size sz; req = nb + PAGE_SIZE + MIN_CHUNK_SIZE - CHUNK_OVERHEAD
      in sbind (alloc L req heap) (\<lambda>mem.
         if mem = 0 then sret mem
         else sbind (if mem mod PAGE_SIZE \<noteq> 0 then
                (let chunk = mem2chunk mem;
                     br = mem2chunk ((mem AND (- PAGE_SIZE)) + PAGE_SIZE);
                     pos = (if br - chunk \<ge> MIN_CHUNK_SIZE then br else br + PAGE_SIZE);
                     leadsize = pos - chunk
                 in sbind (vld (chunk_head chunk)) (\<lambda>hw.
                    sthen (set_inuse pos (chunksize hw - leadsize))
                   (sthen (set_size_and_pinuse chunk leadsize)
                   (sthen (vst (prevFoot pos) leadsize)
                   (sthen (insertChunk chunk heap) (sret pos))))))
              else sret (mem2chunk mem)) (\<lambda>chunk.
            sbind (vld (chunk_head chunk)) (\<lambda>hw.
            sthen (swhen (chunksize hw > nb + MIN_CHUNK_SIZE)
                (sthen (set_inuse chunk nb)
                (sthen (set_inuse (chunk + nb) (chunksize hw - nb))
                       (free_chunk L (chunk2mem (chunk + nb)) heap))))
           (sbind (vld (chunk_head chunk)) (\<lambda>hw.
            sthen (sassert (chunksize hw \<ge> nb))
           (sthen (sassert (chunk2mem chunk mod PAGE_SIZE = 0))
           (sthen (sassert (cinuse hw))
                  (sret (chunk2mem chunk))))))))))"

section \<open>The calls of the kernel\<close>

definition heap_malloc :: "symbols \<Rightarrow> u32 \<Rightarrow> u32 \<Rightarrow> bool \<Rightarrow> (mstate, u32) op" where
  "heap_malloc L heap sz align =
     (if heap \<noteq> 0 then if align then palignedAlloc L sz heap else alloc L sz heap else sret 0)"

definition heap_free :: "symbols \<Rightarrow> u32 \<Rightarrow> u32 \<Rightarrow> (mstate, unit) op" where
  "heap_free L heap addr = swhen (heap \<noteq> 0) (free_chunk L addr heap)"

definition kmalloc :: "symbols \<Rightarrow> u32 \<Rightarrow> (mstate, u32) op" where
  "kmalloc L sz = sbind (sget kernel_heap) (\<lambda>h. heap_malloc L h sz False)"

definition kmalloc_a :: "symbols \<Rightarrow> u32 \<Rightarrow> (mstate, u32) op" where
  "kmalloc_a L sz = sbind (sget kernel_heap) (\<lambda>h. heap_malloc L h sz True)"

definition kfree :: "symbols \<Rightarrow> u32 \<Rightarrow> (mstate, unit) op" where
  "kfree L addr = sbind (sget kernel_heap) (\<lambda>h. heap_free L h addr)"

definition vst8 :: "u32 \<Rightarrow> u8 \<Rightarrow> (mstate, unit) op" where
  "vst8 v x s = (case mmu s v of None \<Rightarrow> Inl (PageFault v)
     | Some p \<Rightarrow> Inr ((), s\<lparr>phys := (phys s)(p := x)\<rparr>))"

definition kcalloc :: "symbols \<Rightarrow> u32 \<Rightarrow> (mstate, u32) op" where
  "kcalloc L sz = sbind (kmalloc L sz) (\<lambda>buffer.
     sthen (sfor 0 (unat sz) (\<lambda>i. vst8 (buffer + of_nat i) 0)) (sret buffer))"

section \<open>Setting up the memory managers\<close>

text \<open>
  \<open>mm_memory_setup\<close> of \<^verbatim>\<open>src/mm/mm.c\<close>, on the flags and the memory map the bootloader passes
  and the address \<open>heap_base\<close> of \<open>_kernel_heap_base\<close>. The printing of the map is left out.
\<close>

abbreviation (input) MULTIBOOT_INFO_MEM_MAP :: u32 where "MULTIBOOT_INFO_MEM_MAP \<equiv> 0x40"

definition m_pmm :: "(pmm_state \<Rightarrow> ('a \<times> pmm_state) res) \<Rightarrow> (mstate, 'a) op" where
  "m_pmm f s = rbind (f (pmm s)) (\<lambda>(x, p). Inr (x, s\<lparr>pmm := p\<rparr>))"

definition mm_memory_setup :: "symbols \<Rightarrow> u32 \<Rightarrow> u32 \<Rightarrow> mmap_entry list \<Rightarrow> (mstate, unit) op" where
  "mm_memory_setup L heap_base flags mmap =
     (if flags AND MULTIBOOT_INFO_MEM_MAP = 0
      then sfail (Panic (''Bootloader can'' @ [CHR 0x27] @ ''t store memory map!'' @ [CHR 0x0A]))
      else
        sthen (m_pmm (\<lambda>p. rbind (pmm_memory_setup p mmap) (\<lambda>p. Inr ((), p))))
       (sbind (m_pmm (\<lambda>p. pmm_alloc_from p (kernel_start L) (kernel_end L - kernel_start L))) (\<lambda>a.
        if a = 0 then sfail (Panic (''Can'' @ [CHR 0x27] @ ''t init memory manager''))
        else
          sthen (vmm_memory_setup L)
         (sbind vmm_get_cr3 (\<lambda>dir.
          sbind (createHeap L heap_base dir 0x01000000 HEAP_MIN_SIZE 0x02000000 2) (\<lambda>h.
          smod (kernel_heap_update (\<lambda>_. h))))))))"

end
