(* ===== verification/Heap_Alloc.thy ===== *)
theory Heap_Alloc
  imports Heap Llist
begin

unbundle bit_operations_syntax

text \<open>
  Correctness of the allocation path of the kernel heap. A mapped region of the machine behaves
  as plain memory, on which the free list of \<^verbatim>\<open>heap.c\<close> is the circular list of \<open>Llist\<close>. The
  invariant \<open>heap_inv\<close> says that the free list is well linked, sorted by size and made of
  disjoint chunks inside the region; insertion, removal, header updates and the whole of
  \<open>kmalloc\<close> (when a chunk is large enough) keep it.
\<close>

section \<open>A mapped region as plain memory\<close>

text \<open>
  \<open>region A s\<close>: the addresses \<open>A\<close> are mapped one to one, words at a time, and no store into the
  region can change how the region is mapped. On such a region paged accesses are accesses to
  the plain memory \<open>vm A s\<close>.
\<close>

definition region :: "u32 set \<Rightarrow> mstate \<Rightarrow> bool" where
  "region A s \<longleftrightarrow> inj_on (mmu s) A \<and> (\<forall>v \<in> A. mmu s v \<noteq> None) \<and>
     (\<forall>v p. word_al v \<longrightarrow> v \<in> A \<longrightarrow> mmu s v = Some p \<longrightarrow>
        (\<forall>k \<in> {0, 1, 2, 3}. v + k \<in> A \<and> mmu s (v + k) = Some (p + k))) \<and>
     (\<forall>m. (\<forall>p. Some p \<notin> mmu s ` A \<longrightarrow> m p = phys s p) \<longrightarrow> (\<forall>v \<in> A. mmu (s\<lparr>phys := m\<rparr>) v = mmu s v))"

definition vm :: "u32 set \<Rightarrow> mstate \<Rightarrow> mem" where
  "vm A s v = (if v \<in> A then phys s (the (mmu s v)) else 0)"

lemma region_word:
  assumes "region A s" "word_al v" "v \<in> A"
  obtains p where "mmu s v = Some p" and "\<forall>k \<in> {0, 1, 2, 3}. v + k \<in> A \<and> mmu s (v + k) = Some (p + k)"
proof -
  have "mmu s v \<noteq> None" using assms(1,3) unfolding region_def by simp
  then obtain p where p: "mmu s v = Some p" by blast
  moreover have "\<forall>k \<in> {0, 1, 2, 3}. v + k \<in> A \<and> mmu s (v + k) = Some (p + k)"
    using assms p unfolding region_def by simp
  ultimately show ?thesis by (rule that)
qed

lemma vld_region:
  assumes "region A s" "word_al v" "v \<in> A"
  shows "vld v s = Inr (ld32 (vm A s) v, s)"
proof -
  obtain p where p: "mmu s v = Some p" and k: "\<forall>k \<in> {0, 1, 2, 3}. v + k \<in> A \<and> mmu s (v + k) = Some (p + k)"
    using region_word [OF assms] .
  have "ld32 (vm A s) v = ld32 (phys s) p"
    using k p assms(3) by (simp add: ld32_def vm_def)
  with p show ?thesis by (simp add: vld_def)
qed

lemma vst_region:
  assumes R: "region A s" and v: "word_al v" "v \<in> A"
  shows "\<exists>s'. vst v x s = Inr ((), s') \<and> region A s' \<and> vm A s' = st32 (vm A s) v x \<and> s' = s\<lparr>phys := phys s'\<rparr>"
proof -
  obtain p where p: "mmu s v = Some p" and k: "\<forall>k \<in> {0, 1, 2, 3}. v + k \<in> A \<and> mmu s (v + k) = Some (p + k)"
    using region_word [OF R v] .
  let ?m = "st32 (phys s) p x" and ?s = "s\<lparr>phys := st32 (phys s) p x\<rparr>"
  have out: "?m q = phys s q" if "Some q \<notin> mmu s ` A" for q
  proof (rule st32_other)
    fix k :: u32 assume "k \<in> {0, 1, 2, 3}"
    with k have "v + k \<in> A" "mmu s (v + k) = Some (p + k)" by blast+
    then have "Some (p + k) \<in> mmu s ` A" by (metis imageI)
    with that show "q \<noteq> p + k" by auto
  qed
  have same: "mmu (s\<lparr>phys := m\<rparr>) u = mmu s u" if "\<forall>q. Some q \<notin> mmu s ` A \<longrightarrow> m q = phys s q" "u \<in> A" for m u
    using R that unfolding region_def by (elim conjE) simp
  have eq: "mmu ?s u = mmu s u" if "u \<in> A" for u using same [of ?m u] out that by blast
  have "region A ?s"
  proof -
    have img: "mmu ?s ` A = mmu s ` A" using eq by (intro image_cong) simp_all
    show ?thesis
      unfolding region_def
    proof (intro conjI allI impI ballI)
      show "inj_on (mmu ?s) A" using R eq by (simp add: region_def inj_on_def)
      show "mmu ?s u \<noteq> None" if "u \<in> A" for u using R eq [OF that] that by (simp add: region_def)
      fix u q k assume al: "word_al u" and uA: "u \<in> A" and um: "mmu ?s u = Some q" and k4: "k \<in> {0, 1, 2, 3 :: u32}"
      obtain r where r: "mmu s u = Some r" "\<forall>k \<in> {0, 1, 2, 3}. u + k \<in> A \<and> mmu s (u + k) = Some (r + k)"
        using region_word [OF R al uA] .
      have "q = r" using um eq [OF uA] r(1) by simp
      moreover show uk: "u + k \<in> A" using r(2) k4 by blast
      moreover have "mmu s (u + k) = Some (r + k)" using r(2) k4 by blast
      ultimately show "mmu ?s (u + k) = Some (q + k)" using eq [OF uk] by simp
    next
      fix m u assume m: "\<forall>q. Some q \<notin> mmu ?s ` A \<longrightarrow> m q = phys ?s q" and uA: "u \<in> A"
      have "\<forall>q. Some q \<notin> mmu s ` A \<longrightarrow> m q = phys s q" using m out unfolding img by simp
      from same [OF this uA] show "mmu (?s\<lparr>phys := m\<rparr>) u = mmu ?s u" using eq [OF uA] by simp
    qed
  qed
  moreover have "vm A ?s = st32 (vm A s) v x"
  proof
    fix u
    show "vm A ?s u = st32 (vm A s) v x u"
    proof (cases "u \<in> A")
      case True
      then have "mmu s u \<noteq> None" using R unfolding region_def by simp
      then obtain q where q: "mmu s u = Some q" by blast
      have "q = p + k \<longleftrightarrow> u = v + k" if "k \<in> {0, 1, 2, 3}" for k
      proof -
        have "v + k \<in> A" "mmu s (v + k) = Some (p + k)" using k that by blast+
        moreover have "inj_on (mmu s) A" using R unfolding region_def by simp
        ultimately show ?thesis using True q inj_on_eq_iff [of "mmu s" A u "v + k"] by auto
      qed
      from this [of 0] this [of 1] this [of 2] this [of 3] show ?thesis
        using True q eq [OF True] by (simp add: vm_def st32_def)
    next
      case False
      then have "u \<noteq> v + k" if "k \<in> {0, 1, 2, 3}" for k using k that by auto
      then have "st32 (vm A s) v x u = vm A s u" by (rule st32_other)
      with False show ?thesis by (simp add: vm_def)
    qed
  qed
  moreover have "vst v x s = Inr ((), ?s)" using p by (simp add: vst_def)
  ultimately show ?thesis by (intro exI [of _ ?s]) simp
qed

section \<open>The free list on a region\<close>

definition on_node :: "u32 set \<Rightarrow> u32 \<Rightarrow> bool" where
  "on_node A p \<longleftrightarrow> word_al p \<and> p \<in> A \<and> p + 4 \<in> A"

lemma on_node_al [simp]: "on_node A p \<Longrightarrow> word_al p" "on_node A p \<Longrightarrow> word_al (p + 4)"
  by (simp_all add: on_node_def)

lemma v_list_add_tail_region:
  assumes R: "region A s" and n: "on_node A new" "on_node A x" "on_node A (prev_of (vm A s) x)"
  shows "\<exists>s'. v_list_add_tail new x s = Inr ((), s') \<and> region A s' \<and> vm A s' = list_add_tail (vm A s) new x"
proof -
  let ?p = "prev_of (vm A s) x"
  have rd: "vld (x + 4) s = Inr (?p, s)" using vld_region [OF R, of "x + 4"] n(2) by (simp add: on_node_def prev_of_def)
  obtain s1 where s1: "vst (x + 4) new s = Inr ((), s1)" "region A s1" "vm A s1 = st32 (vm A s) (x + 4) new"
    using vst_region [OF R, of "x + 4" new] n(2) by (auto simp: on_node_def)
  obtain s2 where s2: "vst new x s1 = Inr ((), s2)" "region A s2" "vm A s2 = st32 (vm A s1) new x"
    using vst_region [OF s1(2), of new x] n(1) by (auto simp: on_node_def)
  obtain s3 where s3: "vst (new + 4) ?p s2 = Inr ((), s3)" "region A s3" "vm A s3 = st32 (vm A s2) (new + 4) ?p"
    using vst_region [OF s2(2), of "new + 4" ?p] n(1) by (auto simp: on_node_def)
  obtain s4 where s4: "vst ?p new s3 = Inr ((), s4)" "region A s4" "vm A s4 = st32 (vm A s3) ?p new"
    using vst_region [OF s3(2), of ?p new] n(3) by (auto simp: on_node_def)
  have "v_list_add_tail new x s = Inr ((), s4)"
    using rd s1(1) s2(1) s3(1) s4(1) by (simp add: v_list_add_tail_def sbind_Inr sthen_Inr)
  moreover have "vm A s4 = list_add_tail (vm A s) new x"
    by (simp add: s1(3) s2(3) s3(3) s4(3) list_add_tail_def list_add_between_def Let_def set_next_def set_prev_def)
  ultimately show ?thesis using s4(2) by blast
qed

lemma v_list_del_entry_region:
  assumes R: "region A s" and n: "on_node A e" "on_node A (prev_of (vm A s) e)" "on_node A (next_of (vm A s) e)"
  shows "\<exists>s'. v_list_del_entry e s = Inr ((), s') \<and> region A s' \<and> vm A s' = list_del_entry (vm A s) e"
proof -
  let ?p = "prev_of (vm A s) e" and ?n = "next_of (vm A s) e"
  have rd: "vld (e + 4) s = Inr (?p, s)" "vld e s = Inr (?n, s)"
    using vld_region [OF R, of "e + 4"] vld_region [OF R, of e] n(1) by (simp_all add: on_node_def prev_of_def next_of_def)
  obtain s1 where s1: "vst (?n + 4) ?p s = Inr ((), s1)" "region A s1" "vm A s1 = st32 (vm A s) (?n + 4) ?p"
    using vst_region [OF R, of "?n + 4" ?p] n(3) by (auto simp: on_node_def)
  obtain s2 where s2: "vst ?p ?n s1 = Inr ((), s2)" "region A s2" "vm A s2 = st32 (vm A s1) ?p ?n"
    using vst_region [OF s1(2), of ?p ?n] n(2) by (auto simp: on_node_def)
  have "v_list_del_entry e s = Inr ((), s2)"
    using rd s1(1) s2(1) by (simp add: v_list_del_entry_def sbind_Inr sthen_Inr)
  moreover have "vm A s2 = list_del_entry (vm A s) e"
    by (simp add: s1(3) s2(3) list_del_entry_def list_del_between_def set_next_def set_prev_def)
  ultimately show ?thesis using s2(2) by blast
qed

text \<open>The size a free chunk records, by its list node.\<close>

definition node_size :: "mem \<Rightarrow> u32 \<Rightarrow> u32" where
  "node_size m l = chunksize (ld32 m (l - 4))"

text \<open>
  The free list of a heap: the chunks \<open>ls\<close> (by their list nodes) in the order of the list, smallest
  first, with their headers and links inside the region and apart from each other.
\<close>

definition free_list :: "u32 set \<Rightarrow> u32 \<Rightarrow> u32 list \<Rightarrow> mstate \<Rightarrow> bool" where
  "free_list A heap ls s \<longleftrightarrow> region A s \<and> dlist (vm A s) (get_head heap) ls \<and>
     (\<forall>p \<in> insert (get_head heap) (set ls). on_node A p) \<and>
     (\<forall>l \<in> set ls. l \<noteq> 0 \<and> l - 4 \<in> A \<and> (\<forall>p \<in> insert (get_head heap) (set ls). l - 4 \<noteq> p \<and> l - 4 \<noteq> p + 4)) \<and>
     sorted (map (node_size (vm A s)) ls)"

lemma header_al: "word_al l \<Longrightarrow> word_al (l - 4)"
  by (rule aligned_minus) simp_all

lemma header_addr: "l - 8 + 4 = l - (4 :: u32)"
  by simp

lemma fit_loop_list:
  assumes F: "free_list A heap (as @ bs) s"
  shows "fit_loop (get_head heap) sz (hd (bs @ [get_head heap])) s =
    Inr (hd (dropWhile (\<lambda>l. node_size (vm A s) l < sz) bs @ [get_head heap]), s)"
  using assms
proof (induction bs arbitrary: as)
  case Nil
  show ?case unfolding fit_loop_def by (subst sloop_unfold) (simp add: sbind_Inr)
next
  case (Cons l bs)
  have R: "region A s" and D: "dlist (vm A s) (get_head heap) (as @ l # bs)" and n: "on_node A l" "l - 4 \<in> A"
    using Cons.prems by (simp_all add: free_list_def)
  have "l \<noteq> get_head heap" "next_of (vm A s) l = hd (bs @ [get_head heap])"
    using dlist_suffix_step [OF D refl] by simp_all
  moreover have "vld (l - 4) s = Inr (ld32 (vm A s) (l - 4), s)" "vld l s = Inr (next_of (vm A s) l, s)"
    using vld_region [OF R] n by (simp_all add: on_node_def header_al next_of_def)
  moreover have "fit_loop (get_head heap) sz (hd (bs @ [get_head heap])) s =
      Inr (hd (dropWhile (\<lambda>l. node_size (vm A s) l < sz) bs @ [get_head heap]), s)"
    using Cons.IH [of "as @ [l]"] Cons.prems by simp
  ultimately show ?case
    unfolding fit_loop_def by (subst sloop_unfold) (auto simp: sbind_def node_size_def not_less)
qed

lemma free_list_first: "free_list A heap ls s \<Longrightarrow> vld (get_head heap) s = Inr (hd (ls @ [get_head heap]), s)"
  using vld_region [of A s "get_head heap"] dlist_head_next [of "vm A s" "get_head heap" ls]
  by (simp add: free_list_def on_node_def next_of_def)

lemma findSmallestChunk_list:
  assumes F: "free_list A heap ls s"
  shows "findSmallestChunk sz heap s =
    Inr (case List.find (\<lambda>l. sz \<le> node_size (vm A s) l) ls of None \<Rightarrow> 0 | Some l \<Rightarrow> l - 8, s)"
proof -
  have D: "get_head heap \<notin> set ls" using F by (simp add: free_list_def dlist_def)
  have "hd (dropWhile (\<lambda>l. node_size (vm A s) l < sz) ls @ [get_head heap]) =
      (case List.find (\<lambda>l. sz \<le> node_size (vm A s) l) ls of None \<Rightarrow> get_head heap | Some l \<Rightarrow> l)"
    by (induction ls) (auto simp: not_less)
  moreover have "l \<noteq> get_head heap" if "List.find (\<lambda>l. sz \<le> node_size (vm A s) l) ls = Some l" for l
    using that D nth_mem by (fastforce simp: find_Some_iff)
  ultimately show ?thesis
    using fit_loop_list [of A heap "[]" ls s sz] F free_list_first [OF F]
    by (simp add: findSmallestChunk_def sbind_Inr split: option.splits)
qed

lemma list_add_tail_frame:
  assumes "word_al a" "word_al new" "word_al x" "word_al (prev_of m x)"
    and "a \<notin> {new, new + 4, x + 4, prev_of m x}"
  shows "ld32 (list_add_tail m new x) a = ld32 m a"
  using assms by (auto simp: list_add_tail_def list_add_between_def Let_def set_next_def set_prev_def bytes.rd_wr)

lemma sorted_split_insert:
  fixes f :: "'a \<Rightarrow> 'b :: linorder"
  assumes "sorted (map f ls)"
  shows "sorted (map f (takeWhile (\<lambda>l. f l < k) ls)) \<and> (\<forall>x \<in> set (dropWhile (\<lambda>l. f l < k) ls). k \<le> f x)"
  using assms
proof (induction ls)
  case (Cons a ls)
  then show ?case by (auto dest: set_takeWhileD intro: order_trans)
qed simp

section \<open>Sizes\<close>

lemma heap_consts [simp]: "FLAG_BITS = 7" "KMALLOC_ALIGN_MASK = 7" "MIN_CHUNK_SIZE = 16" "MIN_REQUEST = 11"
  by (simp_all add: FLAG_BITS_def KMALLOC_ALIGN_MASK_def MIN_CHUNK_SIZE_def MIN_REQUEST_def)

lemma mask_3: "(7 :: u32) = mask 3"
  by (simp add: mask_eq_exp_minus_1)

lemma chunksize_mask: "chunksize hw = hw AND NOT (mask 3)"
  unfolding chunksize_def heap_consts mask_3 ..

lemma chunksize_aligned [simp]: "aligned 3 (chunksize hw)"
  by (simp add: chunksize_mask)

lemma chunksize_id: "aligned 3 n \<Longrightarrow> chunksize n = n"
  using mask_split [of n 3] by (simp add: chunksize_mask aligned_def)

lemma chunksize_pinuse [simp]: "chunksize (hw OR 1) = chunksize hw"
  by (rule bit_word_eqI) (auto simp: chunksize_mask bit_simps)

lemma request2size_aligned [simp]: "aligned 3 (request2size req)"
  by (auto simp: request2size_def pad_request_def mask_3) (simp_all add: mask_eq_exp_minus_1)

section \<open>The invariant of the free chunks\<close>

text \<open>
  A free chunk, by its list node \<open>l\<close>, owns the addresses from its own header up to the header of
  the chunk that follows; the foot it leaves for the next chunk is its last word.
\<close>

definition span :: "mem \<Rightarrow> u32 \<Rightarrow> nat set" where
  "span m l = {unat l - 4 ..< unat l - 4 + unat (node_size m l)}"

definition heap_struct :: "u32 \<Rightarrow> nat set" where
  "heap_struct heap = {unat heap ..< unat heap + 28}"

definition inside :: "u32 set \<Rightarrow> nat set \<Rightarrow> bool" where
  "inside A N \<longleftrightarrow> (\<forall>a. unat a \<in> N \<longrightarrow> a \<in> A)"

definition chunk_ok :: "u32 set \<Rightarrow> u32 \<Rightarrow> mem \<Rightarrow> u32 \<Rightarrow> bool" where
  "chunk_ok A heap m l \<longleftrightarrow> aligned 3 l \<and> 8 < unat l \<and> 16 \<le> unat (node_size m l) \<and>
     unat l + unat (node_size m l) \<le> 2 ^ 32 \<and> inside A {unat l - 4 ..< unat l + unat (node_size m l)} \<and>
     {unat l - 4 ..< unat l + unat (node_size m l)} \<inter> heap_struct heap = {}"

definition heap_inv :: "u32 set \<Rightarrow> u32 \<Rightarrow> u32 list \<Rightarrow> mstate \<Rightarrow> bool" where
  "heap_inv A heap ls s \<longleftrightarrow> region A s \<and> word_al heap \<and> unat heap + 28 \<le> 2 ^ 32 \<and> inside A (heap_struct heap) \<and>
     dlist (vm A s) (get_head heap) ls \<and> sorted (map (node_size (vm A s)) ls) \<and>
     (\<forall>l \<in> set ls. chunk_ok A heap (vm A s) l) \<and>
     (\<forall>l \<in> set ls. \<forall>l' \<in> set ls. l \<noteq> l' \<longrightarrow> span (vm A s) l \<inter> span (vm A s) l' = {})"

definition links :: "u32 \<Rightarrow> u32 list \<Rightarrow> u32 set" where
  "links heap ls = {a. \<exists>p \<in> insert (get_head heap) (set ls). a = p \<or> a = p + 4}"

lemma insideD: "inside A N \<Longrightarrow> unat a \<in> N \<Longrightarrow> a \<in> A"
  by (simp add: inside_def)

lemma unat_minus_small: "unat b \<le> unat a \<Longrightarrow> unat (a - b) = unat a - unat b" for a b :: u32
  by (rule unat_sub) (simp add: word_le_nat_alt)

lemma chunk_words:
  assumes "chunk_ok A heap m l"
  shows "unat (l - 4) = unat l - 4" "unat (l + 4) = unat l + 4" "l \<noteq> 0" "word_al l" "word_al (l - 4)"
    and "unat (l - 4) \<in> span m l" "unat l \<in> span m l" "unat (l + 4) \<in> span m l"
    and "l - 4 \<in> A" "l \<in> A" "l + 4 \<in> A"
proof -
  have b: "8 < unat l" "16 \<le> unat (node_size m l)" "unat l + unat (node_size m l) \<le> 2 ^ 32"
    and i: "inside A {unat l - 4 ..< unat l + unat (node_size m l)}" and al: "aligned 3 l"
    using assms by (simp_all add: chunk_ok_def)
  show u: "unat (l - 4) = unat l - 4" "unat (l + 4) = unat l + 4"
    using b by (simp_all add: unat_minus_small unat_add_small)
  show "l \<noteq> 0" using b by auto
  show "word_al l" using al by (rule aligned_mono [rotated]) simp
  then show "word_al (l - 4)" by (rule header_al)
  show "unat (l - 4) \<in> span m l" "unat l \<in> span m l" "unat (l + 4) \<in> span m l"
    using b by (auto simp: span_def u)
  show "l - 4 \<in> A" "l \<in> A" "l + 4 \<in> A"
    using b by (auto intro!: insideD [OF i] simp: u)
qed

lemma span_heap_struct: "chunk_ok A heap m l \<Longrightarrow> span m l \<inter> heap_struct heap = {}"
  by (auto simp: chunk_ok_def span_def disjoint_iff)

lemma head_words:
  assumes "word_al heap" "unat heap + 28 \<le> 2 ^ 32"
  shows "unat (get_head heap) \<in> heap_struct heap" "unat (get_head heap + 4) \<in> heap_struct heap"
    "word_al (get_head heap)"
proof -
  have "unat (get_head heap) = unat heap + 20" "unat (get_head heap + 4) = unat heap + 24"
    using assms(2) by (simp_all add: unat_add_small)
  then show "unat (get_head heap) \<in> heap_struct heap" "unat (get_head heap + 4) \<in> heap_struct heap"
    by (auto simp: heap_struct_def)
  show "word_al (get_head heap)" using assms(1) by (simp add: aligned_add)
qed

lemma heap_inv_head:
  assumes "heap_inv A heap ls s"
  shows "on_node A (get_head heap)"
  using assms head_words [of heap] by (auto simp: heap_inv_def on_node_def intro: insideD)

lemma span_link:
  assumes H: "heap_inv A heap ls s" and a: "a \<in> links heap ls" "unat a \<in> N"
    and dis: "N \<inter> heap_struct heap = {}" "\<And>l. l \<in> set ls \<Longrightarrow> N \<inter> span (vm A s) l = {}"
  shows False
proof -
  obtain p where p: "p \<in> insert (get_head heap) (set ls)" "a = p \<or> a = p + 4" using a(1) unfolding links_def by blast
  have w: "word_al heap" "unat heap + 28 \<le> 2 ^ 32" using H by (simp_all add: heap_inv_def)
  show False
  proof (cases "p = get_head heap")
    case True
    then have "unat a \<in> heap_struct heap" using p(2) head_words [OF w] by auto
    with a(2) dis(1) show False by blast
  next
    case False
    then have l: "p \<in> set ls" using p(1) by simp
    then have "chunk_ok A heap (vm A s) p" using H by (simp add: heap_inv_def)
    then have "unat a \<in> span (vm A s) p" using p(2) chunk_words(7,8) by auto
    with a(2) dis(2) [OF l] show False by blast
  qed
qed

lemma heap_inv_free_list:
  assumes H: "heap_inv A heap ls s"
  shows "free_list A heap ls s"
proof -
  have c: "chunk_ok A heap (vm A s) l" if "l \<in> set ls" for l using H that by (simp add: heap_inv_def)
  have "l - 4 \<noteq> p \<and> l - 4 \<noteq> p + 4" if l: "l \<in> set ls" and p: "p \<in> insert (get_head heap) (set ls)" for l p
  proof (cases "p = l")
    case True
    have "l - 4 \<noteq> l" "l - 4 \<noteq> l + 4" using chunk_words(1,2) [OF c [OF l]] c [OF l] by (auto simp: chunk_ok_def dest: arg_cong [of _ _ unat])
    with True show ?thesis by simp
  next
    case False
    have w: "word_al heap" "unat heap + 28 \<le> 2 ^ 32" using H by (simp_all add: heap_inv_def)
    have "unat p \<notin> span (vm A s) l \<and> unat (p + 4) \<notin> span (vm A s) l"
    proof (cases "p = get_head heap")
      case True
      then show ?thesis using head_words [OF w] span_heap_struct [OF c [OF l]] by blast
    next
      case head: False
      then have "p \<in> set ls" using p by simp
      moreover from this have "span (vm A s) p \<inter> span (vm A s) l = {}" using H l False unfolding heap_inv_def by blast
      ultimately show ?thesis using chunk_words(7,8) [OF c [of p]] by blast
    qed
    moreover have "unat (l - 4) \<in> span (vm A s) l" by (rule chunk_words(6) [OF c [OF l]])
    ultimately show ?thesis by metis
  qed
  then show ?thesis
    using H heap_inv_head [OF H] chunk_words [OF c] by (auto simp: free_list_def heap_inv_def on_node_def)
qed

section \<open>Insertion, removal and header writes keep the invariant\<close>

lemma heap_inv_transfer:
  assumes H: "heap_inv A heap ls s" and R: "region A s'" and D: "dlist (vm A s') (get_head heap) ls'"
    and sub: "set ls' \<subseteq> set ls" "sorted (map (node_size (vm A s)) ls')"
    and sz: "\<And>l. l \<in> set ls' \<Longrightarrow> node_size (vm A s') l = node_size (vm A s) l"
  shows "heap_inv A heap ls' s'"
proof -
  have "map (node_size (vm A s')) ls' = map (node_size (vm A s)) ls'" using sz by simp
  then have "sorted (map (node_size (vm A s')) ls')" using sub(2) by (simp only:)
  moreover have "span (vm A s') l = span (vm A s) l" "chunk_ok A heap (vm A s') l = chunk_ok A heap (vm A s) l"
    if "l \<in> set ls'" for l
    using sz [OF that] by (simp_all add: span_def chunk_ok_def)
  ultimately show ?thesis
    using H R D sub unfolding heap_inv_def by (auto simp: subset_iff)
qed

lemma heap_inv_member:
  assumes "heap_inv A heap ls s" "p \<in> insert (get_head heap) (set ls)"
  shows "on_node A p"
  using heap_inv_free_list [OF assms(1)] assms(2) by (auto simp: free_list_def)

lemma heap_inv_header:
  assumes "heap_inv A heap ls s" "l \<in> set ls"
  shows "word_al (l - 4)" "l - 4 \<in> A" "l - 4 \<notin> links heap ls"
  using heap_inv_free_list [OF assms(1)] assms(2)
  unfolding free_list_def links_def on_node_def by (auto intro: header_al)

lemma heap_inv_write:
  assumes H: "heap_inv A heap ls s" and a: "word_al a" "a \<in> A" "a \<notin> links heap ls"
    and sz: "\<And>l. l \<in> set ls \<Longrightarrow> a = l - 4 \<Longrightarrow> chunksize x = node_size (vm A s) l"
  shows "\<exists>s'. vst a x s = Inr ((), s') \<and> heap_inv A heap ls s' \<and> vm A s' = st32 (vm A s) a x"
proof -
  have R: "region A s" and D: "dlist (vm A s) (get_head heap) ls" and so: "sorted (map (node_size (vm A s)) ls)"
    using H by (simp_all add: heap_inv_def)
  obtain s' where s': "vst a x s = Inr ((), s')" "region A s'" "vm A s' = st32 (vm A s) a x"
    using vst_region [OF R a(1,2)] by blast
  have "next_of (vm A s') p = next_of (vm A s) p \<and> prev_of (vm A s') p = prev_of (vm A s) p"
    if p: "p \<in> insert (get_head heap) (set ls)" for p
  proof -
    have "a \<noteq> p" "a \<noteq> p + 4" using a(3) p by (auto simp: links_def)
    then show ?thesis using heap_inv_member [OF H p] a(1) by (simp add: s'(3) fields bytes.rd_wr)
  qed
  then have "dlist (vm A s') (get_head heap) ls" by (intro dlist_frame [OF D]) blast
  moreover have "node_size (vm A s') l = node_size (vm A s) l" if "l \<in> set ls" for l
    using sz [OF that] heap_inv_header(1) [OF H that] a(1) by (auto simp: s'(3) node_size_def bytes.rd_wr)
  ultimately have "heap_inv A heap ls s'" using so by (intro heap_inv_transfer [OF H s'(2)]) simp_all
  with s' show ?thesis by blast
qed

lemma removeChunk_inv:
  assumes H: "heap_inv A heap (as @ l # bs) s"
  shows "\<exists>s'. removeChunk (l - 8) s = Inr ((), s') \<and> heap_inv A heap (as @ bs) s' \<and>
    (\<forall>a. word_al a \<longrightarrow> a \<notin> links heap (as @ l # bs) \<longrightarrow> ld32 (vm A s') a = ld32 (vm A s) a)"
proof -
  let ?m = "vm A s"
  have R: "region A s" and D: "dlist ?m (get_head heap) (as @ l # bs)" and so: "sorted (map (node_size ?m) (as @ l # bs))"
    using H by (simp_all add: heap_inv_def)
  have nb: "prev_of ?m l \<in> insert (get_head heap) (set (as @ l # bs))" "next_of ?m l \<in> insert (get_head heap) (set (as @ l # bs))"
    using dlist_prev [OF D] dlist_next [OF D] by (cases as rule: rev_cases; cases bs; simp)+
  then have on: "on_node A l" "on_node A (prev_of ?m l)" "on_node A (next_of ?m l)"
    using heap_inv_member [OF H] by simp_all
  obtain s' where s': "v_list_del_entry l s = Inr ((), s')" "region A s'" "vm A s' = list_del_entry ?m l"
    using v_list_del_entry_region [OF R on] by blast
  have fr: "ld32 (vm A s') a = ld32 ?m a" if "word_al a" "a \<notin> links heap (as @ l # bs)" for a
  proof -
    have "a \<noteq> next_of ?m l + 4" "a \<noteq> prev_of ?m l" using that(2) nb by (auto simp: links_def)
    then show ?thesis using that(1) on
      by (simp add: s'(3) list_del_entry_def list_del_between_def fields bytes.rd_wr on_node_def)
  qed
  have "dlist (vm A s') (get_head heap) (as @ bs)" unfolding s'(3) by (rule list_del_entry_dlist [OF D])
  moreover have "node_size (vm A s') p = node_size ?m p" if "p \<in> set (as @ bs)" for p
    using fr [OF heap_inv_header(1,3) [OF H, of p]] that by (simp add: node_size_def)
  ultimately have "heap_inv A heap (as @ bs) s'" using so
    by (intro heap_inv_transfer [OF H s'(2)]) (auto simp: sorted_append)
  moreover have "removeChunk (l - 8) s = Inr ((), s')" using s'(1) by (simp add: removeChunk_def)
  ultimately show ?thesis using fr by blast
qed

text \<open>Where \<open>insertChunk\<close> puts a chunk: before the first one that is not smaller.\<close>

definition insert_sized :: "mem \<Rightarrow> u32 \<Rightarrow> u32 list \<Rightarrow> u32 list" where
  "insert_sized m l ls = takeWhile (\<lambda>p. node_size m p < node_size m l) ls @ l # dropWhile (\<lambda>p. node_size m p < node_size m l) ls"

lemma set_insert_sized [simp]: "set (insert_sized m l ls) = insert l (set ls)"
proof -
  have "set ls = set (takeWhile (\<lambda>p. node_size m p < node_size m l) ls @ dropWhile (\<lambda>p. node_size m p < node_size m l) ls)"
    by (simp only: takeWhile_dropWhile_id)
  then show ?thesis unfolding insert_sized_def by (simp only: set_append set_simps Un_insert_right)
qed

lemma sorted_insert_sized:
  assumes "sorted (map (node_size m) ls)"
  shows "sorted (map (node_size m) (insert_sized m l ls))"
proof -
  let ?P = "\<lambda>p. node_size m p < node_size m l"
  have t: "sorted (map (node_size m) (takeWhile ?P ls))" and d: "\<forall>x \<in> set (dropWhile ?P ls). node_size m l \<le> node_size m x"
    using sorted_split_insert [OF assms, of "node_size m l"] by simp_all
  have "sorted (map (node_size m) (dropWhile ?P ls))"
    using assms by (subst (asm) takeWhile_dropWhile_id [symmetric, of _ ?P]) (simp only: map_append sorted_append)
  moreover have "\<forall>x \<in> set (takeWhile ?P ls). node_size m x \<le> node_size m l" by (auto dest: set_takeWhileD)
  ultimately show ?thesis using t d by (auto simp: insert_sized_def sorted_append intro: order_trans)
qed

lemma dlist_prev_any: "dlist m h (as @ bs) \<Longrightarrow> prev_of m (hd (bs @ [h])) = last (h # as)"
  by (cases bs) (auto simp: dlist_head_prev dlist_prev simp del: last.simps)

lemma hd_dropWhile_in: "hd (dropWhile P ls @ [h]) \<in> insert h (set ls)"
  by (induction ls) auto

lemma last_takeWhile_in: "last (h # takeWhile P ls) \<in> insert h (set ls)"
  using last_in_set [of "h # takeWhile P ls"] by (auto dest: set_takeWhileD)

lemma insertChunk_inv:
  assumes H: "heap_inv A heap ls s" and c: "chunk_ok A heap (vm A s) l"
    and dis: "\<And>l'. l' \<in> set ls \<Longrightarrow> span (vm A s) l \<inter> span (vm A s) l' = {}"
  shows "\<exists>s'. insertChunk (l - 8) heap s = Inr ((), s') \<and> heap_inv A heap (insert_sized (vm A s) l ls) s' \<and>
    (\<forall>p \<in> insert l (set ls). node_size (vm A s') p = node_size (vm A s) p) \<and>
    (\<forall>a. word_al a \<longrightarrow> a \<notin> links heap (l # ls) \<longrightarrow> ld32 (vm A s') a = ld32 (vm A s) a)"
proof -
  let ?m = "vm A s" and ?h = "get_head heap"
  let ?as = "takeWhile (\<lambda>p. node_size ?m p < node_size ?m l) ls" and ?bs = "dropWhile (\<lambda>p. node_size ?m p < node_size ?m l) ls"
  let ?x = "hd (?bs @ [?h])"
  have R: "region A s" and D: "dlist ?m ?h ls" and so: "sorted (map (node_size ?m) ls)"
    using H by (simp_all add: heap_inv_def)
  have ls: "ls = ?as @ ?bs" by simp
  have D': "dlist ?m ?h (?as @ ?bs)" using D by simp
  note cw = chunk_words [OF c]
  have out: "a \<notin> links heap ls" if "unat a \<in> span ?m l" for a
    using span_link [OF H _ that span_heap_struct [OF c] dis] by blast
  have fr: "fresh (insert ?h (set ls)) l"
  proof -
    have "l \<noteq> p \<and> l \<noteq> p + 4 \<and> l + 4 \<noteq> p" if "p \<in> insert ?h (set ls)" for p
      using out [OF cw(7)] out [OF cw(8)] that by (auto simp: links_def)
    moreover have "word_al p" if "p \<in> insert ?h (set ls)" for p
      using heap_inv_member [OF H that] by simp
    ultimately show ?thesis using cw(4) unfolding fresh_def apart_def by blast
  qed
  have x: "?x \<in> insert ?h (set ls)" by (rule hd_dropWhile_in)
  have px: "prev_of ?m ?x = last (?h # ?as)" by (rule dlist_prev_any [OF D'])
  have pin: "prev_of ?m ?x \<in> insert ?h (set ls)" unfolding px by (rule last_takeWhile_in)
  have on: "on_node A l" "on_node A ?x" "on_node A (prev_of ?m ?x)"
    using cw heap_inv_member [OF H x] heap_inv_member [OF H pin] by (simp_all add: on_node_def)
  obtain s' where s': "v_list_add_tail l ?x s = Inr ((), s')" "region A s'" "vm A s' = list_add_tail ?m l ?x"
    using v_list_add_tail_region [OF R on] by blast
  have run: "insertChunk (l - 8) heap s = Inr ((), s')"
  proof -
    have F: "free_list A heap ls s" by (rule heap_inv_free_list [OF H])
    have first: "vld ?h s = Inr (hd (ls @ [?h]), s)" by (rule free_list_first [OF F])
    have "v_list_empty ?h s = Inr (ls = [], s)"
    proof -
      have "?h \<notin> set ls" "0 \<notin> set ls" using D F by (auto simp: dlist_def free_list_def)
      then show ?thesis using first by (cases ls) (auto simp: v_list_empty_def sbind_Inr)
    qed
    moreover have "vld (l - 4) s = Inr (ld32 ?m (l - 4), s)" using vld_region [OF R cw(5,9)] .
    moreover have "fit_loop ?h (node_size ?m l) (hd (ls @ [?h])) s = Inr (?x, s)"
      using fit_loop_list [of A heap "[]" ls s "node_size ?m l"] F by simp
    ultimately show ?thesis using first s'(1) by (auto simp: insertChunk_def sbind_def node_size_def)
  qed
  have lfr: "ld32 (vm A s') a = ld32 ?m a" if "word_al a" "a \<notin> links heap (l # ls)" for a
    unfolding s'(3) using that on x pin by (intro list_add_tail_frame) (auto simp: links_def)
  have hd: "node_size (vm A s') p = node_size ?m p" if "p \<in> set (l # ls)" for p
  proof -
    have "p - 4 \<notin> links heap (l # ls)"
    proof (cases "p = l")
      case True
      have "l - 4 \<noteq> l" "l - 4 \<noteq> l + 4" using cw(1,2) c by (auto simp: chunk_ok_def dest: arg_cong [of _ _ unat])
      with True out [OF cw(6)] show ?thesis by (auto simp: links_def)
    next
      case False
      then have p: "p \<in> set ls" using that by simp
      have "unat (p - 4) \<in> span ?m p" using H p by (auto simp: heap_inv_def intro: chunk_words(6))
      with dis [OF p] cw(7,8) have "p - 4 \<noteq> l" "p - 4 \<noteq> l + 4" by (metis IntI empty_iff)+
      with heap_inv_header(3) [OF H p] show ?thesis by (auto simp: links_def)
    qed
    moreover have "word_al (p - 4)" using that cw(5) heap_inv_header(1) [OF H] by auto
    ultimately show ?thesis using lfr by (simp add: node_size_def)
  qed
  have "dlist (vm A s') ?h (?as @ l # ?bs)"
    unfolding s'(3) list_add_tail_def px using dlist_insert_fresh [OF D'] fr by simp
  moreover have "sorted (map (node_size (vm A s')) (insert_sized ?m l ls))"
  proof -
    have "map (node_size (vm A s')) (insert_sized ?m l ls) = map (node_size ?m) (insert_sized ?m l ls)"
      using hd by simp
    with sorted_insert_sized [OF so, of l] show ?thesis by (simp only:)
  qed
  moreover have "span (vm A s') p = span ?m p" "chunk_ok A heap (vm A s') p = chunk_ok A heap ?m p" if "p \<in> set (l # ls)" for p
    using hd [OF that] by (simp_all add: span_def chunk_ok_def)
  moreover have "span ?m p \<inter> span ?m l = {}" if "p \<in> set ls" for p using dis [OF that] by blast
  ultimately have "heap_inv A heap (insert_sized ?m l ls) s'"
    using H s'(2) c dis by (auto simp: heap_inv_def insert_sized_def [of ?m l ls, symmetric])
  with run lfr hd show ?thesis by auto
qed

section \<open>Taking a chunk\<close>

lemma vld_inv: "heap_inv A heap ls s \<Longrightarrow> word_al a \<Longrightarrow> a \<in> A \<Longrightarrow> vld a s = Inr (ld32 (vm A s) a, s)"
  by (rule vld_region) (simp_all add: heap_inv_def)

text \<open>\<open>set_inuse\<close> on a chunk that is not in the free list, whatever the next chunk is.\<close>

lemma set_inuse_inv:
  assumes H: "heap_inv A heap ls s" and n: "aligned 3 n"
    and a: "word_al (l - 4)" "l - 4 \<in> A" "l - 4 \<notin> links heap ls" "\<And>p. p \<in> set ls \<Longrightarrow> p \<noteq> l"
    and b: "l - 4 + n \<in> A" "l - 4 + n \<notin> links heap ls" "n \<noteq> 0"
  shows "\<exists>s'. set_inuse (l - 8) n s = Inr ((), s') \<and> heap_inv A heap ls s' \<and>
    (\<forall>p. p \<in> set ls \<longrightarrow> node_size (vm A s') p = node_size (vm A s) p) \<and>
    ld32 (vm A s') (l - 4) = (ld32 (vm A s) (l - 4) AND PINUSE_BIT) OR CINUSE_BIT OR n"
proof -
  let ?hw = "ld32 (vm A s) (l - 4)" and ?b = "l - 4 + n"
  have e: "l - 8 + 4 = l - (4 :: u32)" "l - 8 + n + 4 = ?b" "?b \<noteq> l - 4" using b(3) by simp_all
  have bal: "word_al ?b" using a(1) aligned_mono [OF _ n, of 2] by (simp add: aligned_add)
  obtain s1 where s1: "vst (l - 4) ((?hw AND PINUSE_BIT) OR CINUSE_BIT OR n) s = Inr ((), s1)" "heap_inv A heap ls s1"
    "vm A s1 = st32 (vm A s) (l - 4) ((?hw AND PINUSE_BIT) OR CINUSE_BIT OR n)"
    using heap_inv_write [OF H a(1-3), of "(?hw AND PINUSE_BIT) OR CINUSE_BIT OR n"] a(4) by auto
  have nx: "chunksize (ld32 (vm A s1) ?b OR 1) = node_size (vm A s1) p" if "?b = p - 4" for p
    unfolding node_size_def that chunksize_pinuse ..
  obtain s2 where s2: "vst ?b (ld32 (vm A s1) ?b OR 1) s1 = Inr ((), s2)" "heap_inv A heap ls s2"
    "vm A s2 = st32 (vm A s1) ?b (ld32 (vm A s1) ?b OR 1)"
    using heap_inv_write [OF s1(2) bal b(1,2), of "ld32 (vm A s1) ?b OR 1"] nx by blast
  have "node_size (vm A s2) p = node_size (vm A s) p" if p: "p \<in> set ls" for p
  proof -
    have "node_size (vm A s1) p = node_size (vm A s) p"
      using heap_inv_header(1) [OF H p] a(1) a(4) [OF p] by (simp add: s1(3) node_size_def bytes.rd_wr)
    moreover have "node_size (vm A s2) p = node_size (vm A s1) p"
    proof (cases "?b = p - 4")
      case True
      show ?thesis unfolding s2(3) node_size_def True by simp
    next
      case False
      then show ?thesis using heap_inv_header(1) [OF H p] bal by (simp add: s2(3) node_size_def bytes.rd_wr)
    qed
    ultimately show ?thesis by simp
  qed
  moreover have "ld32 (vm A s2) (l - 4) = (?hw AND PINUSE_BIT) OR CINUSE_BIT OR n"
    using e(3) a(1) bal by (simp add: s1(3) s2(3) bytes.rd_wr)
  moreover have "set_inuse (l - 8) n s = Inr ((), s2)"
    unfolding set_inuse_def set_head_def e(1,2)
    using vld_inv [OF H a(1,2)] vld_inv [OF s1(2) bal b(1)] s1(1) s2(1) by (simp add: sthen_def sbind_def)
  ultimately show ?thesis using s2(2) by blast
qed

text \<open>The free space of the heap.\<close>

definition free_space :: "mem \<Rightarrow> u32 list \<Rightarrow> nat set" where
  "free_space m ls = (\<Union>l \<in> set ls. span m l)"

lemma next_header_free:
  assumes H: "heap_inv A heap ls s" and c: "chunk_ok A heap m l"
    and dis: "\<And>p. p \<in> set ls \<Longrightarrow> span m l \<inter> span (vm A s) p = {}"
  shows "l - 4 + node_size m l \<in> A" "l - 4 + node_size m l \<notin> links heap ls"
    "unat (l - 4 + node_size m l) = unat l - 4 + unat (node_size m l)"
proof -
  let ?n = "node_size m l" and ?b = "l - 4 + node_size m l"
  have b: "8 < unat l" "16 \<le> unat ?n" "unat l + unat ?n \<le> 2 ^ 32" and i: "inside A {unat l - 4 ..< unat l + unat ?n}"
    and h: "{unat l - 4 ..< unat l + unat ?n} \<inter> heap_struct heap = {}"
    using c by (simp_all add: chunk_ok_def)
  show u: "unat ?b = unat l - 4 + unat ?n" using b chunk_words(1) [OF c] by (simp add: unat_add_small)
  show "?b \<in> A" using b by (intro insideD [OF i]) (simp add: u)
  show "?b \<notin> links heap ls"
  proof
    assume "?b \<in> links heap ls"
    then obtain p where p: "p \<in> insert (get_head heap) (set ls)" "?b = p \<or> ?b = p + 4" unfolding links_def by blast
    have w: "word_al heap" "unat heap + 28 \<le> 2 ^ 32" using H by (simp_all add: heap_inv_def)
    show False
    proof (cases "p = get_head heap")
      case True
      then have "unat ?b \<in> heap_struct heap" using p(2) head_words [OF w] by metis
      moreover have "unat ?b \<in> {unat l - 4 ..< unat l + unat ?n}" using b by (simp add: u)
      ultimately show False using h by blast
    next
      case False
      then have p': "p \<in> set ls" using p(1) by simp
      then have cp: "chunk_ok A heap (vm A s) p" using H by (simp add: heap_inv_def)
      have "unat (p - 4) \<in> span m l \<or> unat p \<in> span m l"
      proof (cases "?b = p")
        case True
        have "unat (p - 4) = unat p - 4" by (rule chunk_words(1) [OF cp])
        then show ?thesis using b u unfolding True by (auto simp: span_def)
      next
        case False
        then have "unat p + 4 = unat ?b" using p(2) chunk_words(2) [OF cp] by metis
        then show ?thesis using b u by (auto simp: span_def)
      qed
      then show False using dis [OF p'] chunk_words(6,7) [OF cp] by blast
    qed
  qed
qed

lemma chunk_below:
  assumes "chunk_ok A heap m l" "unat heap + 28 \<le> 2 ^ 32"
  shows "unat (node_size m l) + 32 \<le> 2 ^ 32"
proof -
  have d: "x \<notin> {unat l - 4 ..< unat l + unat (node_size m l)} \<or> x \<notin> heap_struct heap" for x
    using assms(1) unfolding chunk_ok_def by blast
  show ?thesis
    using d [of "unat l - 4"] d [of "unat heap"] assms unfolding chunk_ok_def heap_struct_def by auto
qed

lemma disjoint_members:
  assumes "heap_inv A heap (as @ l # bs) s" "p \<in> set (as @ bs)"
  shows "span (vm A s) l \<inter> span (vm A s) p = {}" "p \<noteq> l"
proof -
  show "p \<noteq> l" using assms by (auto simp: heap_inv_def dlist_def)
  moreover have "p \<in> set (as @ l # bs)" "l \<in> set (as @ l # bs)" using assms(2) by auto
  ultimately show "span (vm A s) l \<inter> span (vm A s) p = {}" using assms(1) unfolding heap_inv_def by blast
qed

text \<open>The hole after its removal from the list, and the two ways \<open>alloc\<close> uses it.\<close>

lemma take_whole:
  assumes H: "heap_inv A heap ls s" and c: "chunk_ok A heap (vm A s) l"
    and dis: "\<And>p. p \<in> set ls \<Longrightarrow> span (vm A s) l \<inter> span (vm A s) p = {}"
  shows "\<exists>s'. set_inuse (l - 8) (node_size (vm A s) l) s = Inr ((), s') \<and> heap_inv A heap ls s' \<and>
    ld32 (vm A s') (l - 4) = (ld32 (vm A s) (l - 4) AND PINUSE_BIT) OR CINUSE_BIT OR node_size (vm A s) l \<and>
    free_space (vm A s') ls = free_space (vm A s) ls"
proof -
  let ?n = "node_size (vm A s) l"
  note cw = chunk_words [OF c]
  have "l - 4 \<notin> links heap ls" using span_link [OF H _ cw(6) span_heap_struct [OF c] dis] by blast
  moreover have "p \<noteq> l" if "p \<in> set ls" for p using dis [OF that] cw(7) by auto
  moreover have "aligned 3 ?n" by (simp add: node_size_def)
  moreover have "?n \<noteq> 0" using c by (auto simp: chunk_ok_def)
  moreover have "l - 4 + ?n \<in> A" "l - 4 + ?n \<notin> links heap ls"
    by (rule next_header_free(1,2) [OF H c dis], assumption)+
  ultimately obtain s' where s': "set_inuse (l - 8) ?n s = Inr ((), s')" "heap_inv A heap ls s'"
    "\<And>p. p \<in> set ls \<Longrightarrow> node_size (vm A s') p = node_size (vm A s) p"
    "ld32 (vm A s') (l - 4) = (ld32 (vm A s) (l - 4) AND PINUSE_BIT) OR CINUSE_BIT OR ?n"
    using set_inuse_inv [OF H, of ?n l] cw(5,9) by blast
  moreover have "free_space (vm A s') ls = free_space (vm A s) ls"
    using s'(3) by (simp add: free_space_def span_def)
  ultimately show ?thesis by blast
qed

lemma split_chunk:
  assumes c: "chunk_ok A heap m l" and nb: "aligned 3 nb" "unat nb + 16 \<le> unat (node_size m l)"
    and n: "node_size m' (l + nb) = node_size m l - nb"
  shows "chunk_ok A heap m' (l + nb)" "unat (l - 4 + nb) = unat l - 4 + unat nb"
    "span m' (l + nb) = {unat l - 4 + unat nb ..< unat l - 4 + unat (node_size m l)}"
proof -
  let ?n = "node_size m l"
  have b: "8 < unat l" "unat l + unat ?n \<le> 2 ^ 32" and i: "inside A {unat l - 4 ..< unat l + unat ?n}"
    and h: "{unat l - 4 ..< unat l + unat ?n} \<inter> heap_struct heap = {}" and al: "aligned 3 l"
    using c by (simp_all add: chunk_ok_def)
  show "unat (l - 4 + nb) = unat l - 4 + unat nb" using b nb chunk_words(1) [OF c] by (simp add: unat_add_small)
  have u: "unat (l + nb) = unat l + unat nb" "unat (?n - nb) = unat ?n - unat nb"
    using b nb by (simp_all add: unat_add_small unat_minus_small)
  show "span m' (l + nb) = {unat l - 4 + unat nb ..< unat l - 4 + unat ?n}"
    using b nb by (auto simp: span_def n u)
  have sub: "{unat (l + nb) - 4 ..< unat (l + nb) + unat (?n - nb)} \<subseteq> {unat l - 4 ..< unat l + unat ?n}"
    using b nb by (auto simp: u)
  have "inside A {unat (l + nb) - 4 ..< unat (l + nb) + unat (?n - nb)}" using i sub unfolding inside_def by blast
  moreover have "{unat (l + nb) - 4 ..< unat (l + nb) + unat (?n - nb)} \<inter> heap_struct heap = {}" using h sub by blast
  moreover have "aligned 3 (l + nb)" using al nb(1) by (simp add: aligned_add)
  ultimately show "chunk_ok A heap m' (l + nb)" unfolding chunk_ok_def n using b nb by (simp add: u)
qed

lemma take_split:
  assumes H: "heap_inv A heap ls s" and c: "chunk_ok A heap (vm A s) l"
    and dis: "\<And>p. p \<in> set ls \<Longrightarrow> span (vm A s) l \<inter> span (vm A s) p = {}"
    and nb: "aligned 3 nb" "0 < unat nb" "unat nb + 16 \<le> unat (node_size (vm A s) l)"
  shows "\<exists>s1 s2 s3 ls'. vst (l - 4 + nb) (node_size (vm A s) l - nb) s = Inr ((), s1) \<and>
    insertChunk (l + nb - 8) heap s1 = Inr ((), s2) \<and> set_inuse (l - 8) nb s2 = Inr ((), s3) \<and> heap_inv A heap ls' s3 \<and>
    ld32 (vm A s3) (l - 4) = (ld32 (vm A s) (l - 4) AND PINUSE_BIT) OR CINUSE_BIT OR nb \<and>
    free_space (vm A s3) ls' = {unat l - 4 + unat nb ..< unat l - 4 + unat (node_size (vm A s) l)} \<union> free_space (vm A s) ls"
proof -
  let ?m = "vm A s" and ?n = "node_size (vm A s) l" and ?a = "l - 4 + nb"
  note cw = chunk_words [OF c]
  have out: "a \<notin> links heap ls" if "unat a \<in> span ?m l" for a
    using span_link [OF H _ that span_heap_struct [OF c] dis] by blast
  have ua: "unat ?a = unat l - 4 + unat nb"
  proof -
    have "8 < unat l" "unat l + unat ?n \<le> 2 ^ 32" using c by (simp_all add: chunk_ok_def)
    with nb(3) cw(1) show ?thesis by (simp add: unat_add_small)
  qed
  then have as: "unat ?a \<in> span ?m l" using nb by (simp add: span_def)
  have al: "word_al ?a" using cw(5) aligned_mono [OF _ nb(1), of 2] by (simp add: aligned_add)
  have aA: "?a \<in> A" using c nb by (auto simp: chunk_ok_def ua intro!: insideD)
  have nohd: "x \<noteq> p - 4" if "unat x \<in> span ?m l" "p \<in> set ls" for x p
  proof -
    have "unat (p - 4) \<in> span ?m p" using H that(2) by (auto simp: heap_inv_def intro: chunk_words(6))
    with dis [OF that(2)] that(1) show ?thesis by auto
  qed
  obtain s1 where s1: "vst ?a (?n - nb) s = Inr ((), s1)" "heap_inv A heap ls s1" "vm A s1 = st32 ?m ?a (?n - nb)"
    using heap_inv_write [OF H al aA out [OF as]] nohd [OF as] by blast
  have keep1: "node_size (vm A s1) p = node_size ?m p" if "p \<in> insert l (set ls)" for p
  proof -
    have "?a \<noteq> l - 4" using ua cw(1) nb(2) by auto
    then have "?a \<noteq> p - 4" using nohd [OF as] that by auto
    moreover have "word_al (p - 4)" using that cw(5) heap_inv_header(1) [OF H] by auto
    ultimately show ?thesis using al by (simp add: s1(3) node_size_def bytes.rd_wr)
  qed
  have sz: "node_size (vm A s1) (l + nb) = ?n - nb"
  proof -
    have e: "l + nb - 4 = ?a" by simp
    have "aligned 3 (?n - nb)" by (intro aligned_minus nb(1)) (simp add: node_size_def)
    then show ?thesis unfolding node_size_def s1(3) e by (simp add: chunksize_id)
  qed
  note c2 = split_chunk(1) [OF c nb(1,3) sz] and sp2 = split_chunk(3) [OF c nb(1,3) sz]
  have d2: "span (vm A s1) (l + nb) \<inter> span (vm A s1) p = {}" if "p \<in> set ls" for p
  proof -
    have "span (vm A s1) p = span ?m p" using keep1 that by (simp add: span_def)
    moreover have "span (vm A s1) (l + nb) \<subseteq> span ?m l" unfolding sp2 by (auto simp: span_def)
    ultimately show ?thesis using dis [OF that] by blast
  qed
  let ?ls = "insert_sized (vm A s1) (l + nb) ls"
  obtain s2 where s2: "insertChunk (l + nb - 8) heap s1 = Inr ((), s2)" "heap_inv A heap ?ls s2"
    "\<And>p. p \<in> insert (l + nb) (set ls) \<Longrightarrow> node_size (vm A s2) p = node_size (vm A s1) p"
    "\<And>a. word_al a \<Longrightarrow> a \<notin> links heap ((l + nb) # ls) \<Longrightarrow> ld32 (vm A s2) a = ld32 (vm A s1) a"
    using insertChunk_inv [OF s1(2) c2 d2] by blast
  have in2: "l + nb \<in> set ?ls" by simp
  have hl: "l - 4 \<notin> links heap ((l + nb) # ls)"
  proof -
    have "unat (l - 4) < unat (l + nb)" "unat (l - 4) < unat (l + nb + 4)"
      using cw(1) chunk_words(7,8) [OF c2] nb(2) unfolding sp2 by auto
    then have "l - 4 \<noteq> l + nb" "l - 4 \<noteq> l + nb + 4" by (metis less_irrefl)+
    with out [OF cw(6)] show ?thesis by (auto simp: links_def)
  qed
  have set: "links heap ?ls = links heap ((l + nb) # ls)" by (simp add: links_def)
  have "p \<noteq> l" if "p \<in> set ?ls" for p
  proof (cases "p = l + nb")
    case True
    then show ?thesis using chunk_words(7) [OF c2] nb(2) unfolding sp2 by auto
  next
    case False
    then show ?thesis using that dis [of p] cw(7) by auto
  qed
  moreover have e: "l - 4 + nb = (l + nb) - 4" by simp
  moreover have "l - 4 + nb \<in> A" "l - 4 + nb \<notin> links heap ?ls" unfolding e using heap_inv_header [OF s2(2) in2] by blast+
  moreover have "nb \<noteq> 0" using nb(2) by auto
  ultimately obtain s3 where s3: "set_inuse (l - 8) nb s2 = Inr ((), s3)" "heap_inv A heap ?ls s3"
    "\<And>p. p \<in> set ?ls \<Longrightarrow> node_size (vm A s3) p = node_size (vm A s2) p"
    "ld32 (vm A s3) (l - 4) = (ld32 (vm A s2) (l - 4) AND PINUSE_BIT) OR CINUSE_BIT OR nb"
    using set_inuse_inv [OF s2(2) nb(1) cw(5,9)] hl unfolding set by blast
  have "ld32 (vm A s2) (l - 4) = ld32 ?m (l - 4)"
  proof -
    have "?a \<noteq> l - 4" using ua cw(1) nb(2) by auto
    then show ?thesis using s2(4) [OF cw(5) hl] al cw(5) by (simp add: s1(3) bytes.rd_wr)
  qed
  moreover have "span (vm A s3) p = span (vm A s1) p" if "p \<in> insert (l + nb) (set ls)" for p
    using s3(3) [of p] s2(3) [OF that] that by (simp add: span_def)
  moreover have "span (vm A s1) p = span ?m p" if "p \<in> set ls" for p using keep1 that by (simp add: span_def)
  ultimately show ?thesis using s1(1) s2(1) s3 sp2 by (intro exI [of _ s1] exI [of _ s2] exI [of _ s3] exI [of _ ?ls]) (simp add: free_space_def)
qed

lemma alloc_take_inv:
  assumes H: "heap_inv A heap (as @ l # bs) s" and nb: "aligned 3 nb" "0 < unat nb" "nb \<le> node_size (vm A s) l"
  shows "\<exists>s' ls' n. alloc_take nb (l - 8) heap s = Inr (l, s') \<and> heap_inv A heap ls' s' \<and> nb \<le> n \<and>
    n \<le> node_size (vm A s) l \<and>
    ld32 (vm A s') (l - 4) = (ld32 (vm A s) (l - 4) AND PINUSE_BIT) OR CINUSE_BIT OR n \<and>
    free_space (vm A s') ls' = free_space (vm A s) (as @ l # bs) - {unat l - 4 ..< unat l - 4 + unat n}"
proof -
  let ?m = "vm A s" and ?n = "node_size (vm A s) l"
  have c: "chunk_ok A heap ?m l" using H by (simp add: heap_inv_def)
  note cw = chunk_words [OF c] and dis = disjoint_members(1) [OF H]
  obtain s1 where s1: "removeChunk (l - 8) s = Inr ((), s1)" "heap_inv A heap (as @ bs) s1"
    "\<And>a. word_al a \<Longrightarrow> a \<notin> links heap (as @ l # bs) \<Longrightarrow> ld32 (vm A s1) a = ld32 ?m a"
    using removeChunk_inv [OF H] by blast
  have hd: "ld32 (vm A s1) (p - 4) = ld32 ?m (p - 4)" if "p \<in> set (as @ l # bs)" for p
    using s1(3) heap_inv_header [OF H that] by blast
  then have n1: "node_size (vm A s1) p = node_size ?m p" "span (vm A s1) p = span ?m p"
    "chunk_ok A heap (vm A s1) p = chunk_ok A heap ?m p" if "p \<in> set (as @ l # bs)" for p
    using hd [OF that] by (simp_all add: span_def node_size_def chunk_ok_def)
  have c1: "chunk_ok A heap (vm A s1) l" "\<And>p. p \<in> set (as @ bs) \<Longrightarrow> span (vm A s1) l \<inter> span (vm A s1) p = {}"
    using c dis n1 by simp_all
  have rd: "vld (l - 4) s = Inr (ld32 ?m (l - 4), s)" "vld (l - 4) s1 = Inr (ld32 ?m (l - 4), s1)"
    using vld_inv [OF H cw(5,9)] vld_inv [OF s1(2) cw(5,9)] hd [of l] by simp_all
  have sz: "chunksize (ld32 ?m (l - 4)) = ?n" by (simp add: node_size_def)
  have fs: "free_space (vm A s1) (as @ bs) = free_space ?m (as @ l # bs) - {unat l - 4 ..< unat l - 4 + unat ?n}"
  proof -
    have "free_space (vm A s1) (as @ bs) = free_space ?m (as @ bs)" using n1 by (simp add: free_space_def)
    moreover have "free_space ?m (as @ bs) \<inter> span ?m l = {}" using dis by (auto simp: free_space_def)
    ultimately show ?thesis by (auto simp: free_space_def span_def [of _ l])
  qed
  have lim: "unat (nb + 16) = unat nb + 16"
    using chunk_below [OF c] H nb(3) by (simp add: heap_inv_def word_le_nat_alt unat_add_small)
  show ?thesis
  proof (cases "nb + 16 \<le> ?n")
    case True
    then have "unat nb + 16 \<le> unat (node_size (vm A s1) l)" using lim n1 by (simp add: word_le_nat_alt)
    from take_split [OF s1(2) c1 nb(1,2) this] obtain s2 s3 s4 ls'
      where t: "vst (l - 4 + nb) (?n - nb) s1 = Inr ((), s2)" "insertChunk (l + nb - 8) heap s2 = Inr ((), s3)"
      "set_inuse (l - 8) nb s3 = Inr ((), s4)" "heap_inv A heap ls' s4"
      "ld32 (vm A s4) (l - 4) = (ld32 ?m (l - 4) AND PINUSE_BIT) OR CINUSE_BIT OR nb"
      "free_space (vm A s4) ls' = {unat l - 4 + unat nb ..< unat l - 4 + unat ?n} \<union> free_space (vm A s1) (as @ bs)"
      using n1 [of l] hd [of l] by auto
    have e: "l + nb - 4 = l - 4 + nb" "l - 8 + nb = l + nb - 8" by simp_all
    have "vst (l + nb - 4) (?n - nb) s1 = Inr ((), s2)" "insertChunk (l - 8 + nb) heap s2 = Inr ((), s3)"
      unfolding e by (rule t(1), rule t(2))
    then have "alloc_take nb (l - 8) heap s = Inr (l, s4)"
      using rd s1(1) t(3) True nb(3) by (simp add: alloc_take_def sbind_def sthen_def sz chunk2mem_def)
    moreover have "free_space (vm A s4) ls' = free_space ?m (as @ l # bs) - {unat l - 4 ..< unat l - 4 + unat nb}"
    proof -
      have "unat nb \<le> unat ?n" using nb(3) by (simp add: word_le_nat_alt)
      moreover have "{unat l - 4 ..< unat l - 4 + unat ?n} \<subseteq> free_space ?m (as @ l # bs)" by (auto simp: free_space_def span_def)
      ultimately show ?thesis unfolding t(6) fs by auto
    qed
    ultimately show ?thesis using t(4,5) nb(3) by blast
  next
    case False
    obtain s2 where s2: "set_inuse (l - 8) ?n s1 = Inr ((), s2)" "heap_inv A heap (as @ bs) s2"
      "ld32 (vm A s2) (l - 4) = (ld32 ?m (l - 4) AND PINUSE_BIT) OR CINUSE_BIT OR ?n"
      "free_space (vm A s2) (as @ bs) = free_space (vm A s1) (as @ bs)"
      using take_whole [OF s1(2) c1] n1 [of l] hd [of l] by auto
    have "alloc_take nb (l - 8) heap s = Inr (l, s2)"
      using rd s1(1) s2(1) False nb(3) by (simp add: alloc_take_def sbind_def sthen_def sz chunk2mem_def)
    then show ?thesis using s2(2-4) nb(3) unfolding fs by blast
  qed
qed

text \<open>
  \<open>alloc\<close> on a heap with a large enough free chunk: the first one of the list that is large enough
  is taken, which is the smallest such chunk because the list is sorted.
\<close>

lemma find_split: "List.find P xs = Some x \<Longrightarrow> \<exists>as bs. xs = as @ x # bs \<and> P x \<and> (\<forall>a \<in> set as. \<not> P a)"
proof (induction xs)
  case (Cons y ys)
  show ?case
  proof (cases "P y")
    case True
    with Cons.prems have "y # ys = [] @ x # ys" "P x" by simp_all
    then show ?thesis by (intro exI [of _ "[]"] exI [of _ ys]) simp
  next
    case False
    with Cons obtain as bs where "ys = as @ x # bs" "P x" "\<forall>a \<in> set as. \<not> P a" by auto
    with False show ?thesis by (intro exI [of _ "y # as"] exI [of _ bs]) simp
  qed
qed simp

lemma request2size_bounds:
  assumes "unat req + 12 \<le> 2 ^ 32"
  shows "unat req + 4 \<le> unat (request2size req)" "16 \<le> unat (request2size req)"
proof -
  have u: "unat (req + 11) = unat req + 11" using assms by (simp add: unat_add_small)
  have s: "unat ((req + 11) AND NOT (mask 3)) + unat ((req + 11) AND mask 3) = unat (req + 11)"
  proof -
    have "unat ((req + 11) AND NOT (mask 3)) = unat (req + 11) - unat ((req + 11) AND mask 3)"
      using mask_split [of "req + 11" 3] by (metis add_diff_cancel_right' unat_minus_small word_and_le1 word_and_le2 word_le_nat_alt)
    moreover have "unat ((req + 11) AND mask 3) \<le> unat (req + 11)"
      using word_and_le2 [of "req + 11" "mask 3"] by (simp add: word_le_nat_alt)
    ultimately show ?thesis by simp
  qed
  have m: "unat ((req + 11) AND mask 3) < 8"
    using and_mask_less' [of 3 "req + 11"] by (simp add: word_less_nat_alt)
  have "aligned 3 ((req + 11) AND NOT (mask 3))" by simp
  then have d: "8 dvd unat ((req + 11) AND NOT (mask 3))" by (simp add: aligned_dvd)
  have "req < 11 \<longleftrightarrow> unat req < 11" by (simp add: word_less_nat_alt)
  moreover have "pad_request req = (req + 11) AND NOT (mask 3)"
    by (simp add: pad_request_def mask_3 [symmetric] add.commute)
  ultimately show "unat req + 4 \<le> unat (request2size req)" "16 \<le> unat (request2size req)"
    using s m u d unfolding request2size_def by (auto elim!: dvdE)
qed

lemma alloc_inv:
  assumes H: "heap_inv A heap ls s" and f: "List.find (\<lambda>l. request2size sz \<le> node_size (vm A s) l) ls = Some l"
    and p: "0 < request2size sz"
  shows "\<exists>s' ls' n. alloc L sz heap s = Inr (l, s') \<and> heap_inv A heap ls' s' \<and> request2size sz \<le> n \<and>
    n \<le> node_size (vm A s) l \<and>
    ld32 (vm A s') (l - 4) = (ld32 (vm A s) (l - 4) AND PINUSE_BIT) OR CINUSE_BIT OR n \<and>
    free_space (vm A s') ls' = free_space (vm A s) ls - {unat l - 4 ..< unat l - 4 + unat n}"
proof -
  obtain as bs where ls: "ls = as @ l # bs" and n: "request2size sz \<le> node_size (vm A s) l"
    using find_split [OF f] by blast
  have "0 < unat (request2size sz)" using p by (simp add: word_less_nat_alt)
  from alloc_take_inv [OF H [unfolded ls] request2size_aligned this n] obtain s' ls' k
    where t: "alloc_take (request2size sz) (l - 8) heap s = Inr (l, s')" "heap_inv A heap ls' s'" "request2size sz \<le> k"
      "k \<le> node_size (vm A s) l" "ld32 (vm A s') (l - 4) = (ld32 (vm A s) (l - 4) AND PINUSE_BIT) OR CINUSE_BIT OR k"
      "free_space (vm A s') ls' = free_space (vm A s) ls - {unat l - 4 ..< unat l - 4 + unat k}"
    unfolding ls by blast
  have c: "chunk_ok A heap (vm A s) l" using H ls by (simp add: heap_inv_def)
  have "unat (l - 8) = unat l - 8" "8 < unat l" using c by (simp_all add: chunk_ok_def unat_minus_small)
  then have "l - 8 \<noteq> 0" by (metis unat_0 zero_less_diff nat_less_le)
  then have "alloc L sz heap s = Inr (l, s')"
    unfolding alloc_def using findSmallestChunk_list [OF heap_inv_free_list [OF H], of "request2size sz"] f t(1)
    by (subst sloop_unfold) (simp add: alloc_step_def sbind_def Let_def)
  with t show ?thesis by blast
qed


lemma best_fit:
  assumes so: "sorted (map f ls)" and fd: "List.find (\<lambda>l. k \<le> f l) ls = Some l" and "p \<in> set ls" "k \<le> f p"
  shows "f l \<le> (f p :: u32)"
proof -
  obtain as bs where "ls = as @ l # bs" "\<forall>a \<in> set as. \<not> k \<le> f a" using find_split [OF fd] by blast
  with assms show ?thesis by (auto simp: sorted_append)
qed

lemma cinuse_flags: "cinuse ((hw AND 1) OR 2 OR n)"
proof -
  have "bit (((hw AND 1) OR 2 OR n) AND 2) 1" by (simp add: bit_simps)
  then show ?thesis unfolding cinuse_def by auto
qed

lemma chunksize_flags: "chunksize ((hw AND 1) OR 2 OR n) = chunksize n"
proof (rule bit_word_eqI)
  fix i assume "i < LENGTH(32)"
  show "bit (chunksize ((hw AND 1) OR 2 OR n)) i = bit (chunksize n) i"
    by (cases "i < 3") (auto simp: chunksize_mask bit_simps)
qed

section \<open>Properties\<close>



text \<open>A heap of one free chunk of 128 bytes in the page \<open>0x200000\<close> of an identity mapped machine.\<close>

definition heap_words :: "u32 \<Rightarrow> u32" where
  "heap_words a =
     (if a = 0x101000 then 0x102007 else if a = 0x102800 then 0x200007
      else if a = 0x200014 \<or> a = 0x200018 then 0x200048
      else if a = 0x200044 then 0x81
      else if a = 0x200048 \<or> a = 0x20004C then 0x200014 else 0)"

definition heap_machine :: mstate where
  "heap_machine = demo_machine\<lparr>phys := words_mem heap_words, kernel_heap := 0x200000\<rparr>"

abbreviation (input) heap_page :: "u32 set" where
  "heap_page \<equiv> {v. frame v = 0x200000}"

lemma heap_page_mmu:
  assumes "ld32 m 0x101000 = 0x102007" "ld32 m 0x102800 = 0x200007" "frame v = 0x200000"
  shows "mmu (heap_machine\<lparr>phys := m\<rparr>) v = Some v"
proof -
  have f: "frame v = frame 0x200000" using assms(3) by (simp add: frame_def address_def)
  have "drop_bit 22 v = drop_bit 22 (0x200000 :: u32)" "drop_bit 12 v AND 0x3FF = drop_bit 12 0x200000 AND (0x3FF :: u32)"
    using f unfolding frame_eq_iff by simp_all
  moreover have "0x200000 + (v AND 0xFFF) = v"
    using mask_split [of v 12] assms(3) by (simp add: frame_eq mask_eq_exp_minus_1)
  ultimately show ?thesis using assms(1,2)
    by (simp add: mmu_def heap_machine_def demo_machine_def walk_def present_def frame_def address_def)
qed

lemma frame_word:
  assumes "word_al v" "k \<in> {0, 1, 2, 3}"
  shows "frame (v + k) = frame v"
proof -
  let ?o = "v AND mask 12"
  have "word_al ?o" using assms(1) by (auto simp: aligned_def bit_eq_iff bit_simps)
  then have "4 dvd unat ?o" by (simp add: aligned_dvd)
  moreover have o: "unat ?o < 4096" using and_mask_less' [of 12 v] by (simp add: word_less_nat_alt)
  ultimately have "unat ?o + 4 \<le> 4096" by (auto elim!: dvdE)
  moreover have k: "unat k \<le> 3" using assms(2) by auto
  ultimately have "?o + k < 4096" using unat_add_small [of ?o k] by (simp add: word_less_nat_alt)
  moreover have "v + k = frame v + (?o + k)" using mask_split [of v 12] by (simp add: frame_eq add.assoc [symmetric])
  ultimately show ?thesis using frame_add [OF frame_aligned, of "?o + k" v] by (simp only:)
qed

lemma heap_machine_words:
  "word_al a \<Longrightarrow> ld32 (phys heap_machine) a = heap_words a"
  by (simp add: heap_machine_def ld32_words_mem)

lemma heap_machine_mmu: "frame v = 0x200000 \<Longrightarrow> mmu heap_machine v = Some v"
proof -
  assume "frame v = 0x200000"
  moreover have "heap_machine\<lparr>phys := phys heap_machine\<rparr> = heap_machine" by simp
  ultimately show ?thesis using heap_page_mmu [of "phys heap_machine" v] by (simp add: heap_machine_words) (simp add: heap_words_def)
qed

lemma heap_region: "region heap_page heap_machine"
  unfolding region_def
proof (intro conjI allI impI ballI)
  show "inj_on (mmu heap_machine) heap_page" by (auto simp: inj_on_def heap_machine_mmu)
  show "mmu heap_machine v \<noteq> None" if "v \<in> heap_page" for v using that by (simp add: heap_machine_mmu)
  fix v p k assume "word_al v" "v \<in> heap_page" "mmu heap_machine v = Some p" "k \<in> {0, 1, 2, 3 :: u32}"
  then show "v + k \<in> heap_page" "mmu heap_machine (v + k) = Some (p + k)"
    using frame_word [of v k] heap_machine_mmu [of v] heap_machine_mmu [of "v + k"] by simp_all
next
  fix m v assume m: "\<forall>p. Some p \<notin> mmu heap_machine ` heap_page \<longrightarrow> m p = phys heap_machine p" and v: "v \<in> heap_page"
  have out: "m p = phys heap_machine p" if "frame p \<noteq> 0x200000" for p
    using m that by (auto simp: heap_machine_mmu)
  have "ld32 m 0x101000 = ld32 (phys heap_machine) 0x101000" "ld32 m 0x102800 = ld32 (phys heap_machine) 0x102800"
    by (simp_all add: ld32_def out frame_def address_def)
  then have "ld32 m 0x101000 = 0x102007" "ld32 m 0x102800 = 0x200007"
    by (simp_all add: heap_machine_words) (simp_all add: heap_words_def)
  with v heap_page_mmu [of m v] heap_machine_mmu [of v] show "mmu (heap_machine\<lparr>phys := m\<rparr>) v = mmu heap_machine v" by simp
qed

lemma heap_machine_vm: "word_al a \<Longrightarrow> frame a = 0x200000 \<Longrightarrow> ld32 (vm heap_page heap_machine) a = heap_words a"
  using vld_region [OF heap_region, of a] heap_machine_mmu [of a]
  by (simp add: vld_def heap_machine_words)

lemma heap_machine_vals:
  "ld32 (vm heap_page heap_machine) 0x200014 = 0x200048" "ld32 (vm heap_page heap_machine) 0x200018 = 0x200048"
  "ld32 (vm heap_page heap_machine) 0x200044 = 0x81" "ld32 (vm heap_page heap_machine) 0x200048 = 0x200014"
  "ld32 (vm heap_page heap_machine) 0x20004C = 0x200014"
proof -
  have "frame 0x200014 = 0x200000" "frame 0x200018 = 0x200000" "frame 0x200044 = 0x200000"
    "frame 0x200048 = 0x200000" "frame 0x20004C = 0x200000"
    by (simp_all add: frame_def address_def)
  then show "ld32 (vm heap_page heap_machine) 0x200014 = 0x200048" "ld32 (vm heap_page heap_machine) 0x200018 = 0x200048"
    "ld32 (vm heap_page heap_machine) 0x200044 = 0x81" "ld32 (vm heap_page heap_machine) 0x200048 = 0x200014"
    "ld32 (vm heap_page heap_machine) 0x20004C = 0x200014"
    by (simp_all add: heap_machine_vm) (simp_all add: heap_words_def)
qed

lemma page_inside: "N \<subseteq> {0x200000 ..< 0x201000} \<Longrightarrow> inside heap_page N"
proof -
  assume N: "N \<subseteq> {0x200000 ..< 0x201000}"
  have "frame a = 0x200000" if "unat a \<in> N" for a
  proof -
    have b: "0x200000 \<le> unat a" "unat a < 0x201000" using that N by auto
    then have "unat (a - 0x200000) = unat a - 0x200000" by (simp add: unat_minus_small)
    with b have "a - 0x200000 < 4096" by (simp add: word_less_nat_alt)
    from frame_add [OF _ this, of "0x200000"] show ?thesis by simp
  qed
  then show ?thesis by (simp add: inside_def)
qed

lemma heap_machine_size: "node_size (vm heap_page heap_machine) 0x200048 = 0x80"
  by (simp add: node_size_def heap_machine_vals chunksize_def)

lemma heap_machine_inv: "heap_inv heap_page 0x200000 [0x200048] heap_machine"
proof -
  have "dlist (vm heap_page heap_machine) 0x200014 [0x200048]"
    by (simp add: dlist_def nodes_ok_def apart_def fields heap_machine_vals)
  moreover have "chunk_ok heap_page 0x200000 (vm heap_page heap_machine) 0x200048"
  proof -
    have "inside heap_page {0x200044 ..< 0x2000C8}" by (rule page_inside) auto
    then show ?thesis by (simp add: chunk_ok_def heap_machine_size heap_struct_def)
  qed
  moreover have "inside heap_page (heap_struct 0x200000)" by (rule page_inside) (auto simp: heap_struct_def)
  ultimately show ?thesis using heap_region by (simp add: heap_inv_def)
qed


end
