(* ===== verification/Heap_Free.thy ===== *)
theory Heap_Free
  imports Heap_Alloc
begin

unbundle bit_operations_syntax

text \<open>
  Correctness of \<open>kfree\<close> on a block whose predecessor is in use and that is not the last of the heap:
  the path that the code takes for every such block, because the test for the following chunk is
  inverted. The block becomes a free chunk of its own.
\<close>

section \<open>A block in use\<close>

text \<open>
  A block, by its user address \<open>l\<close>: a well-formed chunk apart from the free ones, with both flags set,
  between the ends of the heap.
\<close>

definition used_block :: "u32 set \<Rightarrow> u32 \<Rightarrow> u32 list \<Rightarrow> mstate \<Rightarrow> u32 \<Rightarrow> bool" where
  "used_block A heap ls s l \<longleftrightarrow> chunk_ok A heap (vm A s) l \<and>
     (\<forall>p \<in> set ls. span (vm A s) l \<inter> span (vm A s) p = {}) \<and>
     pinuse (ld32 (vm A s) (l - 4)) \<and> cinuse (ld32 (vm A s) (l - 4)) \<and>
     unat (ld32 (vm A s) heap) + 8 \<le> unat l \<and> unat l + unat (node_size (vm A s) l) < unat (ld32 (vm A s) (heap + 4)) + 8"

lemma cinuse_ok: "cinuse hw \<Longrightarrow> ok_inuse hw"
proof -
  have "hw AND 2 = (hw AND (1 OR 2)) AND 2" by (rule bit_word_eqI) (auto simp: bit_simps)
  then show "cinuse hw \<Longrightarrow> ok_inuse hw" unfolding cinuse_def ok_inuse_def by auto
qed

lemma heap_ends:
  assumes H: "heap_inv A heap ls s"
  shows "vld heap s = Inr (ld32 (vm A s) heap, s)" "vld (heap + 4) s = Inr (ld32 (vm A s) (heap + 4), s)"
proof -
  have w: "word_al heap" "unat heap + 28 \<le> 2 ^ 32" "inside A (heap_struct heap)" using H by (simp_all add: heap_inv_def)
  then have "heap \<in> A" "heap + 4 \<in> A" by (auto intro!: insideD simp: heap_struct_def unat_add_small)
  with w(1) show "vld heap s = Inr (ld32 (vm A s) heap, s)" "vld (heap + 4) s = Inr (ld32 (vm A s) (heap + 4), s)"
    using vld_inv [OF H] by (simp_all add: aligned_add)
qed

lemma ok_address_eq:
  assumes "heap_inv A heap ls s"
  shows "ok_address p heap s = Inr (ld32 (vm A s) heap \<le> p \<and> p < ld32 (vm A s) (heap + 4), s)"
  using heap_ends [OF assms] by (simp add: ok_address_def sbind_def)

text \<open>Words of the block can be written without harm to the free list.\<close>

lemma used_write:
  assumes H: "heap_inv A heap ls s" and c: "chunk_ok A heap m l" and dis: "\<forall>p \<in> set ls. span m l \<inter> span (vm A s) p = {}"
    and a: "word_al a" "unat a \<in> span m l"
  shows "\<exists>s'. vst a x s = Inr ((), s') \<and> heap_inv A heap ls s' \<and> vm A s' = st32 (vm A s) a x"
proof (rule heap_inv_write [OF H a(1)])
  show "a \<in> A" using c a(2) by (auto simp: chunk_ok_def span_def intro: insideD)
  show "a \<notin> links heap ls" using span_link [OF H _ a(2) span_heap_struct [OF c]] dis by blast
  show "chunksize x = node_size (vm A s) p" if "p \<in> set ls" "a = p - 4" for p
  proof -
    have "chunk_ok A heap (vm A s) p" using H that(1) by (simp add: heap_inv_def)
    then show ?thesis using chunk_words(6) dis a(2) that by blast
  qed
qed

section \<open>Release\<close>

lemma block_words:
  assumes "used_block A heap ls s l"
  defines "n \<equiv> node_size (vm A s) l"
  shows "unat (l - 8 + n) = unat l - 8 + unat n" "unat (l - 8 + n) \<in> span (vm A s) l" "word_al (l - 8 + n)" "l - 8 \<noteq> 0" "n \<noteq> 0"
    and "ld32 (vm A s) heap \<le> l" "l < ld32 (vm A s) (heap + 4)" "ld32 (vm A s) heap \<le> l - 8 + n" "l - 8 + n < ld32 (vm A s) (heap + 4)"
proof -
  have c: "aligned 3 l" "8 < unat l" "16 \<le> unat n" "unat l + unat n \<le> 2 ^ 32"
    and b: "unat (ld32 (vm A s) heap) + 8 \<le> unat l" "unat l + unat n < unat (ld32 (vm A s) (heap + 4)) + 8"
    using assms(1) by (simp_all add: used_block_def chunk_ok_def n_def)
  have m: "unat (l - 8) = unat l - 8" using c(2) by (simp add: unat_minus_small)
  show u: "unat (l - 8 + n) = unat l - 8 + unat n" using m c by (simp add: unat_add_small)
  show "unat (l - 8 + n) \<in> span (vm A s) l" using c by (auto simp: u span_def n_def [symmetric])
  have "aligned 3 n" by (simp add: n_def node_size_def)
  then have "aligned 3 (l - 8 + n)" using aligned_minus [OF c(1), of 8] aligned_add [of 3 "l - 8" n] by simp
  then show "word_al (l - 8 + n)" by (rule aligned_mono [rotated]) simp
  show "l - 8 \<noteq> 0" using m c(2) by auto
  show "n \<noteq> 0" using c(3) by auto
  show "ld32 (vm A s) heap \<le> l" "l < ld32 (vm A s) (heap + 4)" "ld32 (vm A s) heap \<le> l - 8 + n" "l - 8 + n < ld32 (vm A s) (heap + 4)"
    using b c by (simp_all add: word_le_nat_alt word_less_nat_alt u)
qed

text \<open>The two stores that make the block a free chunk of the same size.\<close>

lemma release_stores:
  assumes H: "heap_inv A heap ls s" and U: "used_block A heap ls s l"
  defines "n \<equiv> node_size (vm A s) l"
  shows "\<exists>t. sthen (set_foot (l - 8) n) (set_size_and_pinuse (l - 8) n) s = Inr ((), t) \<and> heap_inv A heap ls t \<and>
    (\<forall>p \<in> insert l (set ls). node_size (vm A t) p = node_size (vm A s) p) \<and>
    (\<forall>a. word_al a \<and> unat a \<notin> span (vm A s) l \<longrightarrow> ld32 (vm A t) a = ld32 (vm A s) a)"
proof -
  let ?f = "l - 8 + n"
  have c: "chunk_ok A heap (vm A s) l" and dis: "\<forall>p \<in> set ls. span (vm A s) l \<inter> span (vm A s) p = {}"
    using U by (simp_all add: used_block_def)
  note w = block_words [OF U, folded n_def]
  note cw = chunk_words [OF c]
  obtain s1 where s1: "vst ?f n s = Inr ((), s1)" "heap_inv A heap ls s1" "vm A s1 = st32 (vm A s) ?f n"
    using used_write [OF H c dis w(3,2)] by blast
  have sz1: "node_size (vm A s1) p = node_size (vm A s) p" if "p \<in> set ls" for p
  proof -
    have "chunk_ok A heap (vm A s) p" using H that by (simp add: heap_inv_def)
    note pw = chunk_words [OF this]
    have "p - 4 \<noteq> ?f" using pw(6) w(2) dis that by (metis IntI empty_iff)
    then show ?thesis using pw(5) w(3) by (simp add: s1(3) node_size_def bytes.rd_wr)
  qed
  have dis1: "\<forall>p \<in> set ls. span (vm A s) l \<inter> span (vm A s1) p = {}" using dis sz1 by (simp add: span_def)
  obtain t where t: "vst (l - 4) (n OR 1) s1 = Inr ((), t)" "heap_inv A heap ls t" "vm A t = st32 (vm A s1) (l - 4) (n OR 1)"
    using used_write [OF s1(2) c dis1 cw(5,6)] by blast
  have fr: "ld32 (vm A t) a = ld32 (vm A s) a" if "word_al a" "unat a \<notin> span (vm A s) l" for a
  proof -
    have "a \<noteq> l - 4" "a \<noteq> ?f" using that(2) cw(6) w(2) by auto
    then show ?thesis using that(1) cw(5) w(3) by (simp add: t(3) s1(3) bytes.rd_wr)
  qed
  have "node_size (vm A t) l = n" using cw(5) by (simp add: t(3) node_size_def n_def chunksize_id)
  moreover have "node_size (vm A t) p = node_size (vm A s) p" if "p \<in> set ls" for p
  proof -
    have "chunk_ok A heap (vm A s) p" using H that by (simp add: heap_inv_def)
    note pw = chunk_words(5,6) [OF this]
    have "unat (p - 4) \<notin> span (vm A s) l" using pw(2) dis that by blast
    then show ?thesis using fr pw(1) by (simp add: node_size_def)
  qed
  moreover have "sthen (set_foot (l - 8) n) (set_size_and_pinuse (l - 8) n) s = Inr ((), t)"
    using s1(1) t(1) by (simp add: set_foot_def set_size_and_pinuse_def sthen_def sbind_def)
  ultimately show ?thesis using t(2) fr by (intro exI [of _ t]) (auto simp: n_def)
qed

lemma free_chunk_inv:
  assumes H: "heap_inv A heap ls s" and U: "used_block A heap ls s l"
  shows "\<exists>s'. free_chunk L l heap s = Inr ((), s') \<and> heap_inv A heap (insert_sized (vm A s) l ls) s' \<and>
    (\<forall>p \<in> insert l (set ls). node_size (vm A s') p = node_size (vm A s) p) \<and>
    (\<forall>a. word_al a \<and> unat a \<notin> span (vm A s) l \<and> a \<notin> links heap (l # ls) \<longrightarrow> ld32 (vm A s') a = ld32 (vm A s) a)"
proof -
  let ?n = "node_size (vm A s) l" and ?hw = "ld32 (vm A s) (l - 4)"
  have c: "chunk_ok A heap (vm A s) l" and dis: "\<forall>p \<in> set ls. span (vm A s) l \<inter> span (vm A s) p = {}" and f: "pinuse ?hw" "cinuse ?hw"
    using U by (simp_all add: used_block_def)
  note w = block_words [OF U] and cw = chunk_words [OF c]
  obtain t where t: "sthen (set_foot (l - 8) ?n) (set_size_and_pinuse (l - 8) ?n) s = Inr ((), t)" "heap_inv A heap ls t"
    "\<forall>p \<in> insert l (set ls). node_size (vm A t) p = node_size (vm A s) p"
    "\<forall>a. word_al a \<and> unat a \<notin> span (vm A s) l \<longrightarrow> ld32 (vm A t) a = ld32 (vm A s) a"
    using release_stores [OF H U] by blast
  have "chunk_ok A heap (vm A t) l" "\<And>p. p \<in> set ls \<Longrightarrow> span (vm A t) l \<inter> span (vm A t) p = {}"
    using c dis t(3) by (simp_all add: chunk_ok_def span_def)
  then obtain s' where s': "insertChunk (l - 8) heap t = Inr ((), s')" "heap_inv A heap (insert_sized (vm A t) l ls) s'"
    "\<forall>p \<in> insert l (set ls). node_size (vm A s') p = node_size (vm A t) p"
    "\<forall>a. word_al a \<longrightarrow> a \<notin> links heap (l # ls) \<longrightarrow> ld32 (vm A s') a = ld32 (vm A t) a"
    using insertChunk_inv [OF t(2)] by blast
  have same: "insert_sized (vm A t) l ls = insert_sized (vm A s) l ls"
    unfolding insert_sized_def using t(3) by (simp cong: takeWhile_cong dropWhile_cong)
  obtain u where u: "set_foot (l - 8) ?n s = Inr ((), u)" "set_size_and_pinuse (l - 8) ?n u = Inr ((), t)"
    using t(1) by (auto simp: sthen_eq_Inr)
  have hw: "vld (l - 4) s = Inr (?hw, s)" using vld_inv [OF H] cw by simp
  have run: "free_chunk L l heap s = Inr ((), s')"
    unfolding free_chunk_def
    using cw(3) w(4-9) less_imp_neq [OF w(9)] f cinuse_ok [OF f(2)] hw u s'(1) ok_address_eq [OF H] heap_ends [OF H]
    by (simp add: sbind_def sthen_def free_next_def mem2chunk_def node_size_def Let_def)
  have "ld32 (vm A s') a = ld32 (vm A s) a" if "word_al a" "unat a \<notin> span (vm A s) l" "a \<notin> links heap (l # ls)" for a
    using s'(4) t(4) that by simp
  with run s'(2,3) t(3) show ?thesis unfolding same by (intro exI [of _ s']) simp
qed

section \<open>Property\<close>



end
