(* ===== verification/Dt.thy ===== *)
theory Dt
  imports Prelude
begin

unbundle bit_operations_syntax

text \<open>
  Descriptor tables: \<^verbatim>\<open>src/int/gdt.c\<close>, \<^verbatim>\<open>src/int/idt.c\<close>, the structures of \<^verbatim>\<open>include/int/\<close> and
  the task state segment of \<^verbatim>\<open>include/sys/tss.h\<close>. Tables are lists of entry records; an index
  outside a table is the error \<open>OutOfBounds\<close>. The decoding functions \<open>gdt_base\<close>, \<open>gdt_limit\<close> and
  \<open>idt_base\<close> read an entry the way the processor does; the theorems say that what was packed is
  what the processor sees. Loading the table registers (\<open>lgdt\<close>, \<open>lidt\<close>, \<open>ltr\<close>) is assembly.
\<close>

section \<open>Segments\<close>

abbreviation (input) PL_RING0 :: u32 where "PL_RING0 \<equiv> 0"
abbreviation (input) PL_RING3 :: u32 where "PL_RING3 \<equiv> 3"
abbreviation (input) DESC_KERNEL_CODE :: u32 where "DESC_KERNEL_CODE \<equiv> 1"
abbreviation (input) DESC_KERNEL_DATA :: u32 where "DESC_KERNEL_DATA \<equiv> 2"
abbreviation (input) DESC_USER_CODE :: u32 where "DESC_USER_CODE \<equiv> 3"
abbreviation (input) DESC_USER_DATA :: u32 where "DESC_USER_DATA \<equiv> 4"
abbreviation (input) DESC_TSS :: u32 where "DESC_TSS \<equiv> 5"

definition DESC_SEG :: "u32 \<Rightarrow> u32 \<Rightarrow> u32" where
  "DESC_SEG n cpl = (8 * n) OR cpl"

section \<open>The global descriptor table\<close>

record gdt_entry =
  limit_low :: u16
  base_low :: u16
  base_middle :: u8
  access :: u8
  limit_high :: "4 word"
  gflags :: "4 word"
  base_high :: u8

abbreviation (input) GDT_ENTRIES :: nat where "GDT_ENTRIES \<equiv> 6"

definition null_entry :: gdt_entry where
  "null_entry = \<lparr>limit_low = 0, base_low = 0, base_middle = 0, access = 0, limit_high = 0, gflags = 0, base_high = 0\<rparr>"

definition pack_access :: "u32 \<Rightarrow> u32 \<Rightarrow> u32 \<Rightarrow> u32 \<Rightarrow> u32 \<Rightarrow> u32 \<Rightarrow> u8" where
  "pack_access A RW DC E DPL P = ucast ((A AND 1) OR push_bit 1 (RW AND 1) OR push_bit 2 (DC AND 1) OR
     push_bit 3 (E AND 1) OR push_bit 4 1 OR push_bit 5 (DPL AND 3) OR push_bit 7 (P AND 1))"

definition pack_access_system :: "u32 \<Rightarrow> u32 \<Rightarrow> u32 \<Rightarrow> u8" where
  "pack_access_system T DPL P = ucast ((T AND 0xF) OR push_bit 5 (DPL AND 3) OR push_bit 7 (P AND 1))"

definition pack_flags :: "u32 \<Rightarrow> u32 \<Rightarrow> u32 \<Rightarrow> u8" where
  "pack_flags A DB G = ucast ((A AND 1) OR push_bit 2 (DB AND 1) OR push_bit 3 (G AND 1))"

type_synonym gdt_table = "gdt_entry list"

definition gdt_edit :: "nat \<Rightarrow> (gdt_entry \<Rightarrow> gdt_entry) \<Rightarrow> (gdt_table, unit) op" where
  "gdt_edit num f t = (if num < length t then Inr ((), t[num := f (t ! num)]) else Inl (OutOfBounds num))"

definition gdt_set_gate_base :: "nat \<Rightarrow> u32 \<Rightarrow> (gdt_table, unit) op" where
  "gdt_set_gate_base num base = gdt_edit num (\<lambda>e. e\<lparr>
     base_low := ucast (base AND 0xFFFF),
     base_middle := ucast (drop_bit 16 base AND 0xFF),
     base_high := ucast (drop_bit 24 base AND 0xFF)\<rparr>)"

definition gdt_set_gate_limit :: "nat \<Rightarrow> u32 \<Rightarrow> (gdt_table, unit) op" where
  "gdt_set_gate_limit num limit = gdt_edit num (\<lambda>e. e\<lparr>
     limit_low := ucast (limit AND 0xFFFF), limit_high := ucast (drop_bit 16 limit AND 0xF)\<rparr>)"

definition gdt_set_gate_flags :: "nat \<Rightarrow> u8 \<Rightarrow> (gdt_table, unit) op" where
  "gdt_set_gate_flags num fl = gdt_edit num (\<lambda>e. e\<lparr>gflags := ucast fl\<rparr>)"

definition gdt_set_gate_access :: "nat \<Rightarrow> u8 \<Rightarrow> (gdt_table, unit) op" where
  "gdt_set_gate_access num acc = gdt_edit num (\<lambda>e. e\<lparr>access := acc\<rparr>)"

definition gdt_set_gate_type :: "nat \<Rightarrow> u8 \<Rightarrow> (gdt_table, unit) op" where
  "gdt_set_gate_type num type = gdt_edit num (\<lambda>e. e\<lparr>access := (access e AND NOT 0x0F) OR (type AND 0x0F)\<rparr>)"

definition gdt_set_gate :: "nat \<Rightarrow> u32 \<Rightarrow> u32 \<Rightarrow> u8 \<Rightarrow> u8 \<Rightarrow> (gdt_table, unit) op" where
  "gdt_set_gate num base limit acc fl =
     sthen (gdt_set_gate_base num base)
    (sthen (gdt_set_gate_limit num limit)
    (sthen (gdt_set_gate_flags num fl)
           (gdt_set_gate_access num acc)))"

definition gdt_init :: "(gdt_table, unit) op" where
  "gdt_init =
     sthen (gdt_set_gate 0 0 0 0 0)
    (sthen (gdt_set_gate (unat DESC_KERNEL_CODE) 0 0xFFFFFFFF (pack_access 0 1 0 1 PL_RING0 1) (pack_flags 0 1 1))
    (sthen (gdt_set_gate (unat DESC_KERNEL_DATA) 0 0xFFFFFFFF (pack_access 0 1 0 0 PL_RING0 1) (pack_flags 0 1 1))
    (sthen (gdt_set_gate (unat DESC_USER_CODE) 0 0xFFFFFFFF (pack_access 0 1 0 1 PL_RING3 1) (pack_flags 0 1 1))
    (sthen (gdt_set_gate (unat DESC_USER_DATA) 0 0xFFFFFFFF (pack_access 0 1 0 0 PL_RING3 1) (pack_flags 0 1 1))
           (gdt_set_gate (unat DESC_TSS) 0 0x68 (pack_access_system 0x9 PL_RING3 1) (pack_flags 0 1 1))))))"

text \<open>What the processor reads from an entry.\<close>

definition gdt_base :: "gdt_entry \<Rightarrow> u32" where
  "gdt_base e = ucast (base_low e) OR push_bit 16 (ucast (base_middle e)) OR push_bit 24 (ucast (base_high e))"

definition gdt_limit :: "gdt_entry \<Rightarrow> u32" where
  "gdt_limit e = ucast (limit_low e) OR push_bit 16 (ucast (limit_high e))"

definition gdt_dpl :: "gdt_entry \<Rightarrow> u8" where
  "gdt_dpl e = drop_bit 5 (access e) AND 3"

definition gdt_present :: "gdt_entry \<Rightarrow> bool" where
  "gdt_present e = bit (access e) 7"

definition gdt_executable :: "gdt_entry \<Rightarrow> bool" where
  "gdt_executable e \<longleftrightarrow> bit (access e) 4 \<and> bit (access e) 3"

section \<open>Interrupt gates\<close>

record idt_entry =
  gate_low :: u16
  sel :: u16
  always0 :: u8
  iflags :: u8
  gate_high :: u16

abbreviation (input) IDT_ENTRIES :: nat where "IDT_ENTRIES \<equiv> 256"

definition idt_pack_flags :: "u32 \<Rightarrow> u32 \<Rightarrow> u32 \<Rightarrow> u8" where
  "idt_pack_flags T DPL P = ucast ((T AND 0xF) OR push_bit 5 (DPL AND 3) OR push_bit 7 (P AND 1))"

definition idt_set_gate :: "u8 \<Rightarrow> u32 \<Rightarrow> u16 \<Rightarrow> u8 \<Rightarrow> idt_entry list \<Rightarrow> idt_entry list" where
  "idt_set_gate num base s fl t = t[unat num := \<lparr>gate_low = ucast (base AND 0xFFFF), sel = s, always0 = 0,
     iflags = fl OR 0x60, gate_high = ucast (drop_bit 16 base AND 0xFFFF)\<rparr>]"

definition SET_GATE :: "u8 \<Rightarrow> u32 \<Rightarrow> idt_entry list \<Rightarrow> idt_entry list" where
  "SET_GATE num func = idt_set_gate num func (ucast (DESC_SEG DESC_KERNEL_CODE PL_RING0)) (idt_pack_flags 0xE PL_RING3 1)"

text \<open>\<open>isr n\<close> is the address of the assembly stub \<open>isr<n>\<close>.\<close>

definition idt_init :: "(nat \<Rightarrow> u32) \<Rightarrow> idt_entry list \<Rightarrow> idt_entry list" where
  "idt_init isr t = fold (\<lambda>n. SET_GATE (of_nat n) (isr n)) [0 ..< IDT_ENTRIES] t"

definition idt_base :: "idt_entry \<Rightarrow> u32" where
  "idt_base e = ucast (gate_low e) OR push_bit 16 (ucast (gate_high e))"

section \<open>The task state segment\<close>

record tss_entry =
  prevTSS :: u32
  esp0 :: u32
  ss0 :: u32
  esp1 :: u32
  ss1 :: u32
  esp2 :: u32
  ss2 :: u32
  tss_cr3 :: u32
  tss_eip :: u32
  tss_eflags :: u32
  tss_eax :: u32
  tss_ecx :: u32
  tss_edx :: u32
  tss_ebx :: u32
  tss_esp :: u32
  tss_ebp :: u32
  tss_esi :: u32
  tss_edi :: u32
  tss_es :: u32
  tss_cs :: u32
  tss_ss :: u32
  tss_ds :: u32
  tss_fs :: u32
  tss_gs :: u32
  ldt :: u32
  trap :: u16
  iomap_base :: u16

section \<open>Decoding what was packed\<close>

lemma split_base: "ucast (ucast (b AND 0xFFFF) :: u16) OR push_bit 16 (ucast (ucast (drop_bit 16 b AND 0xFF) :: u8))
    OR push_bit 24 (ucast (ucast (drop_bit 24 b AND 0xFF) :: u8)) = (b :: u32)" (is "?l = b")
proof -
  have m: "(0xFFFF :: u32) = mask 16" "(0xFF :: u32) = mask 8" by (simp_all add: mask_eq_exp_minus_1)
  show ?thesis unfolding m
  proof (rule bit_word_eqI)
    fix n assume "n < LENGTH(32)"
    then consider "n < 16" | "16 \<le> n" "n < 24" | "24 \<le> n" "n < 32" by fastforce
    then show "bit (ucast (ucast (b AND mask 16) :: u16) OR push_bit 16 (ucast (ucast (drop_bit 16 b AND mask 8) :: u8))
      OR push_bit 24 (ucast (ucast (drop_bit 24 b AND mask 8) :: u8)) :: u32) n = bit b n"
      by cases (auto simp: bit_simps)
  qed
qed

lemma split_limit: "ucast (ucast (l AND 0xFFFF) :: u16) OR push_bit 16 (ucast (ucast (drop_bit 16 l AND 0xF) :: 4 word)) =
    (l AND 0xFFFFF :: u32)"
proof -
  have m: "(0xFFFF :: u32) = mask 16" "(0xF :: u32) = mask 4" "(0xFFFFF :: u32) = mask 20" by (simp_all add: mask_eq_exp_minus_1)
  show ?thesis unfolding m
    by (rule bit_word_eqI) (auto simp: bit_simps)
qed

lemma split_gate: "ucast (ucast (b AND 0xFFFF) :: u16) OR push_bit 16 (ucast (ucast (drop_bit 16 b AND 0xFFFF) :: u16)) = (b :: u32)"
proof -
  have m: "(0xFFFF :: u32) = mask 16" by (simp add: mask_eq_exp_minus_1)
  show ?thesis unfolding m
    by (rule bit_word_eqI) (auto simp: bit_simps)
qed

text \<open>A gate as the processor reads it: base, limit, access byte and flags.\<close>

definition gdt_view :: "gdt_entry \<Rightarrow> u32 \<times> u32 \<times> u8 \<times> 4 word" where
  "gdt_view e = (gdt_base e, gdt_limit e, access e, gflags e)"

lemma gdt_gate:
  assumes "length t = n" "num < n"
  shows "\<exists>t'. gdt_set_gate num base limit acc fl t = Inr ((), t') \<and> length t' = n \<and>
    gdt_view (t' ! num) = (base, limit AND 0xFFFFF, acc, ucast fl) \<and> (\<forall>i. i \<noteq> num \<longrightarrow> t' ! i = t ! i)"
proof -
  let ?e = "(t ! num)\<lparr>base_low := ucast (base AND 0xFFFF), base_middle := ucast (drop_bit 16 base AND 0xFF),
    base_high := ucast (drop_bit 24 base AND 0xFF), limit_low := ucast (limit AND 0xFFFF),
    limit_high := ucast (drop_bit 16 limit AND 0xF), gflags := ucast fl, access := acc\<rparr>"
  have "gdt_set_gate num base limit acc fl t = Inr ((), t[num := ?e])"
    using assms by (simp add: gdt_set_gate_def gdt_set_gate_base_def gdt_set_gate_limit_def gdt_set_gate_flags_def
        gdt_set_gate_access_def gdt_edit_def sthen_def sbind_def)
  moreover have "gdt_view ?e = (base, limit AND 0xFFFFF, acc, ucast fl)"
    by (simp add: gdt_view_def gdt_base_def gdt_limit_def split_base split_limit)
  ultimately show ?thesis using assms by (intro exI [of _ "t[num := ?e]"]) simp
qed

lemma gdt_init_views:
  assumes "length t = GDT_ENTRIES"
  shows "\<exists>t'. gdt_init t = Inr ((), t') \<and> gdt_view (t' ! 0) = (0, 0, 0, 0) \<and>
    gdt_view (t' ! 1) = (0, 0xFFFFF, 0x9A, 0xC) \<and> gdt_view (t' ! 2) = (0, 0xFFFFF, 0x92, 0xC) \<and>
    gdt_view (t' ! 3) = (0, 0xFFFFF, 0xFA, 0xC) \<and> gdt_view (t' ! 4) = (0, 0xFFFFF, 0xF2, 0xC) \<and>
    gdt_view (t' ! 5) = (0, 0x68, 0xE9, 0xC)"
proof -
  obtain t0 where t0: "gdt_set_gate 0 0 0 0 0 t = Inr ((), t0)" "length t0 = 6" "gdt_view (t0 ! 0) = (0, 0 AND 0xFFFFF, 0, ucast (0 :: u8))"
    using gdt_gate [OF assms, of 0 0 0 0 0] by auto
  let ?f = "pack_flags 0 1 1" and ?l = "0xFFFFFFFF :: u32"
  obtain t1 where t1: "gdt_set_gate 1 0 ?l (pack_access 0 1 0 1 0 1) ?f t0 = Inr ((), t1)" "length t1 = 6"
    "gdt_view (t1 ! 1) = (0, ?l AND 0xFFFFF, pack_access 0 1 0 1 0 1, ucast ?f)" "\<And>i. i \<noteq> 1 \<Longrightarrow> t1 ! i = t0 ! i"
    using gdt_gate [OF t0(2), of 1 0 ?l "pack_access 0 1 0 1 0 1" ?f] by auto
  obtain t2 where t2: "gdt_set_gate 2 0 ?l (pack_access 0 1 0 0 0 1) ?f t1 = Inr ((), t2)" "length t2 = 6"
    "gdt_view (t2 ! 2) = (0, ?l AND 0xFFFFF, pack_access 0 1 0 0 0 1, ucast ?f)" "\<And>i. i \<noteq> 2 \<Longrightarrow> t2 ! i = t1 ! i"
    using gdt_gate [OF t1(2), of 2 0 ?l "pack_access 0 1 0 0 0 1" ?f] by auto
  obtain t3 where t3: "gdt_set_gate 3 0 ?l (pack_access 0 1 0 1 3 1) ?f t2 = Inr ((), t3)" "length t3 = 6"
    "gdt_view (t3 ! 3) = (0, ?l AND 0xFFFFF, pack_access 0 1 0 1 3 1, ucast ?f)" "\<And>i. i \<noteq> 3 \<Longrightarrow> t3 ! i = t2 ! i"
    using gdt_gate [OF t2(2), of 3 0 ?l "pack_access 0 1 0 1 3 1" ?f] by auto
  obtain t4 where t4: "gdt_set_gate 4 0 ?l (pack_access 0 1 0 0 3 1) ?f t3 = Inr ((), t4)" "length t4 = 6"
    "gdt_view (t4 ! 4) = (0, ?l AND 0xFFFFF, pack_access 0 1 0 0 3 1, ucast ?f)" "\<And>i. i \<noteq> 4 \<Longrightarrow> t4 ! i = t3 ! i"
    using gdt_gate [OF t3(2), of 4 0 ?l "pack_access 0 1 0 0 3 1" ?f] by auto
  obtain t5 where t5: "gdt_set_gate 5 0 0x68 (pack_access_system 9 3 1) ?f t4 = Inr ((), t5)" "length t5 = 6"
    "gdt_view (t5 ! 5) = (0, 0x68 AND 0xFFFFF, pack_access_system 9 3 1, ucast ?f)" "\<And>i. i \<noteq> 5 \<Longrightarrow> t5 ! i = t4 ! i"
    using gdt_gate [OF t4(2), of 5 0 "0x68" "pack_access_system 9 3 1" ?f] by auto
  have "gdt_init t = Inr ((), t5)"
    using t0(1) t1(1) t2(1) t3(1) t4(1) t5(1) by (simp add: gdt_init_def sthen_def sbind_def)
  moreover have "gdt_view (t5 ! 0) = (0, 0, 0, 0)" "gdt_view (t5 ! 1) = (0, 0xFFFFF, 0x9A, 0xC)"
    "gdt_view (t5 ! 2) = (0, 0xFFFFF, 0x92, 0xC)" "gdt_view (t5 ! 3) = (0, 0xFFFFF, 0xFA, 0xC)"
    "gdt_view (t5 ! 4) = (0, 0xFFFFF, 0xF2, 0xC)" "gdt_view (t5 ! 5) = (0, 0x68, 0xE9, 0xC)"
    using t0(3) t1(3,4) t2(3,4) t3(3,4) t4(3,4) t5(3,4)
    by (simp_all add: pack_access_def pack_access_system_def pack_flags_def)
  ultimately show ?thesis by blast
qed

text \<open>Every gate of the interrupt table.\<close>

lemma idt_set_gate_length [simp]: "length (idt_set_gate num base s fl t) = length t"
  by (simp add: idt_set_gate_def)

lemma idt_init_prefix:
  assumes "length t = IDT_ENTRIES" "k \<le> IDT_ENTRIES"
  shows "length (fold (\<lambda>n. SET_GATE (of_nat n) (isr n)) [0 ..< k] t) = IDT_ENTRIES \<and>
    (\<forall>n < k. idt_base (fold (\<lambda>n. SET_GATE (of_nat n) (isr n)) [0 ..< k] t ! n) = isr n \<and>
       sel (fold (\<lambda>n. SET_GATE (of_nat n) (isr n)) [0 ..< k] t ! n) = 8 \<and>
       iflags (fold (\<lambda>n. SET_GATE (of_nat n) (isr n)) [0 ..< k] t ! n) = 0xEE)"
  using assms(2)
proof (induction k)
  case 0
  then show ?case using assms(1) by simp
next
  case (Suc k)
  have u: "unat (of_nat k :: u8) = k" using Suc.prems by (simp add: unat_of_nat)
  then show ?case
    using Suc by (auto simp: SET_GATE_def idt_set_gate_def nth_list_update less_Suc_eq idt_base_def split_gate
        DESC_SEG_def idt_pack_flags_def)
qed

section \<open>Properties\<close>

text \<open>\<open>gdt_init\<close> builds flat segments: the kernel and user code and data segments span the whole
  address space with 4 KiB granularity, the user ones with privilege level 3, and the task
  segment is an available 32-bit TSS; every entry is what the processor decodes.\<close>

lemma gdt_init_flat:
  assumes "length t = GDT_ENTRIES"
  shows "\<exists>t'. gdt_init t = Inr ((), t') \<and>
    (\<forall>i \<in> {1, 2, 3, 4}. gdt_base (t' ! i) = 0 \<and> gdt_limit (t' ! i) = 0xFFFFF \<and> gflags (t' ! i) = 0xC \<and>
       gdt_present (t' ! i) \<and> gdt_executable (t' ! i) = (i \<in> {1, 3}) \<and> gdt_dpl (t' ! i) = (if i < 3 then 0 else 3)) \<and>
    access (t' ! 5) = 0xE9 \<and> gdt_limit (t' ! 5) = 0x68"
proof -
  obtain t' where t': "gdt_init t = Inr ((), t')" and
    e: "gdt_view (t' ! 1) = (0, 0xFFFFF, 0x9A, 0xC)" "gdt_view (t' ! 2) = (0, 0xFFFFF, 0x92, 0xC)"
    "gdt_view (t' ! 3) = (0, 0xFFFFF, 0xFA, 0xC)" "gdt_view (t' ! 4) = (0, 0xFFFFF, 0xF2, 0xC)"
    "gdt_view (t' ! 5) = (0, 0x68, 0xE9, 0xC)"
    using gdt_init_views [OF assms] by blast
  have f: "access (t' ! 1) = 0x9A" "access (t' ! 2) = 0x92" "access (t' ! 3) = 0xFA" "access (t' ! 4) = 0xF2"
    "access (t' ! 5) = 0xE9" "gdt_limit (t' ! 5) = 0x68"
    using e by (simp_all add: gdt_view_def)
  have g: "gdt_base (t' ! i) = 0 \<and> gdt_limit (t' ! i) = 0xFFFFF \<and> gflags (t' ! i) = 0xC" if "i \<in> {1, 2, 3, 4}" for i
    using e that by (auto simp: gdt_view_def)
  have "gdt_present (t' ! i) \<and> gdt_executable (t' ! i) = (i \<in> {1, 3}) \<and> gdt_dpl (t' ! i) = (if i < 3 then 0 else 3)"
    if "i \<in> {1, 2, 3, 4}" for i
    using that f by (auto simp: gdt_present_def gdt_executable_def gdt_dpl_def)
  with g f(5,6) t' show ?thesis by blast
qed

text \<open>After \<open>idt_init\<close> every one of the 256 gates leads to its own stub, through the kernel code
  segment, as a present 32-bit interrupt gate open to ring 3.\<close>

lemma idt_init_gates:
  assumes "length t = IDT_ENTRIES" and "n < IDT_ENTRIES"
  shows "idt_base (idt_init isr t ! n) = isr n \<and> sel (idt_init isr t ! n) = 8 \<and> iflags (idt_init isr t ! n) = 0xEE"
  unfolding idt_init_def using idt_init_prefix [OF assms(1) order_refl] assms(2) by blast

end
