(* ===== verification/Devices.thy ===== *)
theory Devices
  imports Cstring
begin

unbundle bit_operations_syntax

text \<open>
  Port-mapped devices: \<^verbatim>\<open>src/io/ports.c\<close>, the interrupt controller of \<^verbatim>\<open>src/sys/pic.c\<close>, the
  timer chip of \<^verbatim>\<open>src/drivers/pit.c\<close>, the serial line of \<^verbatim>\<open>src/drivers/serial.c\<close> and the
  identification strings of \<^verbatim>\<open>src/io/cpuid.c\<close>. The history of port accesses is kept in \<open>io_log\<close>;
  what a port answers is the parameter \<open>io_env\<close> of the state, a function of that history, because
  the devices are not code of the kernel. The processor's answer to \<open>cpuid\<close> is a parameter too.
\<close>

section \<open>Ports\<close>

datatype io_event = In8 u16 u8 | In16 u16 u16 | In32 u16 u32 | Out8 u16 u8 | Out16 u16 u16 | Out32 u16 u32

record dev_state =
  io_log :: "io_event list"
  io_env :: "io_event list \<Rightarrow> u16 \<Rightarrow> u32"
  pic_master_offset :: u8
  pic_slave_offset :: u8
  active_port :: u16

definition emit :: "io_event \<Rightarrow> (dev_state, unit) op" where
  "emit e = smod (io_log_update (\<lambda>es. es @ [e]))"

definition port_inb :: "u16 \<Rightarrow> (dev_state, u8) op" where
  "port_inb port = sbind (sget (\<lambda>s. ucast (io_env s (io_log s) port))) (\<lambda>v. sthen (emit (In8 port v)) (sret v))"

definition port_inw :: "u16 \<Rightarrow> (dev_state, u16) op" where
  "port_inw port = sbind (sget (\<lambda>s. ucast (io_env s (io_log s) port))) (\<lambda>v. sthen (emit (In16 port v)) (sret v))"

definition port_ind :: "u16 \<Rightarrow> (dev_state, u32) op" where
  "port_ind port = sbind (sget (\<lambda>s. io_env s (io_log s) port)) (\<lambda>v. sthen (emit (In32 port v)) (sret v))"

definition port_outb :: "u16 \<Rightarrow> u8 \<Rightarrow> (dev_state, unit) op" where
  "port_outb port v = emit (Out8 port v)"

definition port_outw :: "u16 \<Rightarrow> u16 \<Rightarrow> (dev_state, unit) op" where
  "port_outw port v = emit (Out16 port v)"

definition port_outd :: "u16 \<Rightarrow> u32 \<Rightarrow> (dev_state, unit) op" where
  "port_outd port v = emit (Out32 port v)"

section \<open>The 8259 interrupt controllers\<close>

abbreviation (input) PIC1_COMMAND :: u16 where "PIC1_COMMAND \<equiv> 0x20"
abbreviation (input) PIC1_DATA :: u16 where "PIC1_DATA \<equiv> 0x21"
abbreviation (input) PIC2_COMMAND :: u16 where "PIC2_COMMAND \<equiv> 0xA0"
abbreviation (input) PIC2_DATA :: u16 where "PIC2_DATA \<equiv> 0xA1"
abbreviation (input) PIC_EOI :: u8 where "PIC_EOI \<equiv> 0x20"

definition pic_remap :: "u8 \<Rightarrow> u8 \<Rightarrow> (dev_state, u32) op" where
  "pic_remap offset1 offset2 =
     sbind (port_inb PIC1_DATA) (\<lambda>a1.
     sbind (port_inb PIC2_DATA) (\<lambda>a2.
     sthen (port_outb PIC1_COMMAND (0x10 OR 0x01))
    (sthen (port_outb PIC2_COMMAND (0x10 OR 0x01))
    (sthen (port_outb PIC1_DATA offset1)
    (sthen (port_outb PIC2_DATA offset2)
    (sthen (port_outb PIC1_DATA 0x04)
    (sthen (port_outb PIC2_DATA 0x02)
    (sthen (port_outb PIC1_DATA 0x01)
    (sthen (port_outb PIC2_DATA 0x01)
    (sthen (port_outb PIC1_DATA a1)
    (sthen (port_outb PIC2_DATA a2)
    (sthen (smod (pic_master_offset_update (\<lambda>_. offset1)))
    (sthen (smod (pic_slave_offset_update (\<lambda>_. offset2)))
           (sret 0))))))))))))))"

definition pic_disable :: "(dev_state, unit) op" where
  "pic_disable = sthen (port_outb PIC1_DATA 0xff) (port_outb PIC2_DATA 0xff)"

definition pic_sendEOI_master :: "(dev_state, unit) op" where
  "pic_sendEOI_master = port_outb PIC1_COMMAND PIC_EOI"

definition pic_sendEOI_slave :: "(dev_state, unit) op" where
  "pic_sendEOI_slave = port_outb PIC2_COMMAND PIC_EOI"

definition pic_sendEOI :: "u32 \<Rightarrow> (dev_state, unit) op" where
  "pic_sendEOI isr =
     sbind (sget pic_master_offset) (\<lambda>m.
     sbind (sget pic_slave_offset) (\<lambda>sl.
     swhen (isr \<ge> ucast m \<and> isr \<le> ucast sl + 7)
       (sthen (swhen (isr \<ge> ucast sl) pic_sendEOI_slave) pic_sendEOI_master)))"

section \<open>The timer chip\<close>

abbreviation (input) PIT_DIVISOR :: u32 where "PIT_DIVISOR \<equiv> 1193182 div 250"
abbreviation (input) PIT_SPEED_US :: u32 where "PIT_SPEED_US \<equiv> 3999"

definition pit_set_freq :: "(dev_state, unit) op" where
  "pit_set_freq =
     sthen (port_outb 0x43 0x36)
    (sthen (port_outb 0x40 (ucast (PIT_DIVISOR AND 0xFF)))
           (port_outb 0x40 (ucast (drop_bit 8 PIT_DIVISOR AND 0xFF))))"

text \<open>
  \<open>sleep_no_task\<close> waits for the tick counter, which the interrupt handler advances meanwhile:
  \<open>ticks i\<close> is what the \<open>i\<close>-th read of \<open>global_ticks\<close> sees. The result is the number of reads.
\<close>

definition sleep_ticks :: "u32 \<Rightarrow> u32" where
  "sleep_ticks ms = (let ticks = (ms * 1000) div PIT_SPEED_US in if ticks \<noteq> 0 then ticks else 1)"

partial_function (option) wait_ticks :: "(nat \<Rightarrow> u32) \<Rightarrow> u32 \<Rightarrow> nat \<Rightarrow> nat option" where
  [code]: "wait_ticks ticks limit i = (if ticks i < limit then wait_ticks ticks limit (Suc i) else Some (Suc i))"

definition sleep_no_task :: "(nat \<Rightarrow> u32) \<Rightarrow> u32 \<Rightarrow> nat option" where
  "sleep_no_task ticks ms =
     (if ms = 0 then Some 0 else wait_ticks ticks (sleep_ticks ms + ticks 0) 1)"

section \<open>The serial line\<close>

definition serial_init :: "u16 \<Rightarrow> u16 \<Rightarrow> (dev_state, u32) op" where
  "serial_init port baud =
     sthen (port_outb (port + 1) 0x00)
    (sthen (port_outb (port + 3) 0x80)
    (sthen (port_outb (port + 0) (ucast (baud AND 0x00FF)))
    (sthen (port_outb (port + 1) (ucast (drop_bit 8 (baud AND 0xFF00))))
    (sthen (port_outb (port + 3) 0x03)
    (sthen (port_outb (port + 2) 0xC7)
    (sthen (port_outb (port + 4) 0x0B)
    (sthen (port_outb (port + 4) 0x1E)
    (sthen (port_outb (port + 4) 0x0F)
    (sthen (smod (\<lambda>s. if active_port s = 0 then s\<lparr>active_port := port\<rparr> else s))
           (sret 0))))))))))"

definition serial_recived :: "u16 \<Rightarrow> (dev_state, u8) op" where
  "serial_recived port = sbind (port_inb (port + 5)) (\<lambda>v. sret (v AND 1))"

definition serial_isTransmitEmpty :: "u16 \<Rightarrow> (dev_state, u8) op" where
  "serial_isTransmitEmpty port = sbind (port_inb (port + 5)) (\<lambda>v. sret (v AND 0x20))"

text \<open>Both status loops: read the line status until the wanted bit is set.\<close>

definition poll :: "(u16 \<Rightarrow> (dev_state, u8) op) \<Rightarrow> (dev_state, unit) op" where
  "poll test =
     sbind (sget active_port) (\<lambda>port.
     sloop (\<lambda>_. sbind (test port) (\<lambda>v. sret (if v = 0 then Inr () else Inl ()))) ())"

definition serial_readChar :: "(dev_state, u8) op" where
  "serial_readChar = sthen (poll serial_recived) (sbind (sget active_port) port_inb)"

text \<open>
  The recursive call of \<open>serial_writeChar\<close> sends a carriage return, for which the function does
  not call itself again.
\<close>

definition send_char :: "u8 \<Rightarrow> (dev_state, unit) op" where
  "send_char c = sthen (poll serial_isTransmitEmpty) (sbind (sget active_port) (\<lambda>port. port_outb port c))"

definition serial_writeChar :: "u8 \<Rightarrow> (dev_state, unit) op" where
  "serial_writeChar c = sthen (send_char c) (swhen (c = 0x0A) (send_char 0x0D))"

text \<open>The string routines run on the memory next to the devices.\<close>

definition dev_op :: "(dev_state, 'a) op \<Rightarrow> (mem \<times> dev_state, 'a) op" where
  "dev_op f s = (case f (snd s) of Inl e \<Rightarrow> Inl e | Inr (x, d) \<Rightarrow> Inr (x, (fst s, d)))"

definition write_step :: "u32 \<Rightarrow> u32 \<Rightarrow> (mem \<times> dev_state, u32 + u32) op" where
  "write_step str writed =
     sbind (sget (\<lambda>s. fst s (str + writed))) (\<lambda>c.
     sthen (dev_op (serial_writeChar c))
           (sret (if c = 0 then Inl (writed + 1) else Inr (writed + 1))))"

definition serial_writeString :: "u32 \<Rightarrow> (mem \<times> dev_state, u32) op" where
  "serial_writeString str = sloop (write_step str) 0"

definition read_step :: "u32 \<Rightarrow> u32 \<Rightarrow> (mem \<times> dev_state, u32 + u32) op" where
  "read_step str readed =
     sbind (dev_op serial_readChar) (\<lambda>c.
     sthen (smod (\<lambda>s. ((fst s)(str + readed := c), snd s)))
           (sret (if c = 0 then Inl (readed + 1) else Inr (readed + 1))))"

definition serial_readString :: "u32 \<Rightarrow> (mem \<times> dev_state, u32) op" where
  "serial_readString str = sloop (read_step str) 0"

section \<open>Identification strings\<close>

record cpuid_regs =
  id_eax :: u32
  id_ebx :: u32
  id_ecx :: u32
  id_edx :: u32

primrec bytes_loop :: "nat \<Rightarrow> nat \<Rightarrow> u32 \<Rightarrow> u32 \<Rightarrow> mem \<Rightarrow> mem" where
  "bytes_loop 0 j part p m = m"
| "bytes_loop (Suc n) j part p m = bytes_loop n (Suc j) part (p + 1) (m(p := ucast (drop_bit (j * 8) part AND 0xFF)))"

definition to_string :: "u32 \<Rightarrow> u32 \<Rightarrow> u32 \<Rightarrow> u32 \<Rightarrow> u32 \<Rightarrow> mem \<Rightarrow> mem" where
  "to_string part0 part1 part2 part3 str m =
     (fold (\<lambda>(i, part) m. bytes_loop 4 0 part (str + 4 * of_nat i) m)
        (enumerate 0 [part0, part1, part2, part3]) m)(str + 16 := 0)"

definition cpuid_vendor :: "(u32 \<Rightarrow> cpuid_regs) \<Rightarrow> u32 \<Rightarrow> mem \<Rightarrow> u32 \<times> mem" where
  "cpuid_vendor cpu str m = (let r = cpu 0 in (id_eax r, to_string (id_ebx r) (id_edx r) (id_ecx r) 0 str m))"

definition cpuid_string :: "(u32 \<Rightarrow> cpuid_regs) \<Rightarrow> u32 \<Rightarrow> u32 \<Rightarrow> mem \<Rightarrow> mem" where
  "cpuid_string cpu request str m =
     (let r = cpu request in to_string (id_eax r) (id_ebx r) (id_ecx r) (id_edx r) str m)"

section \<open>Properties of the controllers\<close>

lemma port_inb_apply: "port_inb port d =
    Inr (ucast (io_env d (io_log d) port), d\<lparr>io_log := io_log d @ [In8 port (ucast (io_env d (io_log d) port))]\<rparr>)"
  by (simp add: port_inb_def emit_def sbind_def sthen_def)

lemma port_outb_apply: "port_outb port v d = Inr ((), d\<lparr>io_log := io_log d @ [Out8 port v]\<rparr>)"
  by (simp add: port_outb_def emit_def)

lemmas io_simps = port_inb_apply port_outb_apply sbind_def sthen_apply

lemma unat_ucast_u8 [simp]: "unat (ucast (a :: u8) :: u32) = unat a"
proof -
  have "unat a < 256" using unsigned_less [of a, where 'a = nat] by simp
  then show ?thesis by (simp add: unsigned_ucast_eq take_bit_nat_eq_self)
qed

text \<open>After \<open>pic_remap\<close> of the two controllers to consecutive ranges of eight vectors, \<open>pic_sendEOI\<close>
  acknowledges exactly the vectors of these ranges: the slave and then the master for the upper
  eight, only the master for the lower eight, and no port access for any other vector.\<close>

lemma pic_sendEOI_correct:
  assumes "m \<le> 240" and "pic_remap m (m + 8) d = Inr (x, d1)" and "pic_sendEOI isr d1 = Inr (y, d2)"
  shows "io_log d2 = io_log d1 @
    (if unat isr \<in> {unat m + 8 ..< unat m + 16} then [Out8 0xA0 0x20, Out8 0x20 0x20]
     else if unat isr \<in> {unat m ..< unat m + 8} then [Out8 0x20 0x20] else [])"
proof -
  have o: "pic_master_offset d1 = m" "pic_slave_offset d1 = m + 8"
    using assms(2) by (auto simp: pic_remap_def io_simps)
  have m: "unat m \<le> 240" using assms(1) by (simp add: word_le_nat_alt)
  then have u: "unat (m + 8) = unat m + 8" by (simp add: unat_word_ariths)
  have c: "unat (ucast m :: u32) = unat m" "unat (ucast (m + 8) :: u32) = unat m + 8"
    using u by simp_all
  then have s: "unat ((ucast (m + 8) :: u32) + 7) = unat m + 15" using m by (simp add: unat_word_ariths)
  have "isr \<ge> ucast m \<longleftrightarrow> unat m \<le> unat isr" "isr \<ge> ucast (m + 8) \<longleftrightarrow> unat m + 8 \<le> unat isr"
    "isr \<le> ucast (m + 8) + 7 \<longleftrightarrow> unat isr \<le> unat m + 15"
    using c s by (simp_all only: word_le_nat_alt)
  with assms(3) o show ?thesis
    by (auto simp: pic_sendEOI_def pic_sendEOI_slave_def pic_sendEOI_master_def io_simps swhen_def split: if_splits)
qed

definition demo_dev :: dev_state where
  "demo_dev = \<lparr>io_log = [], io_env = (\<lambda>es port. if even (length es) then 0 else 0x60), pic_master_offset = 0,
     pic_slave_offset = 8, active_port = 0x3F8\<rparr>"

section \<open>Waiting for ticks\<close>

lemma wait_ticks_some:
  "\<forall>i. a \<le> i \<and> i < a + n \<longrightarrow> ticks i < limit \<Longrightarrow> limit \<le> ticks (a + n) \<Longrightarrow> wait_ticks ticks limit a = Some (Suc (a + n))"
proof (induction n arbitrary: a)
  case 0
  then have "\<not> ticks a < limit" by simp
  then show ?case by (subst wait_ticks.simps) simp
next
  case (Suc n)
  then have "wait_ticks ticks limit (Suc a) = Some (Suc (Suc a + n))" by (intro Suc.IH) auto
  moreover have "ticks a < limit" using Suc.prems(1) by simp
  ultimately show ?case by (subst wait_ticks.simps) simp
qed

text \<open>\<open>sleep_no_task\<close> returns as soon as a read of the tick counter shows that the wanted number
  of ticks has passed since the call, provided the counter does not wrap around meanwhile, and it
  returns at once for an argument of zero.\<close>

lemma sleep_no_task_returns:
  assumes "ms \<noteq> 0" and "unat (ticks 0) + unat (sleep_ticks ms) < 2 ^ 32" and "0 < n"
    and "unat (ticks n) \<ge> unat (ticks 0) + unat (sleep_ticks ms)"
    and "\<forall>i. 0 < i \<and> i < n \<longrightarrow> unat (ticks i) < unat (ticks 0) + unat (sleep_ticks ms)"
  shows "sleep_no_task ticks ms = Some (Suc n) \<and> sleep_no_task ticks 0 = Some 0"
proof -
  have u: "unat (sleep_ticks ms + ticks 0) = unat (ticks 0) + unat (sleep_ticks ms)"
    using assms(2) by (metis add.commute unat_add_small)
  obtain k where k: "n = Suc k" using assms(3) by (cases n) auto
  have "wait_ticks ticks (sleep_ticks ms + ticks 0) 1 = Some (Suc (1 + k))"
  proof (rule wait_ticks_some)
    show "sleep_ticks ms + ticks 0 \<le> ticks (1 + k)" using assms(4) k by (simp only: word_le_nat_alt u) simp
    show "\<forall>i. 1 \<le> i \<and> i < 1 + k \<longrightarrow> ticks i < sleep_ticks ms + ticks 0"
      using assms(5) k unfolding word_less_nat_alt u by simp
  qed
  with assms(1) k show ?thesis by (simp add: sleep_no_task_def)
qed

section \<open>The serial line\<close>

text \<open>The history after \<open>n\<close> more status reads, and a line that is always ready again after some of them.\<close>

primrec polled :: "(io_event list \<Rightarrow> u16 \<Rightarrow> u32) \<Rightarrow> u16 \<Rightarrow> nat \<Rightarrow> io_event list \<Rightarrow> io_event list" where
  "polled env port 0 es = es"
| "polled env port (Suc n) es = polled env port n (es @ [In8 (port + 5) (ucast (env es (port + 5)))])"

definition drains :: "(io_event list \<Rightarrow> u16 \<Rightarrow> u32) \<Rightarrow> u16 \<Rightarrow> bool" where
  "drains env port \<longleftrightarrow> (\<forall>es. \<exists>n. (ucast (env (polled env port n es) (port + 5)) :: u8) AND 0x20 \<noteq> 0)"

text \<open>The bytes that went out on a port, and what a text becomes on the line.\<close>

definition sent :: "u16 \<Rightarrow> io_event list \<Rightarrow> u8 list" where
  "sent port es = concat (map (\<lambda>e. case e of Out8 q v \<Rightarrow> if q = port then [v] else [] | _ \<Rightarrow> []) es)"

definition crlf :: "u8 list \<Rightarrow> u8 list" where
  "crlf bs = concat (map (\<lambda>c. if c = 0x0A then [0x0A, 0x0D] else [c]) bs)"

lemma sent_simps [simp]: "sent port [] = []" "sent port (es @ fs) = sent port es @ sent port fs"
  "sent port [In8 q v] = []" "sent port [Out8 port v] = [v]"
  by (simp_all add: sent_def)

lemma sent_polled: "sent port (polled env port n es) = sent port es"
  by (induction n arbitrary: es) simp_all

text \<open>What the operations on the line keep: the port, the environment and the bytes sent.\<close>

definition line :: "u16 \<Rightarrow> (io_event list \<Rightarrow> u16 \<Rightarrow> u32) \<Rightarrow> u8 list \<Rightarrow> dev_state \<Rightarrow> bool" where
  "line port env out d \<longleftrightarrow> active_port d = port \<and> io_env d = env \<and> sent port (io_log d) = out"

lemma poll_transmit:
  assumes "line port env out d" "(ucast (env (polled env port n (io_log d)) (port + 5)) :: u8) AND 0x20 \<noteq> 0"
  shows "\<exists>d'. poll serial_isTransmitEmpty d = Inr ((), d') \<and> line port env out d'"
  using assms
proof (induction n arbitrary: d)
  case 0
  then show ?case
    by (intro exI [of _ "d\<lparr>io_log := io_log d @ [In8 (port + 5) (ucast (env (io_log d) (port + 5)))]\<rparr>"])
      (simp add: poll_def line_def sloop_unfold serial_isTransmitEmpty_def io_simps)
next
  case (Suc n)
  let ?d = "d\<lparr>io_log := io_log d @ [In8 (port + 5) (ucast (env (io_log d) (port + 5)))]\<rparr>"
  have l: "line port env out ?d" using Suc.prems(1) by (simp add: line_def)
  have a: "active_port d = port" "io_env d = env" using Suc.prems(1) by (simp_all add: line_def)
  have step: "poll serial_isTransmitEmpty d =
      (if (ucast (env (io_log d) (port + 5)) :: u8) AND 0x20 = 0 then poll serial_isTransmitEmpty ?d else Inr ((), ?d))"
    using a by (simp add: poll_def sloop_unfold [of _ "()" d] serial_isTransmitEmpty_def io_simps)
  have "\<exists>d'. poll serial_isTransmitEmpty ?d = Inr ((), d') \<and> line port env out d'"
    using Suc.prems(2) by (intro Suc.IH [OF l]) simp
  then show ?case using l unfolding step by auto
qed

lemma send_char_sends:
  assumes "drains env port" "line port env out d"
  shows "\<exists>d'. send_char c d = Inr ((), d') \<and> line port env (out @ [c]) d'"
proof -
  obtain n where "(ucast (env (polled env port n (io_log d)) (port + 5)) :: u8) AND 0x20 \<noteq> 0"
    using assms(1) by (auto simp: drains_def)
  then obtain d1 where d1: "poll serial_isTransmitEmpty d = Inr ((), d1)" "line port env out d1"
    using poll_transmit [OF assms(2)] by blast
  then show ?thesis
    by (intro exI [of _ "d1\<lparr>io_log := io_log d1 @ [Out8 port c]\<rparr>"]) (simp add: send_char_def io_simps line_def)
qed

lemma serial_writeChar_sends:
  assumes "drains env port" "line port env out d"
  shows "\<exists>d'. serial_writeChar c d = Inr ((), d') \<and> line port env (out @ crlf [c]) d'"
proof -
  obtain d1 where d1: "send_char c d = Inr ((), d1)" "line port env (out @ [c]) d1"
    using send_char_sends [OF assms] by blast
  obtain d2 where d2: "send_char 0x0D d1 = Inr ((), d2)" "line port env (out @ [c, 0x0D]) d2"
    using send_char_sends [OF assms(1) d1(2)] by auto
  show ?thesis using d1 d2 by (cases "c = 0x0A") (simp_all add: serial_writeChar_def sthen_apply crlf_def)
qed

lemma write_step_char:
  assumes "serial_writeChar (m (str + k)) d = Inr ((), d')"
  shows "write_step str k (m, d) = Inr (if m (str + k) = 0 then Inl (k + 1) else Inr (k + 1), (m, d'))"
  using assms by (simp add: write_step_def dev_op_def sbind_def sthen_apply)

lemma writeString_loop:
  assumes D: "drains env port" and "line port env out d" "cstr m (str + k) bs"
  shows "\<exists>d'. sloop (write_step str) k (m, d) = Inr (k + of_nat (length bs) + 1, (m, d')) \<and>
    line port env (out @ crlf (bs @ [0])) d'"
  using assms(2,3)
proof (induction bs arbitrary: k out d)
  case Nil
  have z: "m (str + k) = 0" using Nil.prems(2) by (simp add: cstr_Nil)
  obtain d' where "serial_writeChar 0 d = Inr ((), d')" "line port env (out @ crlf [0]) d'"
    using serial_writeChar_sends [OF D Nil.prems(1)] by blast
  then show ?case using write_step_char [of m str k d d'] by (subst sloop_unfold) (simp add: z sbind_def)
next
  case (Cons b bs)
  then have b: "m (str + k) = b" "b \<noteq> 0" "cstr m (str + (k + 1)) bs" by (auto dest: cstr_Cons simp: add.assoc)
  obtain d1 where d1: "serial_writeChar b d = Inr ((), d1)" "line port env (out @ crlf [b]) d1"
    using serial_writeChar_sends [OF D Cons.prems(1)] by blast
  have e: "k + 1 + of_nat (length bs) + 1 = k + of_nat (length (b # bs)) + 1"
    "(out @ crlf [b]) @ crlf (bs @ [0]) = out @ crlf ((b # bs) @ [0])" by (simp_all add: crlf_def)
  show ?case
    using Cons.IH [OF d1(2) b(3), unfolded e] b(1,2) write_step_char [of m str k d d1] d1(1)
    by (subst sloop_unfold) (simp add: sbind_def)
qed

text \<open>C37: on a line that always becomes ready again, \<open>serial_writeString\<close> returns and has sent exactly the
  bytes of the C string, every newline followed by a carriage return, and the terminating zero byte;
  it returns the number of bytes read and leaves memory alone.\<close>

theorem serial_writeString_sends:
  assumes "drains (io_env d) (active_port d)" and "cstr m str bs"
  shows "\<exists>d'. serial_writeString str (m, d) = Inr (of_nat (length bs) + 1, (m, d')) \<and>
    sent (active_port d) (io_log d') = sent (active_port d) (io_log d) @ crlf (bs @ [0])"
proof -
  have "line (active_port d) (io_env d) (sent (active_port d) (io_log d)) d" by (simp add: line_def)
  from writeString_loop [OF assms(1) this, of m str 0 bs] assms(2) show ?thesis
    by (auto simp: serial_writeString_def line_def)
qed

lemma demo_drains: "drains (io_env demo_dev) (active_port demo_dev)"
  unfolding drains_def
proof
  fix es
  show "\<exists>n. (ucast (io_env demo_dev (polled (io_env demo_dev) (active_port demo_dev) n es) (active_port demo_dev + 5)) :: u8) AND 0x20 \<noteq> 0"
    by (cases "even (length es)") (auto simp: demo_dev_def intro: exI [of _ "1::nat"] exI [of _ "0::nat"])
qed

theorem serial_writeString_sends_witness:
  "\<exists>d'. serial_writeString 0 ((\<lambda>_. 0)(0 := 0x41, 1 := 0x0A), demo_dev) = Inr (3, ((\<lambda>_. 0)(0 := 0x41, 1 := 0x0A), d')) \<and>
     sent 0x3F8 (io_log d') = [0x41, 0x0A, 0x0D, 0]"
proof -
  have "cstr ((\<lambda>_. 0)(0 := 0x41, 1 := 0x0A)) 0 [0x41, 0x0A]"
    by (simp add: cstr_def bytes_def)
  from serial_writeString_sends [OF demo_drains this] show ?thesis
    by (simp add: crlf_def) (simp add: demo_dev_def)
qed

section \<open>Identification strings\<close>

lemma ucast_and_byte: "(ucast (w AND 0xFF :: u32) :: u8) = ucast w"
proof -
  have m: "(0xFF :: u32) = mask 8" by (simp add: mask_eq_exp_minus_1)
  show ?thesis unfolding m by (rule bit_word_eqI) (simp add: bit_simps)
qed

text \<open>A word store that is at least four bytes away is not seen by a load.\<close>

lemma ld32_st32_apart:
  assumes "4 \<le> unat (b - a)" "4 \<le> unat (a - b)"
  shows "ld32 (st32 m a v) b = ld32 m b"
proof -
  have n: "b + j \<noteq> a + k" if jk: "j \<in> {0, 1, 2, 3}" "k \<in> {0, 1, 2, 3}" for j k
  proof
    assume e: "b + j = a + k"
    have "b - a = k - j" "a - b = j - k"
      using arg_cong [OF e, of "\<lambda>x. x - a - j"] arg_cong [OF e, of "\<lambda>x. x - b - k"] by simp_all
    with assms jk show False by auto
  qed
  have "st32 m a v (b + j) = m (b + j)" if "j \<in> {0, 1, 2, 3}" for j
    using n [OF that] by (intro st32_other) blast
  from this [of 0] this [of 1] this [of 2] this [of 3] show ?thesis by (simp add: ld32_def)
qed

lemma same_outside_st32:
  assumes "same_outside m m' p n" "\<And>k. k < 4 \<Longrightarrow> i + k < n"
  shows "same_outside m (st32 m' (p + of_nat i) v) p n"
  unfolding same_outside_def
proof (intro allI impI)
  fix a assume a: "\<forall>j < n. a \<noteq> p + of_nat j"
  have "a \<noteq> p + of_nat i + of_nat k" if "k < 4" for k using a assms(2) [OF that] by (metis add.assoc of_nat_add)
  from this [of 0] this [of 1] this [of 2] this [of 3] have "st32 m' (p + of_nat i) v a = m' a" by (simp add: st32_def)
  then show "st32 m' (p + of_nat i) v a = m a" using a assms(1) by (simp add: same_outside_def)
qed

lemma bytes_loop_st32: "bytes_loop 4 0 part p m = st32 m p part"
  by (simp add: eval_nat_numeral st32_def ucast_and_byte add.assoc)

lemma to_string_st32:
  "to_string part0 part1 part2 part3 str m =
    (st32 (st32 (st32 (st32 m str part0) (str + 4) part1) (str + 8) part2) (str + 12) part3)(str + 16 := 0)"
  by (simp add: to_string_def bytes_loop_st32)

text \<open>\<open>cpuid_string\<close> stores the four registers of the processor's answer in order, each with its
  least significant byte first, and a zero byte behind them, and writes nothing else; so a brand
  string is read back by concatenating the words.\<close>

lemma cpuid_string_stores:
  "let m' = cpuid_string cpu request str m; r = cpu request in
     ld32 m' str = id_eax r \<and> ld32 m' (str + 4) = id_ebx r \<and> ld32 m' (str + 8) = id_ecx r \<and>
     ld32 m' (str + 12) = id_edx r \<and> m' (str + 16) = 0 \<and> same_outside m m' str 17"
proof -
  let ?r = "cpu request"
  let ?m1 = "st32 m str (id_eax ?r)"
  let ?m2 = "st32 ?m1 (str + 4) (id_ebx ?r)"
  let ?m3 = "st32 ?m2 (str + 8) (id_ecx ?r)"
  let ?m4 = "st32 ?m3 (str + 12) (id_edx ?r)"
  have eq: "cpuid_string cpu request str m = ?m4(str + 16 := 0)" (is "_ = ?m'")
    by (simp add: cpuid_string_def to_string_st32 Let_def)
  have "same_outside m ?m1 str 17" using same_outside_st32 [of m m str 17 0 "id_eax ?r"] by simp
  then have "same_outside m ?m2 str 17" using same_outside_st32 [of m ?m1 str 17 4 "id_ebx ?r"] by simp
  then have "same_outside m ?m3 str 17" using same_outside_st32 [of m ?m2 str 17 8 "id_ecx ?r"] by simp
  then have "same_outside m ?m4 str 17" using same_outside_st32 [of m ?m3 str 17 12 "id_edx ?r"] by simp
  then have out: "same_outside m ?m' str 17" using same_outside_upd [of 16 17 m ?m4 str 0] by simp
  have z: "ld32 ?m' (str + k) = ld32 ?m4 (str + k)" if "k \<in> {0, 4, 8, 12}" for k
    using that by (auto simp: ld32_def add.assoc)
  have "ld32 ?m' str = id_eax ?r" "ld32 ?m' (str + 4) = id_ebx ?r" "ld32 ?m' (str + 8) = id_ecx ?r" "ld32 ?m' (str + 12) = id_edx ?r"
    using z [of 0] z [of 4] z [of 8] z [of 12] by (simp_all add: ld32_st32_apart)
  then show ?thesis
    unfolding Let_def eq using out by simp
qed

end
