(* ===== verification/Kstate.thy ===== *)
theory Kstate
  imports Heap Dt Devices
begin

unbundle bit_operations_syntax

text \<open>
  The state of the running kernel: threads, processes, per-core data and the scheduler's globals,
  next to the machine of \<open>Vmm\<close>. Objects of type \<open>thread_t\<close> and \<open>process_t\<close> are kept by their
  address in typed stores, and the intrusive lists that link them (\<open>gt_list\<close>, \<open>pt_list\<close>,
  \<open>gp_list\<close>) are the sequences of addresses that \<open>Llist\<close> shows the list code to maintain; using
  an address that holds no object is the error \<open>PageFault\<close>. Saved register frames, stacks and all
  other memory are bytes of the machine. A core is identified by the number the hardware runs on;
  \<open>get_core_locals\<close> is the lookup of its record.
\<close>

section \<open>Threads and processes\<close>

datatype thread_state = THREAD_STOPPED | THREAD_RUNNING | THREAD_SLEEPING | THREAD_TERMINATED

record thread =
  t_regs :: u32
  t_state :: thread_state
  t_cpu :: u32
  t_tid :: u32
  t_parent :: u32
  user_stack :: u32
  kernel_stack :: u32
  v86_if :: bool
  sleep_time :: u32
  exitcode :: u32
  priority :: u32
  tsc_started :: u32
  tsc_stopped :: u32
  tsc_total :: u32

definition zero_thread :: thread where
  "zero_thread = \<lparr>t_regs = 0, t_state = THREAD_STOPPED, t_cpu = 0, t_tid = 0, t_parent = 0, user_stack = 0,
     kernel_stack = 0, v86_if = False, sleep_time = 0, exitcode = 0, priority = 0, tsc_started = 0,
     tsc_stopped = 0, tsc_total = 0\<rparr>"

record process =
  p_name :: "u8 list"
  p_cr3 :: u32
  p_ring :: u8
  p_heap :: u32
  p_elf_obj :: u32
  pt_list :: "u32 list"

section \<open>Cores\<close>

datatype core_state = CORE_OFFLINE | CORE_BOOTING | CORE_ONLINE | CORE_IDLE

record core_locals =
  in_irq :: bool
  nested_irq :: bool
  need_resched :: bool
  irq_regs :: u32
  c_state :: core_state
  current_thread :: u32
  idle_thread :: u32
  core_id :: u8
  idt_entries :: "idt_entry list"
  c_tss :: tss_entry

text \<open>The kernel functions a system call number can be bound to.\<close>

datatype syscall = Sched_thread_exit | Sched_thread_sleep | Sched_thread_yield | Test_handler

record kstate =
  mach :: mstate
  threads :: "u32 \<Rightarrow> thread option"
  procs :: "u32 \<Rightarrow> process option"
  thread_list :: "u32 list"
  proc_list :: "u32 list"
  kernel_proc :: u32
  idle_proc :: u32
  cores :: "nat \<Rightarrow> core_locals option"
  sched_dat :: bool
  next_tid :: u32
  global_ticks :: u32
  syscalls :: "u32 \<Rightarrow> syscall option"
  gdt_entries :: gdt_table
  lapic_ids :: "nat \<Rightarrow> u8"
  madt_cpu :: "(u8 \<times> u8 \<times> u32) list"
  lapic_writes :: "(nat \<times> u32 \<times> u32) list"
  dev :: dev_state
  v86_call_list :: "u32 list"
  v86_proc :: u32

section \<open>Accesses\<close>

text \<open>Operations of the machine, and the fields of the objects.\<close>

definition mach_op :: "(mstate, 'a) op \<Rightarrow> (kstate, 'a) op" where
  "mach_op f s = (case f (mach s) of Inl e \<Rightarrow> Inl e | Inr (x, m) \<Rightarrow> Inr (x, s\<lparr>mach := m\<rparr>))"

definition get_thread :: "u32 \<Rightarrow> (kstate, thread) op" where
  "get_thread p s = (case threads s p of None \<Rightarrow> Inl (PageFault p) | Some t \<Rightarrow> Inr (t, s))"

definition mod_thread :: "u32 \<Rightarrow> (thread \<Rightarrow> thread) \<Rightarrow> (kstate, unit) op" where
  "mod_thread p f s = (case threads s p of None \<Rightarrow> Inl (PageFault p)
     | Some t \<Rightarrow> Inr ((), s\<lparr>threads := (threads s)(p \<mapsto> f t)\<rparr>))"

definition get_proc :: "u32 \<Rightarrow> (kstate, process) op" where
  "get_proc p s = (case procs s p of None \<Rightarrow> Inl (PageFault p) | Some t \<Rightarrow> Inr (t, s))"

definition mod_proc :: "u32 \<Rightarrow> (process \<Rightarrow> process) \<Rightarrow> (kstate, unit) op" where
  "mod_proc p f s = (case procs s p of None \<Rightarrow> Inl (PageFault p)
     | Some t \<Rightarrow> Inr ((), s\<lparr>procs := (procs s)(p \<mapsto> f t)\<rparr>))"

definition get_core_locals :: "nat \<Rightarrow> (kstate, core_locals) op" where
  "get_core_locals c s = (case cores s c of None \<Rightarrow> Inl (PageFault 0) | Some l \<Rightarrow> Inr (l, s))"

definition mod_core :: "nat \<Rightarrow> (core_locals \<Rightarrow> core_locals) \<Rightarrow> (kstate, unit) op" where
  "mod_core c f s = (case cores s c of None \<Rightarrow> Inl (PageFault 0)
     | Some l \<Rightarrow> Inr ((), s\<lparr>cores := (cores s)(c \<mapsto> f l)\<rparr>))"

text \<open>Port accesses. The devices do not depend on which core talks to them.\<close>

definition io_op :: "(dev_state, 'a) op \<Rightarrow> (kstate, 'a) op" where
  "io_op f s = (case f (dev s) of Inl e \<Rightarrow> Inl e | Inr (x, d) \<Rightarrow> Inr (x, s\<lparr>dev := d\<rparr>))"

text \<open>Filling memory with zeros, the \<open>memset\<close> of a fresh object.\<close>

definition zero_bytes :: "u32 \<Rightarrow> nat \<Rightarrow> (mstate, unit) op" where
  "zero_bytes p n = sfor 0 n (\<lambda>i. vst8 (p + of_nat i) 0)"

section \<open>Register frames\<close>

text \<open>Field addresses of \<open>core_regs_t\<close>, the frame the interrupt stubs push.\<close>

abbreviation (input) r_cr3 :: "u32 \<Rightarrow> u32" where "r_cr3 r \<equiv> r"
abbreviation (input) r_ds :: "u32 \<Rightarrow> u32" where "r_ds r \<equiv> r + 4"
abbreviation (input) r_edi :: "u32 \<Rightarrow> u32" where "r_edi r \<equiv> r + 8"
abbreviation (input) r_esi :: "u32 \<Rightarrow> u32" where "r_esi r \<equiv> r + 12"
abbreviation (input) r_ebp :: "u32 \<Rightarrow> u32" where "r_ebp r \<equiv> r + 16"
abbreviation (input) r_esp :: "u32 \<Rightarrow> u32" where "r_esp r \<equiv> r + 20"
abbreviation (input) r_ebx :: "u32 \<Rightarrow> u32" where "r_ebx r \<equiv> r + 24"
abbreviation (input) r_edx :: "u32 \<Rightarrow> u32" where "r_edx r \<equiv> r + 28"
abbreviation (input) r_ecx :: "u32 \<Rightarrow> u32" where "r_ecx r \<equiv> r + 32"
abbreviation (input) r_eax :: "u32 \<Rightarrow> u32" where "r_eax r \<equiv> r + 36"
abbreviation (input) r_int_num :: "u32 \<Rightarrow> u32" where "r_int_num r \<equiv> r + 40"
abbreviation (input) r_int_err :: "u32 \<Rightarrow> u32" where "r_int_err r \<equiv> r + 44"
abbreviation (input) r_eip :: "u32 \<Rightarrow> u32" where "r_eip r \<equiv> r + 48"
abbreviation (input) r_cs :: "u32 \<Rightarrow> u32" where "r_cs r \<equiv> r + 52"
abbreviation (input) r_eflags :: "u32 \<Rightarrow> u32" where "r_eflags r \<equiv> r + 56"
abbreviation (input) r_user_esp :: "u32 \<Rightarrow> u32" where "r_user_esp r \<equiv> r + 60"
abbreviation (input) r_user_ss :: "u32 \<Rightarrow> u32" where "r_user_ss r \<equiv> r + 64"

abbreviation (input) CORE_REGS_BASE_SIZE :: u32 where "CORE_REGS_BASE_SIZE \<equiv> 60"
abbreviation (input) CORE_REGS_USER_SIZE :: u32 where "CORE_REGS_USER_SIZE \<equiv> 8"

section \<open>The task state segment of a core\<close>

text \<open>
  \<^verbatim>\<open>src/sys/tss.c\<close>. \<open>tss_addr\<close> is the address of the core's \<open>tss_entry\<close>; all cores write the
  one TSS descriptor of the shared table.
\<close>

definition gdt_op :: "(gdt_table, 'a) op \<Rightarrow> (kstate, 'a) op" where
  "gdt_op f s = (case f (gdt_entries s) of Inl e \<Rightarrow> Inl e | Inr (x, t) \<Rightarrow> Inr (x, s\<lparr>gdt_entries := t\<rparr>))"

definition tss_init :: "nat \<Rightarrow> u32 \<Rightarrow> (kstate, unit) op" where
  "tss_init c tss_addr =
     sthen (mod_core c (\<lambda>l. l\<lparr>c_tss := (c_tss l)\<lparr>iomap_base := 104, ss0 := DESC_SEG DESC_KERNEL_DATA PL_RING0,
        esp0 := 0x0BAD0BAD\<rparr>\<rparr>))
    (sthen (gdt_op (gdt_set_gate_base (unat DESC_TSS) tss_addr))
           (gdt_op (gdt_set_gate_type (unat DESC_TSS) 0x9)))"

definition set_kernel_stack :: "nat \<Rightarrow> u32 \<Rightarrow> (kstate, unit) op" where
  "set_kernel_stack c stk = mod_core c (\<lambda>l. l\<lparr>c_tss := (c_tss l)\<lparr>esp0 := stk\<rparr>\<rparr>)"

definition get_kernel_stack :: "nat \<Rightarrow> (kstate, u32) op" where
  "get_kernel_stack c = sbind (get_core_locals c) (\<lambda>l. sret (esp0 (c_tss l)))"

section \<open>The scheduler lock\<close>

text \<open>
  A core that asks for a lock that is held waits until another core releases it; as an operation
  of one core this is \<open>Diverges\<close>, and a step of the whole system is possible only when the lock is
  free.
\<close>

definition sched_lock :: "(kstate, unit) op" where
  "sched_lock = sbind (sget sched_dat) (\<lambda>d. if d then sfail Diverges else smod (sched_dat_update (\<lambda>_. True)))"

definition sched_unlock :: "(kstate, unit) op" where
  "sched_unlock = smod (sched_dat_update (\<lambda>_. False))"

section \<open>Inter-processor interrupts\<close>

text \<open>
  \<^verbatim>\<open>src/sys/smp.c\<close>: the sending of interrupts is a write of the local APIC's command registers by
  the sending core; \<open>madt_cpu\<close> is the list of processors (ACPI id, APIC id, flags) that the MADT
  named, and \<open>lapic_ids\<close> what the identification register of each core's APIC holds.
\<close>

definition write_lapic :: "nat \<Rightarrow> u32 \<Rightarrow> u32 \<Rightarrow> (kstate, unit) op" where
  "write_lapic c reg v = smod (lapic_writes_update (\<lambda>w. w @ [(c, reg, v)]))"

definition read_lapic_id :: "nat \<Rightarrow> (kstate, u32) op" where
  "read_lapic_id c = sget (\<lambda>s. push_bit 24 (ucast (lapic_ids s c)))"

definition smp_get_lapic_id :: "nat \<Rightarrow> (kstate, u8) op" where
  "smp_get_lapic_id c = sbind (read_lapic_id c) (\<lambda>v. sret (ucast (drop_bit 24 v AND 0xFF)))"

definition smp_send_ipi :: "nat \<Rightarrow> u8 \<Rightarrow> u32 \<Rightarrow> (kstate, unit) op" where
  "smp_send_ipi c ap ipi_number =
     sthen (write_lapic c 0x310 (push_bit 24 (ucast ap))) (write_lapic c 0x300 ipi_number)"

definition smp_send_global_ipi :: "nat \<Rightarrow> u32 \<Rightarrow> (kstate, unit) op" where
  "smp_send_global_ipi c ipi_number =
     sbind (sget madt_cpu) (siter (\<lambda>(acpi_processor_id, apic_id, cpu_flags).
       sbind (smp_get_lapic_id c) (\<lambda>own.
       swhen (apic_id \<noteq> own) (smp_send_ipi c apic_id ipi_number))))"

definition smp_send_global_interrupt :: "nat \<Rightarrow> u8 \<Rightarrow> (kstate, unit) op" where
  "smp_send_global_interrupt c int_num = smp_send_global_ipi c (push_bit 14 1 OR ucast int_num)"

end
