(* ===== verification/Thread.thy ===== *)
theory Thread
  imports Kstate
begin

unbundle bit_operations_syntax

text \<open>
  Creation and release of threads and processes: \<^verbatim>\<open>src/proc/thread.c\<close> and \<^verbatim>\<open>src/proc/proc.c\<close>.
  The objects come from the kernel heap; a fresh object is cleared in the machine's memory and
  entered in its typed store. The initial register frame of a thread is written to its kernel
  stack through the page walk.
\<close>

section \<open>Threads\<close>

abbreviation (input) THREAD_SIZE :: u32 where "THREAD_SIZE \<equiv> 72"
abbreviation (input) PROCESS_SIZE :: u32 where "PROCESS_SIZE \<equiv> 96"
abbreviation (input) HEAP_T_SIZE :: u32 where "HEAP_T_SIZE \<equiv> 28"

definition thread_alloc :: "symbols \<Rightarrow> (kstate, u32) op" where
  "thread_alloc L =
     sbind (mach_op (kmalloc L THREAD_SIZE)) (\<lambda>p.
     if p = 0 then sret p
     else sthen (mach_op (zero_bytes p (unat THREAD_SIZE)))
         (sthen (smod (\<lambda>s. s\<lparr>threads := (threads s)(p \<mapsto> zero_thread)\<rparr>))
         (sbind (mach_op (kmalloc_a L PAGE_SIZE)) (\<lambda>stk.
          sthen (mod_thread p (\<lambda>t. t\<lparr>kernel_stack := stk + PAGE_SIZE,
                   t_regs := stk + PAGE_SIZE - CORE_REGS_BASE_SIZE\<rparr>))
                (sret p)))))"

definition thread_free :: "symbols \<Rightarrow> u32 \<Rightarrow> (kstate, unit) op" where
  "thread_free L p =
     swhen (p \<noteq> 0)
       (sbind (get_thread p) (\<lambda>t.
        sthen (swhen (user_stack t \<noteq> 0)
          (sthen (mod_thread p (user_stack_update (\<lambda>u. u - PAGE_SIZE)))
          (sbind (get_proc (t_parent t)) (\<lambda>pr.
           sbind (mach_op (vmm_replace_cr3 (p_cr3 pr))) (\<lambda>old_cr3.
           sthen (mach_op (heap_free L (p_heap pr) (user_stack t - PAGE_SIZE)))
          (sthen (mach_op (vmm_replace_cr3 old_cr3)) (sret ())))))))
       (sthen (mach_op (kfree L (kernel_stack t - PAGE_SIZE)))
       (sthen (mach_op (kfree L p))
              (smod (\<lambda>s. s\<lparr>threads := (threads s)(p := None)\<rparr>))))))"

text \<open>
  \<open>thread_create\<close> in its parts: the segment registers and the user stack by privilege level, and
  the rest of the frame.
\<close>

definition user_frame :: "symbols \<Rightarrow> process \<Rightarrow> u32 \<Rightarrow> (kstate, unit) op" where
  "user_frame L pr p =
     sthen (mod_thread p (\<lambda>t. t\<lparr>t_regs := t_regs t - CORE_REGS_USER_SIZE\<rparr>))
    (sbind (mach_op (vmm_replace_cr3 (p_cr3 pr))) (\<lambda>old_cr3.
     sbind (mach_op (heap_malloc L (p_heap pr) PAGE_SIZE True)) (\<lambda>u.
     sthen (mod_thread p (\<lambda>t. t\<lparr>user_stack := u + PAGE_SIZE\<rparr>))
    (sthen (mach_op (vmm_replace_cr3 old_cr3))
    (sbind (get_thread p) (\<lambda>t.
     sthen (mach_op (vst (r_cs (t_regs t)) (DESC_SEG DESC_USER_CODE PL_RING3)))
    (sthen (mach_op (vst (r_ds (t_regs t)) (DESC_SEG DESC_USER_DATA PL_RING3)))
    (sbind (mach_op (vld (r_ds (t_regs t)))) (\<lambda>ds.
     sthen (mach_op (vst (r_user_ss (t_regs t)) ds))
           (mach_op (vst (r_user_esp (t_regs t)) (user_stack t)))))))))))) "

definition kernel_frame :: "u32 \<Rightarrow> (kstate, unit) op" where
  "kernel_frame p =
     sthen (mod_thread p (\<lambda>t. t\<lparr>user_stack := 0\<rparr>))
    (sbind (get_thread p) (\<lambda>t.
     sthen (mach_op (vst (r_cs (t_regs t)) (DESC_SEG DESC_KERNEL_CODE PL_RING0)))
           (mach_op (vst (r_ds (t_regs t)) (DESC_SEG DESC_KERNEL_DATA PL_RING0)))))"

definition common_frame :: "u32 \<Rightarrow> u32 \<Rightarrow> process \<Rightarrow> u32 \<Rightarrow> (kstate, unit) op" where
  "common_frame proc entry pr p =
     sbind (sget next_tid) (\<lambda>n.
     sthen (smod (next_tid_update (\<lambda>n. n + 1)))
    (sthen (mod_thread p (\<lambda>t. t\<lparr>t_tid := n, t_state := THREAD_STOPPED, t_parent := proc, t_cpu := - 1\<rparr>))
    (sbind (get_thread p) (\<lambda>t.
     sthen (mach_op (vst (r_eip (t_regs t)) entry))
    (sthen (mach_op (vst (r_cr3 (t_regs t)) (p_cr3 pr)))
    (sthen (mach_op (vst (r_esp (t_regs t)) (kernel_stack t)))
           (mach_op (vst (r_eflags (t_regs t)) 0x202))))))))"

definition add_thread2proc :: "u32 \<Rightarrow> u32 \<Rightarrow> (kstate, unit) op" where
  "add_thread2proc proc p = mod_proc proc (pt_list_update (\<lambda>xs. xs @ [p]))"

definition thread_create :: "symbols \<Rightarrow> u32 \<Rightarrow> u32 \<Rightarrow> (kstate, u32) op" where
  "thread_create L proc entry =
     sthen sched_lock
    (sbind (thread_alloc L) (\<lambda>p.
     sthen (swhen (p \<noteq> 0)
       (sbind (get_proc proc) (\<lambda>pr.
        sthen (if p_ring pr = 3 then user_frame L pr p else kernel_frame p)
       (sthen (common_frame proc entry pr p)
              (add_thread2proc proc p)))))
    (sthen sched_unlock (sret p))))"

section \<open>Processes\<close>

text \<open>
  The bytes of \<open>name[64]\<close> after the copy of a name into the cleared object. The byte that
  \<open>strncpy\<close> writes behind a name of 63 or more characters falls on the first byte of \<open>cr3\<close>, which
  is zero at that time.
\<close>

definition name_field :: "u8 list \<Rightarrow> u8 list" where
  "name_field name = take 64 (name @ replicate 64 0)"

definition proc_alloc :: "symbols \<Rightarrow> u8 list \<Rightarrow> u8 \<Rightarrow> (kstate, u32) op" where
  "proc_alloc L name ring =
     sbind (mach_op (kmalloc L PROCESS_SIZE)) (\<lambda>p.
     if p = 0 then sret p
     else sthen (mach_op (zero_bytes p (unat PROCESS_SIZE)))
         (sthen (smod (\<lambda>s. s\<lparr>procs := (procs s)(p \<mapsto> \<lparr>p_name = name_field name, p_cr3 = 0, p_ring = 0,
                    p_heap = 0, p_elf_obj = 0, pt_list = []\<rparr>)\<rparr>))
         (sthen (if ring = 3 then
                   sbind (mach_op (kmalloc L HEAP_T_SIZE)) (\<lambda>h.
                   sthen (mod_proc p (p_heap_update (\<lambda>_. h)))
                  (sbind (mach_op (vmm_fork_kernel_space L)) (\<lambda>dir.
                   sthen (mod_proc p (p_cr3_update (\<lambda>_. dir)))
                  (sbind (mach_op (vmm_replace_cr3 dir)) (\<lambda>old_cr3.
                   sthen (mach_op (createHeap L h dir 0x50000000 HEAP_MIN_SIZE (0x50000000 + HEAP_MIN_SIZE * 2) 7))
                  (sthen (mach_op (vmm_replace_cr3 old_cr3)) (sret ())))))))
                 else sbind (sget mach) (\<lambda>m.
                   mod_proc p (\<lambda>pr. pr\<lparr>p_cr3 := base_kernel_cr3 m, p_heap := kernel_heap m\<rparr>)))
         (sthen (mod_proc p (p_ring_update (\<lambda>_. ring)))
                (sret p)))))"

text \<open>
  The loop of \<open>proc_free\<close> reads the link of a thread after the thread was released; the release
  leaves those words alone, so it visits the threads in order.
\<close>

definition proc_free :: "symbols \<Rightarrow> u32 \<Rightarrow> (kstate, unit) op" where
  "proc_free L p =
     swhen (p \<noteq> 0)
       (sbind (get_proc p) (\<lambda>pr.
        sthen (siter (thread_free L) (pt_list pr))
       (sthen (mach_op (vmm_free_cr3 L (p_cr3 pr)))
       (sthen (mach_op (kfree L p))
              (smod (\<lambda>s. s\<lparr>procs := (procs s)(p := None)\<rparr>))))))"

text \<open>\<open>kernel_obj\<close> is the address of \<open>kernel_table_obj\<close>.\<close>

definition proc_create_kernel :: "symbols \<Rightarrow> u32 \<Rightarrow> u8 list \<Rightarrow> u8 \<Rightarrow> (kstate, u32) op" where
  "proc_create_kernel L kernel_obj name ring =
     sbind (proc_alloc L name ring) (\<lambda>p.
     sthen (swhen (p \<noteq> 0) (mod_proc p (p_elf_obj_update (\<lambda>_. kernel_obj)))) (sret p))"

section \<open>Frames of building a thread\<close>

text \<open>The frame of building thread \<open>p\<close>: cores, lists, globals and every other thread stay.\<close>

definition only_thread :: "u32 \<Rightarrow> kstate \<Rightarrow> kstate \<Rightarrow> bool" where
  "only_thread p s t \<longleftrightarrow> cores t = cores s \<and> thread_list t = thread_list s \<and> proc_list t = proc_list s \<and>
     kernel_proc t = kernel_proc s \<and> idle_proc t = idle_proc s \<and> (\<forall>q. q \<noteq> p \<longrightarrow> threads t q = threads s q) \<and>
     (threads s p \<noteq> None \<longrightarrow> threads t p \<noteq> None)"

interpretation only_thread: frame_rel "only_thread p" for p
  by unfold_locales (auto simp: only_thread_def)

lemma mach_op_Inr: "mach_op f s = Inr (x, t) \<longleftrightarrow> (\<exists>m. f (mach s) = Inr (x, m) \<and> t = s\<lparr>mach := m\<rparr>)"
  by (auto simp: mach_op_def split: sum.splits prod.splits)

lemma mod_thread_Inr: "mod_thread p f s = Inr (x, t) \<longleftrightarrow>
    (\<exists>u. threads s p = Some u \<and> t = s\<lparr>threads := (threads s)(p \<mapsto> f u)\<rparr>)"
  by (auto simp: mod_thread_def split: option.splits)

lemma get_thread_Inr: "get_thread p s = Inr (u, t) \<longleftrightarrow> threads s p = Some u \<and> t = s"
  by (auto simp: get_thread_def split: option.splits)

lemma only_thread_ops:
  "only_thread.keeps p (mach_op f)" "only_thread.keeps p (mod_thread p g)" "only_thread.keeps p (get_thread q)"
  "only_thread.keeps p (get_proc r)" "only_thread.keeps p (mod_proc r h)" "only_thread.keeps p sched_unlock"
  "only_thread.keeps p (smod (next_tid_update k))"
  by (auto simp: only_thread.keeps_def only_thread_def mach_op_Inr mod_thread_Inr get_thread_Inr get_proc_def mod_proc_def
      sched_unlock_def split: option.splits)

lemma frames_keep:
  "only_thread.keeps p (user_frame L pr p)" "only_thread.keeps p (kernel_frame p)"
  "only_thread.keeps p (common_frame proc entry pr p)" "only_thread.keeps p (add_thread2proc proc p)"
  unfolding user_frame_def kernel_frame_def common_frame_def add_thread2proc_def
  by (intro only_thread.keeps_intros only_thread_ops)+

lemma get_proc_Inr: "get_proc p s = Inr (u, t) \<longleftrightarrow> procs s p = Some u \<and> t = s"
  by (auto simp: get_proc_def split: option.splits)

lemma common_frame_state:
  "common_frame proc entry pr p s = Inr (x, t) \<Longrightarrow> map_option t_state (threads t p) = Some THREAD_STOPPED"
  by (auto simp: common_frame_def sbind_eq_Inr sthen_eq_Inr mach_op_Inr mod_thread_Inr get_thread_Inr)

lemma thread_alloc_frame:
  "thread_alloc L s = Inr (p, t) \<Longrightarrow> only_thread p s t \<and> (p \<noteq> 0 \<longrightarrow> threads t p \<noteq> None) \<and> (p = 0 \<longrightarrow> threads t = threads s)"
  by (auto simp: thread_alloc_def only_thread_def sbind_eq_Inr sthen_eq_Inr mach_op_Inr mod_thread_Inr split: if_splits)

lemma only_thread_trans: "only_thread p s t \<Longrightarrow> only_thread p t u \<Longrightarrow> only_thread p s u"
  by (rule only_thread.R_trans)

lemma thread_create_frame:
  assumes "thread_create L proc entry s = Inr (p, t)"
  shows "only_thread p s t \<and> (if p = 0 then threads t = threads s else map_option t_state (threads t p) = Some THREAD_STOPPED)"
proof -
  from assms obtain s1 where a: "thread_alloc L (s\<lparr>sched_dat := True\<rparr>) = Inr (p, s1)"
    and b: "sthen (swhen (p \<noteq> 0) (sbind (get_proc proc) (\<lambda>pr. sthen (if p_ring pr = 3 then user_frame L pr p else kernel_frame p)
       (sthen (common_frame proc entry pr p) (add_thread2proc proc p))))) (sthen sched_unlock (sret p)) s1 = Inr (p, t)"
    by (auto simp: thread_create_def sbind_eq_Inr sthen_eq_Inr sched_lock_def split: if_splits)
  from a have s1: "only_thread p s s1" "p \<noteq> 0 \<Longrightarrow> threads s1 p \<noteq> None" "p = 0 \<Longrightarrow> threads s1 = threads s"
    using thread_alloc_frame [OF a] by (auto simp: only_thread_def)
  show ?thesis
  proof (cases "p = 0")
    case True
    then have "t = s1\<lparr>sched_dat := False\<rparr>" using b by (auto simp: sthen_eq_Inr sched_unlock_def)
    then show ?thesis using s1(1) s1(3) [OF True] True by (simp add: only_thread_def)
  next
    case False
    with b obtain pr s2 s3 s4 where o: "(if p_ring pr = 3 then user_frame L pr p else kernel_frame p) s1 = Inr ((), s2)"
      "common_frame proc entry pr p s2 = Inr ((), s3)" "add_thread2proc proc p s3 = Inr ((), s4)" "t = s4\<lparr>sched_dat := False\<rparr>"
      by (auto simp: sthen_eq_Inr sbind_eq_Inr get_proc_Inr sched_unlock_def)
    have "only_thread p s1 s2"
      using o(1) only_thread.keepsD [OF frames_keep(1)] only_thread.keepsD [OF frames_keep(2)] by (auto split: if_splits)
    moreover have "only_thread p s2 s3" by (rule only_thread.keepsD [OF frames_keep(3) o(2)])
    moreover have "only_thread p s3 s4" by (rule only_thread.keepsD [OF frames_keep(4) o(3)])
    ultimately have "only_thread p s s4" using s1(1) only_thread_trans by blast
    moreover have "threads s4 = threads s3" using o(3) by (auto simp: add_thread2proc_def mod_proc_def split: option.splits)
    ultimately show ?thesis using False common_frame_state [OF o(2)] o(4) by (simp add: only_thread_def)
  qed
qed

end
