(* ===== verification/Sched.thy ===== *)
theory Sched
  imports Thread
begin

unbundle bit_operations_syntax

text \<open>
  The scheduler, \<^verbatim>\<open>src/proc/sched.c\<close>. Every function takes the core it runs on. The states of cores
  and threads form the state machine of the section on steps: one step is one whole operation of
  one core, as the interrupt gates run them with interrupts disabled. \<open>sched_inv\<close> is the
  agreement between the cores' records and the threads' states that makes the assertions of the
  scheduler hold.
\<close>

section \<open>Operations\<close>

definition sched_panic :: "nat \<Rightarrow> (kstate, unit) op" where
  "sched_panic c = smp_send_global_interrupt c 0xF1"

definition wake_thread :: "u32 \<Rightarrow> (kstate, unit) op" where
  "wake_thread p =
     sbind (get_thread p) (\<lambda>t.
     swhen (t_state t = THREAD_SLEEPING)
       (let left = sleep_time t - (if PIT_SPEED_US * 8 > sleep_time t then sleep_time t else PIT_SPEED_US * 8)
        in sthen (mod_thread p (sleep_time_update (\<lambda>_. left)))
                 (swhen (left = 0) (mod_thread p (t_state_update (\<lambda>_. THREAD_STOPPED))))))"

definition update_sleeping_threads :: "nat \<Rightarrow> (kstate, unit) op" where
  "update_sleeping_threads c =
     sbind (get_core_locals c) (\<lambda>l.
     if core_id l \<noteq> 0 then sret ()
     else sbind (sget thread_list) (siter wake_thread))"

definition pick_step :: "u8 \<Rightarrow> u32 \<Rightarrow> u32 \<times> u32 \<Rightarrow> (kstate, u32 \<times> u32) op" where
  "pick_step cid p acc =
     sbind (get_thread p) (\<lambda>t.
     sret (if (t_cpu t = - 1 \<or> t_cpu t = ucast cid) \<and> t_state t = THREAD_STOPPED \<and> priority t < snd acc
           then (p, priority t) else acc))"

definition pick_thread :: "nat \<Rightarrow> (kstate, u32) op" where
  "pick_thread c =
     sbind (get_core_locals c) (\<lambda>l.
     sbind (sget thread_list) (\<lambda>ps.
     sbind (sfold (pick_step (core_id l)) ps (0, 0xFFFFFFFF)) (\<lambda>acc. sret (fst acc))))"

definition save_thread :: "nat \<Rightarrow> u32 \<Rightarrow> thread_state \<Rightarrow> (kstate, unit) op" where
  "save_thread c p st =
     sthen (sassert (p \<noteq> 0))
    (sthen (mod_thread p (t_state_update (\<lambda>_. st)))
    (sbind (get_core_locals c) (\<lambda>l. mod_thread p (t_regs_update (\<lambda>_. irq_regs l)))))"

definition load_thread :: "nat \<Rightarrow> u32 \<Rightarrow> (kstate, unit) op" where
  "load_thread c p =
     sthen (sassert (p \<noteq> 0))
    (sthen (mod_core c (\<lambda>l. if c_state l = CORE_IDLE then l\<lparr>c_state := CORE_ONLINE\<rparr> else l))
    (sthen (mod_core c (current_thread_update (\<lambda>_. p)))
    (sbind (get_thread p) (\<lambda>t.
     sthen (mod_core c (irq_regs_update (\<lambda>_. t_regs t)))
    (sthen (mod_thread p (t_state_update (\<lambda>_. THREAD_RUNNING)))
           (set_kernel_stack c (kernel_stack t)))))))"

definition enter_idle :: "nat \<Rightarrow> (kstate, unit) op" where
  "enter_idle c =
     sbind (get_core_locals c) (\<lambda>l.
     sthen (sassert (current_thread l = 0))
    (sthen (mod_core c (c_state_update (\<lambda>_. CORE_IDLE)))
    (sbind (get_thread (idle_thread l)) (\<lambda>t.
     sthen (mod_core c (irq_regs_update (\<lambda>_. t_regs t)))
           (set_kernel_stack c (kernel_stack t))))))"

definition sched_switch :: "nat \<Rightarrow> u32 \<Rightarrow> (kstate, unit) op" where
  "sched_switch c new =
     sbind (get_core_locals c) (\<lambda>l.
     case c_state l of
       CORE_ONLINE \<Rightarrow>
         sthen (sassert (current_thread l \<noteq> 0))
        (sbind (get_thread (current_thread l)) (\<lambda>t.
         sthen (sassert (t_state t = THREAD_RUNNING))
         (if new = 0 then sret ()
          else sthen (save_thread c (current_thread l) THREAD_STOPPED) (load_thread c new))))
     | CORE_IDLE \<Rightarrow>
         sthen (sassert (current_thread l = 0))
         (if new = 0 then sret () else load_thread c new)
     | CORE_BOOTING \<Rightarrow> sthen (sassert (current_thread l = 0)) (enter_idle c)
     | CORE_OFFLINE \<Rightarrow> sret ())"

definition sched :: "nat \<Rightarrow> (kstate, unit) op" where
  "sched c =
     sthen (update_sleeping_threads c)
    (sbind (pick_thread c) (\<lambda>new. sched_switch c new))"

definition sched_runner :: "nat \<Rightarrow> (kstate, unit) op" where
  "sched_runner c =
     sbind (sget sched_dat) (\<lambda>locked.
     if locked then sret ()
     else sthen (smod (sched_dat_update (\<lambda>_. True)))
         (sthen (sched c) sched_unlock))"

text \<open>The handler of interrupt \<open>0xF1\<close>: the core goes offline and halts for ever.\<close>

definition go_offline :: "nat \<Rightarrow> (kstate, unit) op" where
  "go_offline c = mod_core c (c_state_update (\<lambda>_. CORE_OFFLINE))"

definition core_panic :: "nat \<Rightarrow> (kstate, unit) op" where
  "core_panic c = sthen (go_offline c) (sfail Halted)"

definition proc_have_thread :: "u32 \<Rightarrow> (kstate, bool) op" where
  "proc_have_thread p = sbind (get_proc p) (\<lambda>pr. sret (pt_list pr \<noteq> []))"

definition sched_all :: "nat \<Rightarrow> (kstate, unit) op" where
  "sched_all c =
     sbind (sget proc_list) (\<lambda>ps.
     if ps = [] then sret ()
     else sbind (sget kernel_proc) (\<lambda>kp.
          sbind (proc_have_thread kp) (\<lambda>have.
          if \<not> have then sret ()
          else sthen (sched_runner c) (smp_send_global_interrupt c 0xF0))))"

definition add_thread :: "u32 \<Rightarrow> (kstate, unit) op" where
  "add_thread p = smod (thread_list_update (\<lambda>ps. ps @ [p]))"

definition add_stopped :: "u32 \<Rightarrow> (kstate, unit) op" where
  "add_stopped p = sbind (get_thread p) (\<lambda>t. sthen (sassert (t_state t = THREAD_STOPPED)) (add_thread p))"

definition sched_run_thread :: "u32 \<Rightarrow> (kstate, unit) op" where
  "sched_run_thread p =
     sbind (mach_op interrupt_lock) (\<lambda>state.
     sthen sched_lock
    (sthen (add_stopped p)
    (sthen sched_unlock
           (mach_op (interrupt_unlock state)))))"

definition add_proc :: "u32 \<Rightarrow> (kstate, unit) op" where
  "add_proc p = smod (proc_list_update (\<lambda>ps. ps @ [p]))"

definition sched_run_proc :: "u32 \<Rightarrow> (kstate, unit) op" where
  "sched_run_proc p =
     sbind (mach_op interrupt_lock) (\<lambda>state.
     sthen sched_lock
    (sbind (get_proc p) (\<lambda>pr.
     sthen (sassert (pt_list pr \<noteq> []))
    (sthen (add_proc p)
    (sthen (siter add_stopped (pt_list pr))
    (sthen sched_unlock
           (mach_op (interrupt_unlock state))))))))"

text \<open>\<open>idle_entry\<close> is the address of \<open>_idle\<close>.\<close>

definition sched_init_core :: "symbols \<Rightarrow> u32 \<Rightarrow> nat \<Rightarrow> (kstate, unit) op" where
  "sched_init_core L idle_entry c =
     sbind (sget idle_proc) (\<lambda>ip.
     sbind (thread_create L ip idle_entry) (\<lambda>p.
     sthen (mod_core c (idle_thread_update (\<lambda>_. p)))
    (sthen (mod_core c (current_thread_update (\<lambda>_. 0)))
           (mod_core c (c_state_update (\<lambda>_. CORE_BOOTING))))))"

text \<open>
  \<open>sched_thread_exit\<close> and \<open>sched_thread_sleep\<close>: the part up to the saving of the thread, after which
  other cores see its new state, and the part that lets go of it. Neither takes the lock.
\<close>

definition leave_thread :: "nat \<Rightarrow> (thread \<Rightarrow> thread) \<Rightarrow> (kstate, unit) op" where
  "leave_thread c f =
     sbind (get_core_locals c) (\<lambda>l.
     sthen (mod_thread (current_thread l) f)
    (sthen (mod_core c (current_thread_update (\<lambda>_. 0)))
           (enter_idle c)))"

definition sched_thread_exit :: "nat \<Rightarrow> u32 \<Rightarrow> (kstate, unit) op" where
  "sched_thread_exit c code =
     sbind (get_core_locals c) (\<lambda>l.
     swhen (current_thread l \<noteq> 0 \<and> in_irq l)
       (sthen (save_thread c (current_thread l) THREAD_TERMINATED)
              (leave_thread c (exitcode_update (\<lambda>_. code)))))"

definition sched_thread_sleep :: "nat \<Rightarrow> u32 \<Rightarrow> (kstate, unit) op" where
  "sched_thread_sleep c time_ms =
     sbind (get_core_locals c) (\<lambda>l.
     swhen (current_thread l \<noteq> 0 \<and> in_irq l)
       (sthen (save_thread c (current_thread l) THREAD_SLEEPING)
              (leave_thread c (sleep_time_update (\<lambda>_. time_ms * 1000)))))"

definition sched_thread_yield :: "nat \<Rightarrow> (kstate, unit) op" where
  "sched_thread_yield c = sched_runner c"

definition syscalls_set :: "u32 \<Rightarrow> syscall \<Rightarrow> (kstate, unit) op" where
  "syscalls_set num call =
     (if num \<ge> 256 then sret () else smod (syscalls_update (\<lambda>m. m(num \<mapsto> call))))"

definition sched_init :: "symbols \<Rightarrow> u32 \<Rightarrow> u32 \<Rightarrow> (kstate, unit) op" where
  "sched_init L kernel_obj entry =
     sbind (mach_op interrupt_lock) (\<lambda>state.
     sthen (smod (proc_list_update (\<lambda>_. [])))
    (sthen (smod (thread_list_update (\<lambda>_. [])))
    (sthen (mach_op (register_int_handler 0xF0 Sched_runner))
    (sthen (mach_op (register_int_handler 0xF1 Core_panic))
    (sthen (syscalls_set 0 Sched_thread_exit)
    (sthen (syscalls_set 1 Sched_thread_sleep)
    (sthen (syscalls_set 2 Sched_thread_yield)
    (sbind (proc_create_kernel L kernel_obj (map (\<lambda>ch. of_nat (of_char ch)) ''_kernel'') 0) (\<lambda>kp.
     sthen (smod (kernel_proc_update (\<lambda>_. kp)))
    (sbind (proc_create_kernel L kernel_obj (map (\<lambda>ch. of_nat (of_char ch)) ''_idle'') 0) (\<lambda>ip.
     sthen (smod (idle_proc_update (\<lambda>_. ip)))
    (sbind (thread_create L kp entry) (\<lambda>_.
     mach_op (interrupt_unlock state))))))))))))))"

section \<open>Waking and picking\<close>

text \<open>What one pass over a sleeping thread does to it.\<close>

definition wake :: "thread \<Rightarrow> thread" where
  "wake t = (if t_state t = THREAD_SLEEPING then
     if sleep_time t < 31993 then t\<lparr>sleep_time := 0, t_state := THREAD_STOPPED\<rparr>
     else t\<lparr>sleep_time := sleep_time t - 31992\<rparr> else t)"

lemma wake_thread_some:
  assumes "threads s p = Some t"
  shows "wake_thread p s = Inr ((), s\<lparr>threads := (threads s)(p \<mapsto> wake t)\<rparr>)"
proof -
  have "sleep_time t - 31992 = 0 \<longleftrightarrow> sleep_time t = 31992" by auto
  moreover have "sleep_time t < 31993 \<longleftrightarrow> sleep_time t < 31992 \<or> sleep_time t = 31992"
    using word_less_1 [of 0] by (auto simp: word_less_nat_alt word_unat_eq_iff)
  ultimately show ?thesis
    using assms by (auto simp: wake_thread_def get_thread_def mod_thread_def sbind_def sthen_def wake_def Let_def
        fun_upd_idem not_less)
qed

lemma wake_threads:
  assumes "\<forall>p \<in> set ps. threads s p \<noteq> None" "distinct ps"
  shows "siter wake_thread ps s = Inr ((), s\<lparr>threads := (\<lambda>p. if p \<in> set ps then map_option wake (threads s p) else threads s p)\<rparr>)"
  using assms
proof (induction ps arbitrary: s)
  case (Cons p ps)
  obtain t where t: "threads s p = Some t" using Cons.prems(1) by auto
  let ?s = "s\<lparr>threads := (threads s)(p \<mapsto> wake t)\<rparr>"
  have "siter wake_thread ps ?s = Inr ((), ?s\<lparr>threads := (\<lambda>q. if q \<in> set ps then map_option wake (threads ?s q) else threads ?s q)\<rparr>)"
    using Cons.prems by (intro Cons.IH) auto
  moreover have "(\<lambda>q. if q \<in> set ps then map_option wake (threads ?s q) else threads ?s q) =
      (\<lambda>q. if q \<in> set (p # ps) then map_option wake (threads s q) else threads s q)"
    using t Cons.prems(2) by (auto simp: fun_eq_iff)
  ultimately show ?case using wake_thread_some [OF t] by (simp add: sthen_def sbind_def)
qed simp

definition woken :: "nat \<Rightarrow> kstate \<Rightarrow> u32 \<Rightarrow> thread option" where
  "woken c s p = (if p \<in> set (thread_list s) \<and> (\<exists>l. cores s c = Some l \<and> core_id l = 0)
     then map_option wake (threads s p) else threads s p)"

lemma update_sleeping_threads_eq:
  assumes "\<forall>p \<in> set (thread_list s). threads s p \<noteq> None" "distinct (thread_list s)" "cores s c = Some l"
  shows "update_sleeping_threads c s = Inr ((), s\<lparr>threads := woken c s\<rparr>)"
proof (cases "core_id l = 0")
  case True
  then have "woken c s = (\<lambda>p. if p \<in> set (thread_list s) then map_option wake (threads s p) else threads s p)"
    using assms(3) by (auto simp: woken_def)
  with True show ?thesis using wake_threads [OF assms(1,2)] assms(3)
    by (simp add: update_sleeping_threads_def get_core_locals_def sbind_def)
next
  case False
  then have "woken c s = threads s" using assms(3) by (auto simp: woken_def)
  with False show ?thesis using assms(3) by (simp add: update_sleeping_threads_def get_core_locals_def sbind_def)
qed

text \<open>A thread that core number \<open>cid\<close> may run next.\<close>

definition ready :: "kstate \<Rightarrow> u8 \<Rightarrow> u32 \<Rightarrow> bool" where
  "ready s cid p = (case threads s p of None \<Rightarrow> False | Some t \<Rightarrow>
     (t_cpu t = - 1 \<or> t_cpu t = ucast cid) \<and> t_state t = THREAD_STOPPED)"

definition prio :: "kstate \<Rightarrow> u32 \<Rightarrow> u32" where
  "prio s p = (case threads s p of None \<Rightarrow> 0 | Some t \<Rightarrow> priority t)"

lemma pick_fold:
  assumes "\<forall>p \<in> set ps. threads s p \<noteq> None"
  shows "sfold (pick_step cid) ps acc s =
    Inr (fold (\<lambda>p acc. if ready s cid p \<and> prio s p < snd acc then (p, prio s p) else acc) ps acc, s)"
  using assms
proof (induction ps arbitrary: acc)
  case (Cons p ps)
  obtain t where "threads s p = Some t" using Cons.prems by auto
  then have "pick_step cid p acc s = Inr (if ready s cid p \<and> prio s p < snd acc then (p, prio s p) else acc, s)"
    by (auto simp: pick_step_def get_thread_def sbind_def ready_def prio_def)
  with Cons show ?case by (simp add: sbind_def)
qed simp

text \<open>
  The choice of \<open>pick_thread\<close>: the ready thread of least priority value that comes first in the
  list. The value \<open>0xFFFFFFFF\<close> is never chosen.
\<close>

definition chosen :: "kstate \<Rightarrow> u8 \<Rightarrow> u32 list \<Rightarrow> u32 \<Rightarrow> bool" where
  "chosen s cid ps p \<longleftrightarrow> (\<exists>as bs. ps = as @ p # bs \<and> ready s cid p \<and> prio s p < 0xFFFFFFFF \<and>
     (\<forall>q \<in> set as. ready s cid q \<longrightarrow> prio s p < prio s q) \<and> (\<forall>q \<in> set bs. ready s cid q \<longrightarrow> prio s p \<le> prio s q))"

lemma pick_fold_inv:
  fixes acc :: "u32 \<times> u32"
  assumes "f = fold (\<lambda>p acc. if ready s cid p \<and> prio s p < snd acc then (p, prio s p) else acc) ps acc"
  shows "f = acc \<and> (\<forall>q \<in> set ps. ready s cid q \<longrightarrow> snd acc \<le> prio s q) \<or>
    (\<exists>as bs. ps = as @ fst f # bs \<and> ready s cid (fst f) \<and> snd f = prio s (fst f) \<and> prio s (fst f) < snd acc \<and>
       (\<forall>q \<in> set as. ready s cid q \<longrightarrow> prio s (fst f) < prio s q) \<and>
       (\<forall>q \<in> set bs. ready s cid q \<longrightarrow> prio s (fst f) \<le> prio s q))"
  using assms
proof (induction ps arbitrary: acc)
  case (Cons p ps)
  define acc' where "acc' = (if ready s cid p \<and> prio s p < snd acc then (p, prio s p) else acc)"
  have f: "f = fold (\<lambda>p acc. if ready s cid p \<and> prio s p < snd acc then (p, prio s p) else acc) ps acc'"
    using Cons.prems by (simp add: acc'_def)
  from Cons.IH [OF f] show ?case
  proof
    assume "f = acc' \<and> (\<forall>q \<in> set ps. ready s cid q \<longrightarrow> snd acc' \<le> prio s q)"
    then show ?thesis
      by (cases "ready s cid p \<and> prio s p < snd acc") (auto simp: acc'_def intro: exI [of _ "[]"])
  next
    assume "\<exists>as bs. ps = as @ fst f # bs \<and> ready s cid (fst f) \<and> snd f = prio s (fst f) \<and> prio s (fst f) < snd acc' \<and>
       (\<forall>q \<in> set as. ready s cid q \<longrightarrow> prio s (fst f) < prio s q) \<and>
       (\<forall>q \<in> set bs. ready s cid q \<longrightarrow> prio s (fst f) \<le> prio s q)"
    then obtain as bs where ab: "ps = as @ fst f # bs" "ready s cid (fst f)" "snd f = prio s (fst f)"
      "prio s (fst f) < snd acc'" "\<forall>q \<in> set as. ready s cid q \<longrightarrow> prio s (fst f) < prio s q"
      "\<forall>q \<in> set bs. ready s cid q \<longrightarrow> prio s (fst f) \<le> prio s q" by blast
    have "prio s (fst f) < snd acc" "ready s cid p \<longrightarrow> prio s (fst f) < prio s p"
      using ab(4) by (auto simp: acc'_def split: if_splits)
    with ab show ?thesis by (intro disjI2 exI [of _ "p # as"] exI [of _ bs]) auto
  qed
qed simp

lemma pick_thread_eq:
  assumes "\<forall>p \<in> set (thread_list s). threads s p \<noteq> None" "cores s c = Some l"
  shows "\<exists>p. pick_thread c s = Inr (p, s) \<and>
    (p = 0 \<and> (\<forall>q \<in> set (thread_list s). ready s (core_id l) q \<longrightarrow> prio s q = 0xFFFFFFFF) \<or>
     chosen s (core_id l) (thread_list s) p)"
proof -
  define f where "f = fold (\<lambda>p acc. if ready s (core_id l) p \<and> prio s p < snd acc then (p, prio s p) else acc)
    (thread_list s) (0, 0xFFFFFFFF)"
  have "pick_thread c s = Inr (fst f, s)"
    using pick_fold [OF assms(1), of "core_id l" "(0, 0xFFFFFFFF)"] assms(2)
    by (simp add: pick_thread_def get_core_locals_def sbind_def f_def)
  moreover have "x = 0xFFFFFFFF" if "0xFFFFFFFF \<le> x" for x :: u32
  proof -
    have "unat x < 4294967296" by simp
    then have "unat x \<le> 4294967295" by linarith
    then have "x \<le> 0xFFFFFFFF" by (simp add: word_le_nat_alt)
    with that show ?thesis by simp
  qed
  moreover from pick_fold_inv [OF f_def]
  have "f = (0, 0xFFFFFFFF) \<and> (\<forall>q \<in> set (thread_list s). ready s (core_id l) q \<longrightarrow> 0xFFFFFFFF \<le> prio s q) \<or>
      chosen s (core_id l) (thread_list s) (fst f)"
    unfolding chosen_def by auto
  ultimately show ?thesis by (intro exI [of _ "fst f"]) auto
qed

section \<open>The invariant of the scheduler\<close>

definition core_ok :: "kstate \<Rightarrow> core_locals \<Rightarrow> bool" where
  "core_ok s l \<longleftrightarrow> (case c_state l of
     CORE_ONLINE \<Rightarrow> current_thread l \<noteq> 0 \<and> map_option t_state (threads s (current_thread l)) = Some THREAD_RUNNING \<and>
       threads s (idle_thread l) \<noteq> None
   | CORE_OFFLINE \<Rightarrow> True
   | _ \<Rightarrow> current_thread l = 0 \<and> threads s (idle_thread l) \<noteq> None)"

definition sched_inv :: "kstate \<Rightarrow> bool" where
  "sched_inv s \<longleftrightarrow>
     distinct (thread_list s) \<and> 0 \<notin> set (thread_list s) \<and> (\<forall>p \<in> set (thread_list s). threads s p \<noteq> None) \<and>
     (\<forall>c l. cores s c = Some l \<longrightarrow> core_ok s l) \<and>
     (\<forall>c d l k. cores s c = Some l \<longrightarrow> cores s d = Some k \<longrightarrow> c_state l = CORE_ONLINE \<longrightarrow> c_state k = CORE_ONLINE \<longrightarrow>
        current_thread l = current_thread k \<longrightarrow> c = d) \<and>
     (\<forall>p t. threads s p = Some t \<longrightarrow> t_state t = THREAD_RUNNING \<longrightarrow> (\<exists>c l. cores s c = Some l \<and> current_thread l = p \<and> p \<noteq> 0))"

lemma sched_invD:
  assumes "sched_inv s"
  shows "distinct (thread_list s)" "0 \<notin> set (thread_list s)" "\<forall>p \<in> set (thread_list s). threads s p \<noteq> None"
    and "cores s c = Some l \<Longrightarrow> core_ok s l"
    and "cores s c = Some l \<Longrightarrow> cores s d = Some k \<Longrightarrow> c_state l = CORE_ONLINE \<Longrightarrow> c_state k = CORE_ONLINE \<Longrightarrow>
      current_thread l = current_thread k \<Longrightarrow> c = d"
    and "threads s p = Some t \<Longrightarrow> t_state t = THREAD_RUNNING \<Longrightarrow> \<exists>c l. cores s c = Some l \<and> current_thread l = p \<and> p \<noteq> 0"
  using assms unfolding sched_inv_def by blast+

text \<open>Changes of threads that leave the scheduler's view alone: no thread starts or stops running.\<close>

definition same_running :: "(u32 \<Rightarrow> thread option) \<Rightarrow> (u32 \<Rightarrow> thread option) \<Rightarrow> bool" where
  "same_running T T' \<longleftrightarrow> (\<forall>p. (T' p = None \<longleftrightarrow> T p = None) \<and>
     (map_option t_state (T' p) = Some THREAD_RUNNING \<longleftrightarrow> map_option t_state (T p) = Some THREAD_RUNNING))"

lemma core_ok_same:
  assumes "same_running (threads s) (threads s')"
  shows "core_ok s' l = core_ok s l"
  using assms by (simp add: core_ok_def same_running_def split: core_state.splits)

lemma sched_inv_same:
  assumes I: "sched_inv s" and T: "same_running (threads s) (threads s')"
    and C: "cores s' = cores s" "thread_list s' = thread_list s"
  shows "sched_inv s'"
proof -
  have r: "threads s' p = Some t \<Longrightarrow> t_state t = THREAD_RUNNING \<Longrightarrow> \<exists>u. threads s p = Some u \<and> t_state u = THREAD_RUNNING" for p t
  proof -
    assume a: "threads s' p = Some t" "t_state t = THREAD_RUNNING"
    then have "map_option t_state (threads s p) = Some THREAD_RUNNING" using T by (auto simp: same_running_def)
    then show ?thesis by (cases "threads s p") auto
  qed
  have n: "threads s' p \<noteq> None" if "threads s p \<noteq> None" for p using T that by (simp add: same_running_def)
  show ?thesis
    unfolding sched_inv_def C core_ok_same [OF T]
  proof (intro conjI allI impI ballI)
    fix p t assume "threads s' p = Some t" "t_state t = THREAD_RUNNING"
    then obtain u where "threads s p = Some u" "t_state u = THREAD_RUNNING" using r by blast
    then show "\<exists>c l. cores s c = Some l \<and> current_thread l = p \<and> p \<noteq> 0" by (rule sched_invD(6) [OF I])
  qed (use sched_invD [OF I] n in blast)+
qed

lemma wake_running: "t_state (wake t) = THREAD_RUNNING \<longleftrightarrow> t_state t = THREAD_RUNNING"
  by (simp add: wake_def)

lemma woken_same: "same_running (threads s) (woken c s)"
proof -
  have "map_option t_state (map_option wake o1) = Some THREAD_RUNNING \<longleftrightarrow> map_option t_state o1 = Some THREAD_RUNNING" for o1
    by (cases o1) (simp_all add: wake_running)
  then show ?thesis unfolding same_running_def woken_def by simp
qed

text \<open>A core that is not running a thread takes a stopped one.\<close>

lemma load_thread_eq:
  assumes "p \<noteq> 0" "threads s p = Some t" "cores s c = Some l"
  shows "load_thread c p s = Inr ((), s\<lparr>cores := (cores s)(c \<mapsto> l\<lparr>c_state := (if c_state l = CORE_IDLE then CORE_ONLINE else c_state l),
      current_thread := p, irq_regs := t_regs t, c_tss := (c_tss l)\<lparr>esp0 := kernel_stack t\<rparr>\<rparr>),
      threads := (threads s)(p \<mapsto> t\<lparr>t_state := THREAD_RUNNING\<rparr>)\<rparr>)"
  using assms by (simp add: load_thread_def set_kernel_stack_def mod_core_def mod_thread_def get_thread_def sthen_def sbind_def)

lemma save_thread_eq:
  assumes "p \<noteq> 0" "threads s p = Some t" "cores s c = Some l"
  shows "save_thread c p st s = Inr ((), s\<lparr>threads := (threads s)(p \<mapsto> t\<lparr>t_state := st, t_regs := irq_regs l\<rparr>)\<rparr>)"
  using assms by (simp add: save_thread_def get_core_locals_def mod_thread_def sthen_def sbind_def)

lemma enter_idle_eq:
  assumes "cores s c = Some l" "current_thread l = 0" "threads s (idle_thread l) = Some t"
  shows "enter_idle c s = Inr ((), s\<lparr>cores := (cores s)(c \<mapsto> l\<lparr>c_state := CORE_IDLE, irq_regs := t_regs t,
      c_tss := (c_tss l)\<lparr>esp0 := kernel_stack t\<rparr>\<rparr>)\<rparr>)"
  using assms by (simp add: enter_idle_def get_core_locals_def set_kernel_stack_def mod_core_def get_thread_def sthen_def sbind_def)

text \<open>What taking and leaving a thread does to the invariant.\<close>

lemma sched_inv_take:
  assumes I: "sched_inv s" and l: "cores s c = Some l" "c_state l \<noteq> CORE_ONLINE" "current_thread l = 0"
    and p: "p \<noteq> 0" "threads s p = Some t" "t_state t \<noteq> THREAD_RUNNING" and i: "threads s (idle_thread l) \<noteq> None"
    and s': "cores s' = (cores s)(c \<mapsto> l')" "threads s' = (threads s)(p \<mapsto> t')" "thread_list s' = thread_list s"
    and l': "c_state l' = CORE_ONLINE" "current_thread l' = p" "idle_thread l' = idle_thread l" "t_state t' = THREAD_RUNNING"
  shows "sched_inv s'"
proof -
  have notcur: "current_thread k \<noteq> p" if "cores s d = Some k" "c_state k = CORE_ONLINE" for d k
    using sched_invD(4) [OF I that(1)] that(2) p(2,3) by (auto simp: core_ok_def)
  have "core_ok s' k" if "cores s' d = Some k" for d k
  proof (cases "d = c")
    case True
    then show ?thesis using that s' l' p i by (auto simp: core_ok_def)
  next
    case False
    then have k: "cores s d = Some k" using that s'(1) by simp
    from sched_invD(4) [OF I k] notcur [OF k] show ?thesis
      by (auto simp: core_ok_def s'(2) split: core_state.splits)
  qed
  moreover have "d = e" if "cores s' d = Some k" "cores s' e = Some m" "c_state k = CORE_ONLINE" "c_state m = CORE_ONLINE"
    "current_thread k = current_thread m" for d e k m
    using that s'(1) l'(2) notcur sched_invD(5) [OF I] by (auto split: if_splits)
  moreover have "\<exists>d k. cores s' d = Some k \<and> current_thread k = q \<and> q \<noteq> 0" if q: "threads s' q = Some u" "t_state u = THREAD_RUNNING" for q u
  proof (cases "q = p")
    case True
    then show ?thesis using s'(1) l'(2) p(1) by (intro exI [of _ c] exI [of _ l']) simp
  next
    case False
    then obtain d k where d: "cores s d = Some k" "current_thread k = q" "q \<noteq> 0"
      using q s'(2) sched_invD(6) [OF I, of q u] by auto
    then have "d \<noteq> c" using l by auto
    with d show ?thesis using s'(1) by (intro exI [of _ d] exI [of _ k]) simp
  qed
  ultimately show ?thesis
    unfolding sched_inv_def s'(3) using sched_invD(1-3) [OF I] s'(2) by auto
qed

lemma sched_inv_leave:
  assumes I: "sched_inv s" and l: "cores s c = Some l" "c_state l = CORE_ONLINE"
    and t: "threads s (current_thread l) = Some t" "t_state t' \<noteq> THREAD_RUNNING"
    and s': "cores s' = (cores s)(c \<mapsto> l')" "threads s' = (threads s)(current_thread l \<mapsto> t')" "thread_list s' = thread_list s"
    and l': "c_state l' \<in> {CORE_IDLE, CORE_BOOTING}" "current_thread l' = 0" "idle_thread l' = idle_thread l"
  shows "sched_inv s'"
proof -
  have notcur: "current_thread k \<noteq> current_thread l" if "cores s d = Some k" "c_state k = CORE_ONLINE" "d \<noteq> c" for d k
    using sched_invD(5) [OF I that(1) l(1) that(2) l(2)] that(3) by auto
  have "core_ok s' k" if "cores s' d = Some k" for d k
  proof (cases "d = c")
    case True
    then have "k = l'" using that s'(1) by simp
    moreover have "threads s' (idle_thread l) \<noteq> None" using sched_invD(4) [OF I l(1)] l(2) s'(2) by (auto simp: core_ok_def)
    ultimately show ?thesis using l' by (auto simp: core_ok_def)
  next
    case False
    then have k: "cores s d = Some k" using that s'(1) by simp
    from sched_invD(4) [OF I k] notcur [OF k _ False] show ?thesis
      by (auto simp: core_ok_def s'(2) split: core_state.splits)
  qed
  moreover have "d = e" if "cores s' d = Some k" "cores s' e = Some m" "c_state k = CORE_ONLINE" "c_state m = CORE_ONLINE"
    "current_thread k = current_thread m" for d e k m
    using that s'(1) l'(1) sched_invD(5) [OF I] by (auto split: if_splits)
  moreover have "\<exists>d k. cores s' d = Some k \<and> current_thread k = q \<and> q \<noteq> 0" if q: "threads s' q = Some u" "t_state u = THREAD_RUNNING" for q u
  proof -
    have "q \<noteq> current_thread l" using q s'(2) t(2) by auto
    moreover from this obtain d k where d: "cores s d = Some k" "current_thread k = q" "q \<noteq> 0"
      using q s'(2) sched_invD(6) [OF I, of q u] by auto
    ultimately have "d \<noteq> c" using l(1) by auto
    with d show ?thesis using s'(1) by (intro exI [of _ d] exI [of _ k]) simp
  qed
  ultimately show ?thesis
    unfolding sched_inv_def s'(3) using sched_invD(1-3) [OF I] s'(2) by auto
qed

section \<open>One run of the scheduler\<close>

text \<open>What a run on core \<open>c\<close> leads to when thread \<open>p\<close> (0 for none) was picked.\<close>

definition switched :: "kstate \<Rightarrow> nat \<Rightarrow> core_locals \<Rightarrow> u32 \<Rightarrow> kstate \<Rightarrow> bool" where
  "switched s c l p s' \<longleftrightarrow>
     (\<exists>l'. cores s' = (cores s)(c \<mapsto> l') \<and> core_id l' = core_id l \<and> idle_thread l' = idle_thread l \<and>
       (case c_state l of
          CORE_OFFLINE \<Rightarrow> l' = l \<and> threads s' = threads s
        | CORE_BOOTING \<Rightarrow> c_state l' = CORE_IDLE \<and> current_thread l' = 0 \<and> threads s' = threads s
        | _ \<Rightarrow> if p = 0 then l' = l \<and> threads s' = threads s
             else c_state l' = CORE_ONLINE \<and> current_thread l' = p \<and> irq_regs l' = t_regs (the (threads s p)) \<and>
               esp0 (c_tss l') = kernel_stack (the (threads s p)) \<and>
               (\<forall>q. threads s' q =
                 (if q = p then map_option (t_state_update (\<lambda>_. THREAD_RUNNING)) (threads s q)
                  else if q = current_thread l \<and> q \<noteq> 0 then map_option (\<lambda>t. t\<lparr>t_state := THREAD_STOPPED, t_regs := irq_regs l\<rparr>) (threads s q)
                  else threads s q)))) \<and>
     mach s' = mach s \<and> procs s' = procs s \<and> thread_list s' = thread_list s \<and> proc_list s' = proc_list s \<and>
     sched_dat s' = sched_dat s"

text \<open>A core without a thread can change its record as long as it stays without one.\<close>

lemma sched_inv_rest:
  assumes I: "sched_inv s" and l: "\<forall>l. cores s c = Some l \<longrightarrow> current_thread l = 0"
    and s': "cores s' = (cores s)(c \<mapsto> l')" "threads s' = threads s" "thread_list s' = thread_list s"
    and l': "c_state l' \<in> {CORE_IDLE, CORE_BOOTING}" "current_thread l' = 0" "threads s (idle_thread l') \<noteq> None"
  shows "sched_inv s'"
  unfolding sched_inv_def s'(2,3)
proof (intro conjI allI impI)
  show "core_ok s' k" if "cores s' d = Some k" for d k
  proof (cases "d = c")
    case True
    then have "k = l'" using that s'(1) by simp
    then show ?thesis using l' by (auto simp: core_ok_def s'(2))
  next
    case False
    then have "cores s d = Some k" using that s'(1) by simp
    from sched_invD(4) [OF I this] show ?thesis by (simp only: core_ok_def s'(2))
  qed
  show "\<exists>d k. cores s' d = Some k \<and> current_thread k = q \<and> q \<noteq> 0"
    if r: "threads s q = Some u" "t_state u = THREAD_RUNNING" for q u
  proof -
    obtain d k where d: "cores s d = Some k" "current_thread k = q" "q \<noteq> 0" using sched_invD(6) [OF I r] by blast
    then have "d \<noteq> c" using l by auto
    with d show ?thesis using s'(1) by (intro exI [of _ d] exI [of _ k]) simp
  qed
  show "d = e" if "cores s' d = Some k" "cores s' e = Some m" "c_state k = CORE_ONLINE" "c_state m = CORE_ONLINE"
    "current_thread k = current_thread m" for d e k m
    using that s'(1) l'(1) sched_invD(5) [OF I] by (auto split: if_splits)
qed (use sched_invD(1-3) [OF I] in simp_all)

lemma sched_switch_ok:
  assumes I: "sched_inv s" and l: "cores s c = Some l" and p: "p = 0 \<or> p \<noteq> 0 \<and> map_option t_state (threads s p) = Some THREAD_STOPPED"
  shows "\<exists>s'. sched_switch c p s = Inr ((), s') \<and> sched_inv s' \<and> switched s c l p s'"
proof -
  have ok: "core_ok s l" by (rule sched_invD(4) [OF I l])
  have st: "cores s = (cores s)(c \<mapsto> l)" using l by (simp add: fun_upd_idem)
  show ?thesis
  proof (cases "c_state l")
    case CORE_OFFLINE
    then show ?thesis using I l st by (intro exI [of _ s]) (auto simp: sched_switch_def get_core_locals_def sbind_def switched_def)
  next
    case CORE_BOOTING
    then have cur: "current_thread l = 0" and i: "threads s (idle_thread l) \<noteq> None" using ok by (simp_all add: core_ok_def)
    then obtain t where t: "threads s (idle_thread l) = Some t" by blast
    let ?l = "l\<lparr>c_state := CORE_IDLE, irq_regs := t_regs t, c_tss := (c_tss l)\<lparr>esp0 := kernel_stack t\<rparr>\<rparr>"
    let ?s = "s\<lparr>cores := (cores s)(c \<mapsto> ?l)\<rparr>"
    have "sched_switch c p s = Inr ((), ?s)"
      using CORE_BOOTING cur enter_idle_eq [OF l cur t] l by (simp add: sched_switch_def get_core_locals_def sbind_def sthen_def)
    moreover have "sched_inv ?s"
      using i by (intro sched_inv_rest [OF I, where c = c and l' = ?l]) (auto simp: l cur)
    ultimately show ?thesis using CORE_BOOTING cur by (intro exI [of _ ?s]) (auto simp: switched_def)
  next
    case CORE_IDLE
    then have cur: "current_thread l = 0" and i: "threads s (idle_thread l) \<noteq> None" using ok by (simp_all add: core_ok_def)
    show ?thesis
    proof (cases "p = 0")
      case True
      then show ?thesis using CORE_IDLE cur I l st
        by (intro exI [of _ s]) (auto simp: sched_switch_def get_core_locals_def sbind_def sthen_def switched_def)
    next
      case False
      then obtain t where t: "threads s p = Some t" "t_state t = THREAD_STOPPED" using p by auto
      let ?l = "l\<lparr>c_state := CORE_ONLINE, current_thread := p, irq_regs := t_regs t, c_tss := (c_tss l)\<lparr>esp0 := kernel_stack t\<rparr>\<rparr>"
      let ?s = "s\<lparr>cores := (cores s)(c \<mapsto> ?l), threads := (threads s)(p \<mapsto> t\<lparr>t_state := THREAD_RUNNING\<rparr>)\<rparr>"
      have "sched_switch c p s = Inr ((), ?s)"
        using CORE_IDLE cur False load_thread_eq [OF False t(1) l] l
        by (simp add: sched_switch_def get_core_locals_def sbind_def sthen_def)
      moreover have "sched_inv ?s"
        using CORE_IDLE by (intro sched_inv_take [OF I l _ cur False t(1) _ i, where l' = ?l and t' = "t\<lparr>t_state := THREAD_RUNNING\<rparr>"]) (simp_all add: t(2))
      moreover have "switched s c l p ?s"
        using CORE_IDLE False cur t(1) unfolding switched_def by (intro conjI exI [of _ ?l]) auto
      ultimately show ?thesis by blast
    qed
  next
    case CORE_ONLINE
    then obtain t where cur: "current_thread l \<noteq> 0" and t: "threads s (current_thread l) = Some t" "t_state t = THREAD_RUNNING"
      and i: "threads s (idle_thread l) \<noteq> None"
      using ok by (auto simp: core_ok_def)
    show ?thesis
    proof (cases "p = 0")
      case True
      then show ?thesis using CORE_ONLINE cur t I l st
        by (intro exI [of _ s]) (auto simp: sched_switch_def get_core_locals_def get_thread_def sbind_def sthen_def switched_def)
    next
      case False
      then obtain u where u: "threads s p = Some u" "t_state u = THREAD_STOPPED" using p by auto
      have ne: "p \<noteq> current_thread l" using u t by auto
      let ?t = "t\<lparr>t_state := THREAD_STOPPED, t_regs := irq_regs l\<rparr>"
      let ?m = "s\<lparr>threads := (threads s)(current_thread l \<mapsto> ?t), cores := (cores s)(c \<mapsto> l\<lparr>c_state := CORE_IDLE, current_thread := 0\<rparr>)\<rparr>"
      let ?s1 = "s\<lparr>threads := (threads s)(current_thread l \<mapsto> ?t)\<rparr>"
      let ?l = "l\<lparr>c_state := CORE_ONLINE, current_thread := p, irq_regs := t_regs u, c_tss := (c_tss l)\<lparr>esp0 := kernel_stack u\<rparr>\<rparr>"
      let ?s = "?s1\<lparr>cores := (cores s)(c \<mapsto> ?l), threads := (threads ?s1)(p \<mapsto> u\<lparr>t_state := THREAD_RUNNING\<rparr>)\<rparr>"
      have "load_thread c p ?s1 = Inr ((), ?s)"
        using load_thread_eq [OF False, of ?s1 u c l] u(1) l ne CORE_ONLINE by simp
      then have "sched_switch c p s = Inr ((), ?s)"
        using CORE_ONLINE cur t False save_thread_eq [OF cur t(1) l, of THREAD_STOPPED] l
        by (simp add: sched_switch_def get_core_locals_def get_thread_def sbind_def sthen_def)
      moreover have m: "sched_inv ?m"
        using CORE_ONLINE by (intro sched_inv_leave [OF I l _ t(1), where l' = "l\<lparr>c_state := CORE_IDLE, current_thread := 0\<rparr>"]) simp_all
      moreover have "sched_inv ?s"
        by (rule sched_inv_take [OF m, of c "l\<lparr>c_state := CORE_IDLE, current_thread := 0\<rparr>" p u _ ?l "u\<lparr>t_state := THREAD_RUNNING\<rparr>"])
          (use CORE_ONLINE False u ne i in auto)
      moreover have "switched s c l p ?s"
        using CORE_ONLINE False ne cur t(1) u(1) unfolding switched_def by (intro conjI exI [of _ ?l]) auto
      ultimately show ?thesis by blast
    qed
  qed
qed

lemma sched_ok:
  assumes I: "sched_inv s" and l: "cores s c = Some l"
  defines "s1 \<equiv> s\<lparr>threads := woken c s\<rparr>"
  shows "\<exists>s' p. sched c s = Inr ((), s') \<and> sched_inv s' \<and> switched s1 c l p s' \<and>
    (p = 0 \<and> (\<forall>q \<in> set (thread_list s). ready s1 (core_id l) q \<longrightarrow> prio s1 q = 0xFFFFFFFF) \<or>
     p \<noteq> 0 \<and> chosen s1 (core_id l) (thread_list s) p)"
proof -
  have u: "update_sleeping_threads c s = Inr ((), s1)"
    unfolding s1_def by (rule update_sleeping_threads_eq [OF sched_invD(3,1) [OF I] l])
  have I1: "sched_inv s1" unfolding s1_def by (rule sched_inv_same [OF I]) (simp_all add: woken_same)
  have l1: "cores s1 c = Some l" and tl: "thread_list s1 = thread_list s" using l by (simp_all add: s1_def)
  obtain p where p: "pick_thread c s1 = Inr (p, s1)"
    "p = 0 \<and> (\<forall>q \<in> set (thread_list s1). ready s1 (core_id l) q \<longrightarrow> prio s1 q = 0xFFFFFFFF) \<or> chosen s1 (core_id l) (thread_list s1) p"
    using pick_thread_eq [OF sched_invD(3) [OF I1] l1] by blast
  have c: "p \<noteq> 0 \<and> map_option t_state (threads s1 p) = Some THREAD_STOPPED" if "chosen s1 (core_id l) (thread_list s1) p"
    using that sched_invD(2) [OF I1] by (auto simp: chosen_def ready_def split: option.splits)
  obtain s' where s': "sched_switch c p s1 = Inr ((), s')" "sched_inv s'" "switched s1 c l p s'"
    using sched_switch_ok [OF I1 l1, of p] p(2) c by blast
  have "sched c s = Inr ((), s')" using u p(1) s'(1) by (simp add: sched_def sthen_def sbind_def)
  with s' p(2) c show ?thesis unfolding tl by blast
qed

lemma sched_inv_cong:
  assumes "threads s' = threads s" "cores s' = cores s" "thread_list s' = thread_list s"
  shows "sched_inv s' = sched_inv s"
  by (simp only: sched_inv_def core_ok_def assms)

lemma sched_inv_dat [simp]: "sched_inv (s\<lparr>sched_dat := d\<rparr>) = sched_inv s"
  by (rule sched_inv_cong) simp_all

lemma sched_runner_ok:
  assumes I: "sched_inv s" and l: "cores s c = Some l"
  shows "\<exists>s'. sched_runner c s = Inr ((), s') \<and> sched_inv s'"
proof (cases "sched_dat s")
  case True
  then show ?thesis using I by (simp add: sched_runner_def sbind_def)
next
  case False
  let ?s = "s\<lparr>sched_dat := True\<rparr>"
  obtain s' where "sched c ?s = Inr ((), s')" "sched_inv s'"
    using sched_ok [of ?s c l] I l by auto
  with False show ?thesis by (simp add: sched_runner_def sched_unlock_def sbind_def sthen_def)
qed

end
