(* ===== verification/Sched_Inv.thy ===== *)
theory Sched_Inv
  imports Sched Vmm_Map
begin

unbundle bit_operations_syntax

text \<open>
  The scheduler as a state machine: the operations other than a run of the scheduler keep
  \<open>sched_inv\<close>, the step relation \<open>sched_step\<close> with its reachable states, and the properties of the
  scheduler that hold in every reachable state or at every run.
\<close>

section \<open>The other operations keep the invariant\<close>

lemma leave_ok:
  assumes I: "sched_inv s" and l: "cores s c = Some l" "c_state l \<noteq> CORE_OFFLINE" "current_thread l \<noteq> 0"
    and st: "st \<noteq> THREAD_RUNNING" "\<And>t. t_state (f t) = t_state t"
  shows "\<exists>s1 s'. save_thread c (current_thread l) st s = Inr ((), s1) \<and> leave_thread c f s1 = Inr ((), s') \<and> sched_inv s' \<and>
    cores s' = (cores s)(c \<mapsto> the (cores s' c)) \<and> c_state (the (cores s' c)) = CORE_IDLE \<and>
    threads s' = (threads s)(current_thread l \<mapsto> f ((the (threads s (current_thread l)))\<lparr>t_state := st, t_regs := irq_regs l\<rparr>))"
proof -
  have on: "c_state l = CORE_ONLINE" and i: "threads s (idle_thread l) \<noteq> None"
    and t: "map_option t_state (threads s (current_thread l)) = Some THREAD_RUNNING"
    using sched_invD(4) [OF I l(1)] l(2,3) by (auto simp: core_ok_def split: core_state.splits)
  then obtain t where t: "threads s (current_thread l) = Some t" by auto
  let ?t = "t\<lparr>t_state := st, t_regs := irq_regs l\<rparr>" and ?p = "current_thread l"
  let ?s1 = "s\<lparr>threads := (threads s)(?p \<mapsto> ?t)\<rparr>"
  let ?s2 = "s\<lparr>threads := (threads s)(?p \<mapsto> f ?t), cores := (cores s)(c \<mapsto> l\<lparr>current_thread := 0\<rparr>)\<rparr>"
  have save: "save_thread c ?p st s = Inr ((), ?s1)" by (rule save_thread_eq [OF l(3) t l(1)])
  obtain u where u: "threads ?s2 (idle_thread l) = Some u" using i by (cases "idle_thread l = ?p") auto
  let ?l = "l\<lparr>current_thread := 0, c_state := CORE_IDLE, irq_regs := t_regs u, c_tss := (c_tss l)\<lparr>esp0 := kernel_stack u\<rparr>\<rparr>"
  let ?s = "?s2\<lparr>cores := (cores s)(c \<mapsto> ?l)\<rparr>"
  have "enter_idle c ?s2 = Inr ((), ?s)"
    using enter_idle_eq [of ?s2 c "l\<lparr>current_thread := 0\<rparr>" u] u by simp
  then have leave: "leave_thread c f ?s1 = Inr ((), ?s)"
    using l(1) by (simp add: leave_thread_def get_core_locals_def mod_thread_def mod_core_def sthen_def sbind_def)
  have "sched_inv ?s"
    by (rule sched_inv_leave [OF I l(1) on t, where t' = "f ?t" and l' = ?l]) (simp_all add: st)
  then show ?thesis using save leave t
    by (intro exI [of _ ?s1] exI [of _ ?s]) simp
qed

lemma sched_thread_exit_ok:
  assumes I: "sched_inv s" and l: "cores s c = Some l" "c_state l \<noteq> CORE_OFFLINE"
  shows "\<exists>s'. sched_thread_exit c code s = Inr ((), s') \<and> sched_inv s'"
proof (cases "current_thread l \<noteq> 0 \<and> in_irq l")
  case True
  then show ?thesis
    using leave_ok [OF I l, of THREAD_TERMINATED "exitcode_update (\<lambda>_. code)"] l(1)
    by (auto simp: sched_thread_exit_def get_core_locals_def sthen_def sbind_def)
next
  case False
  then have "sched_thread_exit c code s = Inr ((), s)"
    using l(1) by (auto simp: sched_thread_exit_def get_core_locals_def sbind_def swhen_def)
  with I show ?thesis by blast
qed

lemma sched_thread_sleep_ok:
  assumes I: "sched_inv s" and l: "cores s c = Some l" "c_state l \<noteq> CORE_OFFLINE"
  shows "\<exists>s'. sched_thread_sleep c ms s = Inr ((), s') \<and> sched_inv s'"
proof (cases "current_thread l \<noteq> 0 \<and> in_irq l")
  case True
  then show ?thesis
    using leave_ok [OF I l, of THREAD_SLEEPING "sleep_time_update (\<lambda>_. ms * 1000)"] l(1)
    by (auto simp: sched_thread_sleep_def get_core_locals_def sthen_def sbind_def)
next
  case False
  then have "sched_thread_sleep c ms s = Inr ((), s)"
    using l(1) by (auto simp: sched_thread_sleep_def get_core_locals_def sbind_def swhen_def)
  with I show ?thesis by blast
qed

lemma sched_inv_add:
  assumes I: "sched_inv s" and ps: "distinct ps" "set ps \<inter> set (thread_list s) = {}" "0 \<notin> set ps" "\<forall>p \<in> set ps. threads s p \<noteq> None"
    and s': "threads s' = threads s" "cores s' = cores s" "thread_list s' = thread_list s @ ps"
  shows "sched_inv s'"
  using assms unfolding sched_inv_def s' core_ok_def by auto

lemma add_stopped_Inr: "add_stopped p s = Inr (x, t) \<longleftrightarrow>
    map_option t_state (threads s p) = Some THREAD_STOPPED \<and> t = s\<lparr>thread_list := thread_list s @ [p]\<rparr>"
  by (cases "threads s p") (auto simp: add_stopped_def add_thread_def get_thread_def sbind_def sthen_def sassert_def)

lemma siter_add_stopped_Inr:
  "siter add_stopped ps s = Inr (x, t) \<longleftrightarrow>
    (\<forall>p \<in> set ps. map_option t_state (threads s p) = Some THREAD_STOPPED) \<and> t = s\<lparr>thread_list := thread_list s @ ps\<rparr>"
  by (induction ps arbitrary: s) (auto simp: sthen_eq_Inr add_stopped_Inr)

lemma sched_run_thread_inv:
  assumes I: "sched_inv s" and r: "sched_run_thread p s = Inr (x, s')" and p: "p \<noteq> 0" "p \<notin> set (thread_list s)"
  shows "sched_inv s'"
proof -
  from r have "threads s p \<noteq> None" "threads s' = threads s" "cores s' = cores s" "thread_list s' = thread_list s @ [p]"
    by (auto simp: sched_run_thread_def sbind_eq_Inr sthen_eq_Inr mach_op_Inr add_stopped_Inr sched_lock_def sched_unlock_def split: if_splits)
  then show ?thesis using p by (intro sched_inv_add [OF I, of "[p]"]) simp_all
qed

lemma sched_run_proc_inv:
  assumes I: "sched_inv s" and r: "sched_run_proc p s = Inr (x, s')"
    and pr: "procs s p = Some pr" "distinct (pt_list pr)" "set (pt_list pr) \<inter> set (thread_list s) = {}" "0 \<notin> set (pt_list pr)"
  shows "sched_inv s'"
proof -
  from r pr(1) have "\<forall>p \<in> set (pt_list pr). threads s p \<noteq> None" "threads s' = threads s" "cores s' = cores s"
    "thread_list s' = thread_list s @ pt_list pr"
    by (auto simp: sched_run_proc_def sbind_eq_Inr sthen_eq_Inr mach_op_Inr siter_add_stopped_Inr get_proc_Inr add_proc_def
        sched_lock_def sched_unlock_def sassert_def split: if_splits) blast
  then show ?thesis using pr(2-) by (intro sched_inv_add [OF I, of "pt_list pr"]) simp_all
qed

text \<open>A new thread: its address held no object before.\<close>

lemma sched_inv_new:
  assumes I: "sched_inv s" and n: "threads s p = None" "map_option t_state (threads s' p) = Some THREAD_STOPPED"
    and s': "only_thread p s s'"
  shows "sched_inv s'"
proof -
  have t: "threads s' q = threads s q" if "q \<noteq> p" for q using s' that by (simp add: only_thread_def)
  have eq: "cores s' = cores s" "thread_list s' = thread_list s" using s' by (simp_all add: only_thread_def)
  have "core_ok s' l" if "cores s c = Some l" for c l
    using sched_invD(4) [OF I that] n t by (auto simp: core_ok_def split: core_state.splits) (metis option.distinct(1))+
  moreover have "\<exists>c l. cores s c = Some l \<and> current_thread l = q \<and> q \<noteq> 0" if r: "threads s' q = Some u" "t_state u = THREAD_RUNNING" for q u
  proof -
    have "q \<noteq> p" using r n(2) by auto
    then show ?thesis using sched_invD(6) [OF I, of q u] t r by simp
  qed
  moreover have "threads s' q \<noteq> None" if "q \<in> set (thread_list s)" for q
    using that sched_invD(3) [OF I] n(1) t by metis
  ultimately show ?thesis
    unfolding sched_inv_def eq using sched_invD(1,2) [OF I] sched_invD(5) [OF I] by blast
qed

lemma thread_create_inv:
  assumes "sched_inv s" "thread_create L proc entry s = Inr (p, s')" "threads s p = None"
  shows "sched_inv s'"
proof (cases "p = 0")
  case True
  then have "threads s' = threads s" "cores s' = cores s" "thread_list s' = thread_list s"
    using thread_create_frame [OF assms(2)] by (simp_all add: only_thread_def)
  with assms(1) show ?thesis using sched_inv_cong by blast
next
  case False
  then show ?thesis using thread_create_frame [OF assms(2)] by (intro sched_inv_new [OF assms(1,3)]) simp_all
qed

lemma sched_init_core_inv:
  assumes I: "sched_inv s" and r: "sched_init_core L entry c s = Inr (x, s')"
    and fresh: "\<And>p t. thread_create L (idle_proc s) entry s = Inr (p, t) \<Longrightarrow> threads s p = None \<and> p \<noteq> 0"
    and l: "\<forall>l. cores s c = Some l \<longrightarrow> current_thread l = 0"
  shows "sched_inv s'"
proof -
  from r obtain p s1 where tc: "thread_create L (idle_proc s) entry s = Inr (p, s1)"
    and m: "sthen (mod_core c (idle_thread_update (\<lambda>_. p))) (sthen (mod_core c (current_thread_update (\<lambda>_. 0)))
      (mod_core c (c_state_update (\<lambda>_. CORE_BOOTING)))) s1 = Inr (x, s')"
    by (auto simp: sched_init_core_def sbind_eq_Inr)
  have p: "threads s p = None" "p \<noteq> 0" using fresh [OF tc] by simp_all
  have I1: "sched_inv s1" by (rule thread_create_inv [OF I tc p(1)])
  have f: "only_thread p s s1" "threads s1 p \<noteq> None" using thread_create_frame [OF tc] p(2) by auto
  from m obtain k where k: "cores s1 c = Some k"
    "s' = s1\<lparr>cores := (cores s1)(c \<mapsto> k\<lparr>idle_thread := p, current_thread := 0, c_state := CORE_BOOTING\<rparr>)\<rparr>"
    by (auto simp: sthen_eq_Inr mod_core_def split: option.splits)
  have "cores s1 = cores s" using f(1) by (simp add: only_thread_def)
  then show ?thesis
    using f(2) l k(2)
    by (intro sched_inv_rest [OF I1, where c = c and l' = "k\<lparr>idle_thread := p, current_thread := 0, c_state := CORE_BOOTING\<rparr>"]) simp_all
qed

section \<open>Steps of the system\<close>

text \<open>
  One step is one operation of one core. Threads and idle threads are created at addresses that
  hold no thread; a thread or process is handed to the scheduler at most once.
\<close>

inductive sched_step :: "symbols \<Rightarrow> kstate \<Rightarrow> kstate \<Rightarrow> bool" for L where
  runner: "cores s c \<noteq> None \<Longrightarrow> sched_runner c s = Inr ((), s') \<Longrightarrow> sched_step L s s'"
| exit: "cores s c = Some l \<Longrightarrow> c_state l \<noteq> CORE_OFFLINE \<Longrightarrow> sched_thread_exit c code s = Inr ((), s') \<Longrightarrow> sched_step L s s'"
| sleep: "cores s c = Some l \<Longrightarrow> c_state l \<noteq> CORE_OFFLINE \<Longrightarrow> sched_thread_sleep c ms s = Inr ((), s') \<Longrightarrow> sched_step L s s'"
| run_thread: "p \<noteq> 0 \<Longrightarrow> p \<notin> set (thread_list s) \<Longrightarrow> sched_run_thread p s = Inr ((), s') \<Longrightarrow> sched_step L s s'"
| run_proc: "procs s p = Some pr \<Longrightarrow> distinct (pt_list pr) \<Longrightarrow> set (pt_list pr) \<inter> set (thread_list s) = {} \<Longrightarrow>
    0 \<notin> set (pt_list pr) \<Longrightarrow> sched_run_proc p s = Inr ((), s') \<Longrightarrow> sched_step L s s'"
| create: "thread_create L proc entry s = Inr (p, s') \<Longrightarrow> threads s p = None \<Longrightarrow> sched_step L s s'"
| init_core: "\<forall>l. cores s c = Some l \<longrightarrow> current_thread l = 0 \<Longrightarrow>
    (\<And>p t. thread_create L (idle_proc s) entry s = Inr (p, t) \<Longrightarrow> threads s p = None \<and> p \<noteq> 0) \<Longrightarrow>
    sched_init_core L entry c s = Inr ((), s') \<Longrightarrow> sched_step L s s'"
| offline: "go_offline c s = Inr ((), s') \<Longrightarrow> sched_step L s s'"

lemma sched_step_inv:
  assumes "sched_step L s s'" "sched_inv s"
  shows "sched_inv s'"
  using assms
proof (cases rule: sched_step.cases)
  case (runner c)
  then obtain l where "cores s c = Some l" by auto
  from sched_runner_ok [OF assms(2) this] runner show ?thesis by simp
next
  case (exit c l code)
  then show ?thesis using sched_thread_exit_ok [OF assms(2) exit(1,2), of code] by simp
next
  case (sleep c l ms)
  then show ?thesis using sched_thread_sleep_ok [OF assms(2) sleep(1,2), of ms] by simp
next
  case (run_thread p)
  then show ?thesis using sched_run_thread_inv [OF assms(2)] by blast
next
  case (run_proc p pr)
  then show ?thesis using sched_run_proc_inv [OF assms(2)] by blast
next
  case (create proc entry p)
  then show ?thesis using thread_create_inv [OF assms(2)] by blast
next
  case (init_core c entry)
  then show ?thesis using sched_init_core_inv [OF assms(2) init_core(3)] by blast
next
  case (offline c)
  then obtain l where l: "cores s c = Some l" "s' = s\<lparr>cores := (cores s)(c \<mapsto> l\<lparr>c_state := CORE_OFFLINE\<rparr>)\<rparr>"
    by (auto simp: go_offline_def mod_core_def split: option.splits)
  have "core_ok s' k" if "cores s' d = Some k" for d k
    using that sched_invD(4) [OF assms(2), of d k] by (auto simp: l(2) core_ok_def split: if_splits core_state.splits)
  moreover have "\<exists>d k. cores s' d = Some k \<and> current_thread k = q \<and> q \<noteq> 0" if r: "threads s' q = Some u" "t_state u = THREAD_RUNNING" for q u
  proof -
    obtain d k where d: "cores s d = Some k" "current_thread k = q" "q \<noteq> 0"
      using sched_invD(6) [OF assms(2), of q u] r by (auto simp: l(2))
    show ?thesis
    proof (cases "d = c")
      case True
      then show ?thesis using d l by (intro exI [of _ c] exI [of _ "l\<lparr>c_state := CORE_OFFLINE\<rparr>"]) simp
    next
      case False
      then show ?thesis using d l by (intro exI [of _ d] exI [of _ k]) simp
    qed
  qed
  moreover have "d = e" if "cores s' d = Some k" "cores s' e = Some m" "c_state k = CORE_ONLINE" "c_state m = CORE_ONLINE"
    "current_thread k = current_thread m" for d e k m
    using that l(2) sched_invD(5) [OF assms(2)] by (auto split: if_splits)
  moreover have "distinct (thread_list s')" "0 \<notin> set (thread_list s')" "\<forall>p \<in> set (thread_list s'). threads s' p \<noteq> None"
    using sched_invD(1-3) [OF assms(2)] l(2) by simp_all
  ultimately show ?thesis unfolding sched_inv_def by blast
qed

text \<open>A state the system may start from: no core and no thread is running yet.\<close>

definition sched_start :: "kstate \<Rightarrow> bool" where
  "sched_start s \<longleftrightarrow> distinct (thread_list s) \<and> 0 \<notin> set (thread_list s) \<and>
     (\<forall>p \<in> set (thread_list s). threads s p \<noteq> None) \<and> (\<forall>p. map_option t_state (threads s p) \<noteq> Some THREAD_RUNNING) \<and>
     (\<forall>c l. cores s c = Some l \<longrightarrow> current_thread l = 0 \<and> c_state l \<noteq> CORE_ONLINE \<and> threads s (idle_thread l) \<noteq> None)"

inductive sched_reach :: "symbols \<Rightarrow> kstate \<Rightarrow> bool" for L where
  start: "sched_start s \<Longrightarrow> sched_reach L s"
| step: "sched_reach L s \<Longrightarrow> sched_step L s s' \<Longrightarrow> sched_reach L s'"

lemma sched_start_inv: "sched_start s \<Longrightarrow> sched_inv s"
  unfolding sched_start_def sched_inv_def core_ok_def by (auto split: core_state.splits)

lemma sched_reach_inv: "sched_reach L s \<Longrightarrow> sched_inv s"
  by (induction rule: sched_reach.induct) (auto intro: sched_start_inv sched_step_inv)

section \<open>Properties\<close>


lemma woken_dat: "woken c (s\<lparr>sched_dat := d\<rparr>) = woken c s"
  by (rule ext) (simp add: woken_def cong: if_cong)

lemma switched_live:
  assumes "switched s c l p s'" "c_state l \<in> {CORE_ONLINE, CORE_IDLE}"
  shows "\<exists>l'. cores s' = (cores s)(c \<mapsto> l') \<and>
    (if p = 0 then l' = l \<and> threads s' = threads s
     else c_state l' = CORE_ONLINE \<and> current_thread l' = p \<and> irq_regs l' = t_regs (the (threads s p)) \<and>
       (\<forall>q. threads s' q =
         (if q = p then map_option (t_state_update (\<lambda>_. THREAD_RUNNING)) (threads s q)
          else if q = current_thread l \<and> q \<noteq> 0 then map_option (\<lambda>t. t\<lparr>t_state := THREAD_STOPPED, t_regs := irq_regs l\<rparr>) (threads s q)
          else threads s q)))"
proof -
  have "c_state l = CORE_ONLINE \<or> c_state l = CORE_IDLE" using assms(2) by blast
  then show ?thesis
  proof
    assume "c_state l = CORE_ONLINE"
    with assms(1) show ?thesis unfolding switched_def by (cases "p = 0") (simp only: core_state.case if_True if_False simp_thms, blast)+
  next
    assume "c_state l = CORE_IDLE"
    with assms(1) show ?thesis unfolding switched_def by (cases "p = 0") (simp only: core_state.case if_True if_False simp_thms, blast)+
  qed
qed

text \<open>Two cores and three threads; core 0 is online and runs the first thread.\<close>

definition demo_core :: "nat \<Rightarrow> core_state \<Rightarrow> u32 \<Rightarrow> core_locals" where
  "demo_core c st cur = \<lparr>in_irq = True, nested_irq = False, need_resched = False, irq_regs = 0x9000, c_state = st,
     current_thread = cur, idle_thread = 0x5000, core_id = of_nat c, idt_entries = [],
     c_tss = \<lparr>prevTSS = 0, esp0 = 0, ss0 = 0, esp1 = 0, ss1 = 0, esp2 = 0, ss2 = 0, tss_cr3 = 0, tss_eip = 0, tss_eflags = 0,
       tss_eax = 0, tss_ecx = 0, tss_edx = 0, tss_ebx = 0, tss_esp = 0, tss_ebp = 0, tss_esi = 0, tss_edi = 0, tss_es = 0,
       tss_cs = 0, tss_ss = 0, tss_ds = 0, tss_fs = 0, tss_gs = 0, ldt = 0, trap = 0, iomap_base = 0\<rparr>\<rparr>"

definition demo_thread :: "thread_state \<Rightarrow> thread" where
  "demo_thread st = zero_thread\<lparr>t_state := st, t_cpu := - 1, t_regs := 0x8000\<rparr>"

definition demo_kernel :: kstate where
  "demo_kernel = \<lparr>mach = demo_machine, threads = [0x1000 \<mapsto> demo_thread THREAD_RUNNING, 0x2000 \<mapsto> demo_thread THREAD_STOPPED,
       0x3000 \<mapsto> demo_thread THREAD_STOPPED, 0x5000 \<mapsto> demo_thread THREAD_STOPPED],
     procs = Map.empty, thread_list = [0x1000, 0x2000, 0x3000], proc_list = [], kernel_proc = 0, idle_proc = 0,
     cores = [0 \<mapsto> demo_core 0 CORE_ONLINE 0x1000, 1 \<mapsto> demo_core 1 CORE_IDLE 0], sched_dat = False, next_tid = 0,
     global_ticks = 0, syscalls = Map.empty, gdt_entries = [], lapic_ids = of_nat, madt_cpu = [], lapic_writes = [],
     dev = demo_dev, v86_call_list = [], v86_proc = 0\<rparr>"

lemma demo_core_simps [simp]:
  "current_thread (demo_core c st p) = p" "c_state (demo_core c st p) = st" "idle_thread (demo_core c st p) = 0x5000"
  "core_id (demo_core c st p) = of_nat c" "in_irq (demo_core c st p)" "irq_regs (demo_core c st p) = 0x9000"
  by (simp_all add: demo_core_def)

lemma demo_thread_simps [simp]:
  "t_state (demo_thread st) = st" "t_cpu (demo_thread st) = - 1" "priority (demo_thread st) = 0"
  by (simp_all add: demo_thread_def zero_thread_def)

lemma demo_kernel_simps [simp]:
  "thread_list demo_kernel = [0x1000, 0x2000, 0x3000]" "\<not> sched_dat demo_kernel"
  "cores demo_kernel = [0 \<mapsto> demo_core 0 CORE_ONLINE 0x1000, 1 \<mapsto> demo_core 1 CORE_IDLE 0]"
  "threads demo_kernel = [0x1000 \<mapsto> demo_thread THREAD_RUNNING, 0x2000 \<mapsto> demo_thread THREAD_STOPPED,
     0x3000 \<mapsto> demo_thread THREAD_STOPPED, 0x5000 \<mapsto> demo_thread THREAD_STOPPED]"
  by (simp_all add: demo_kernel_def)

lemma demo_cores: "cores demo_kernel c = Some l \<Longrightarrow> c = 0 \<and> l = demo_core 0 CORE_ONLINE 0x1000 \<or> c = 1 \<and> l = demo_core 1 CORE_IDLE 0"
  by (simp split: if_splits)

lemma demo_running: "threads demo_kernel p = Some t \<Longrightarrow> t_state t = THREAD_RUNNING \<Longrightarrow> p = 0x1000"
  by (auto split: if_splits)

lemma demo_kernel_inv: "sched_inv demo_kernel"
proof -
  have "core_ok demo_kernel l" if "cores demo_kernel c = Some l" for c l
    using demo_cores [OF that] by (elim disjE conjE) (simp_all add: core_ok_def)
  moreover have "\<exists>c l. cores demo_kernel c = Some l \<and> current_thread l = p \<and> p \<noteq> 0"
    if "threads demo_kernel p = Some t" "t_state t = THREAD_RUNNING" for p t
    using demo_running [OF that] by (intro exI [of _ 0] exI [of _ "demo_core 0 CORE_ONLINE 0x1000"]) simp
  moreover have "c = e" if "cores demo_kernel c = Some l" "cores demo_kernel e = Some k" "c_state l = CORE_ONLINE" "c_state k = CORE_ONLINE" for c e l k
    using demo_cores [OF that(1)] demo_cores [OF that(2)] that(3,4) by auto
  moreover have "distinct (thread_list demo_kernel)" "0 \<notin> set (thread_list demo_kernel)" by simp_all
  moreover have "\<forall>p \<in> set (thread_list demo_kernel). threads demo_kernel p \<noteq> None" by simp
  ultimately show ?thesis unfolding sched_inv_def by blast
qed

text \<open>The same system before a core runs anything, and a run of core 0.\<close>

definition demo_boot :: kstate where
  "demo_boot = demo_kernel\<lparr>threads := (threads demo_kernel)(0x1000 \<mapsto> demo_thread THREAD_STOPPED),
     cores := [0 \<mapsto> demo_core 0 CORE_IDLE 0, 1 \<mapsto> demo_core 1 CORE_IDLE 0]\<rparr>"

lemma demo_boot_start: "sched_start demo_boot"
  unfolding sched_start_def demo_boot_def by (simp split: if_splits)

lemma demo_boot_woken: "woken 0 demo_boot = threads demo_boot"
  by (rule ext) (simp add: woken_def demo_boot_def wake_def)

lemma demo_boot_run:
  "\<exists>s' l'. sched_runner 0 demo_boot = Inr ((), s') \<and> cores s' 0 = Some l' \<and> c_state l' = CORE_ONLINE"
proof -
  let ?s = "demo_boot\<lparr>sched_dat := True\<rparr>"
  have "update_sleeping_threads 0 ?s = Inr ((), ?s\<lparr>threads := woken 0 ?s\<rparr>)"
    by (rule update_sleeping_threads_eq [where l = "demo_core 0 CORE_IDLE 0"]) (simp_all add: demo_boot_def)
  moreover have "woken 0 ?s = threads ?s" by (simp add: woken_dat demo_boot_woken)
  ultimately have "update_sleeping_threads 0 ?s = Inr ((), ?s)" by simp
  moreover have "pick_thread 0 ?s = Inr (0x1000, ?s)"
    by (simp add: pick_thread_def get_core_locals_def sbind_def pick_step_def get_thread_def demo_boot_def)
  moreover have "cores ?s 0 = Some (demo_core 0 CORE_IDLE 0)" "threads ?s 0x1000 = Some (demo_thread THREAD_STOPPED)"
    by (simp_all add: demo_boot_def)
  moreover have "cores ?s = [0 \<mapsto> demo_core 0 CORE_IDLE 0, 1 \<mapsto> demo_core 1 CORE_IDLE 0]" "\<not> sched_dat demo_boot" by (simp_all add: demo_boot_def)
  ultimately show ?thesis
    using load_thread_eq [of "0x1000" ?s "demo_thread THREAD_STOPPED" 0 "demo_core 0 CORE_IDLE 0"]
    by (simp add: sched_runner_def sched_unlock_def sched_def sched_switch_def get_core_locals_def sbind_def sthen_def fun_upd_twist)
qed


lemma sched_runner_effect:
  assumes "sched_inv s" and "\<not> sched_dat s" and "cores s c = Some l" and "c_state l \<in> {CORE_ONLINE, CORE_IDLE}"
  defines "s1 \<equiv> s\<lparr>threads := woken c s\<rparr>"
  shows "\<exists>s' l'. sched_runner c s = Inr ((), s') \<and> sched_inv s' \<and> cores s' = (cores s)(c \<mapsto> l') \<and>
    (if \<exists>q \<in> set (thread_list s). ready s1 (core_id l) q \<and> prio s1 q < 0xFFFFFFFF
     then chosen s1 (core_id l) (thread_list s) (current_thread l') \<and> c_state l' = CORE_ONLINE \<and>
       irq_regs l' = t_regs (the (threads s1 (current_thread l'))) \<and>
       (c_state l = CORE_ONLINE \<longrightarrow>
         t_regs (the (threads s' (current_thread l))) = irq_regs l \<and> t_state (the (threads s' (current_thread l))) = THREAD_STOPPED)
     else l' = l \<and> threads s' = threads s1)"
proof -
  let ?s = "s\<lparr>sched_dat := True\<rparr>"
  let ?s1 = "?s\<lparr>threads := woken c ?s\<rparr>"
  have w: "woken c ?s = woken c s" by (rule woken_dat)
  have r: "ready ?s1 = ready s1" "prio ?s1 = prio s1" by (simp_all add: fun_eq_iff ready_def prio_def s1_def w)
  then have ch: "chosen ?s1 = chosen s1" by (simp add: fun_eq_iff chosen_def)
  obtain s' p where s': "sched c ?s = Inr ((), s')" "sched_inv s'" "switched ?s1 c l p s'"
    and p: "p = 0 \<and> (\<forall>q \<in> set (thread_list s). ready s1 (core_id l) q \<longrightarrow> prio s1 q = 0xFFFFFFFF) \<or>
      p \<noteq> 0 \<and> chosen s1 (core_id l) (thread_list s) p"
    using sched_ok [of ?s c l] assms(1,3) r ch by auto
  let ?t = "s'\<lparr>sched_dat := False\<rparr>"
  have run: "sched_runner c s = Inr ((), ?t)"
    using assms(2) s'(1) by (simp add: sched_runner_def sched_unlock_def sbind_def sthen_def)
  obtain l' where l': "cores s' = (cores s)(c \<mapsto> l')" and
    sw: "if p = 0 then l' = l \<and> threads s' = threads ?s1
         else c_state l' = CORE_ONLINE \<and> current_thread l' = p \<and> irq_regs l' = t_regs (the (threads ?s1 p)) \<and>
           (\<forall>q. threads s' q =
             (if q = p then map_option (t_state_update (\<lambda>_. THREAD_RUNNING)) (threads ?s1 q)
              else if q = current_thread l \<and> q \<noteq> 0 then map_option (\<lambda>t. t\<lparr>t_state := THREAD_STOPPED, t_regs := irq_regs l\<rparr>) (threads ?s1 q)
              else threads ?s1 q))"
    using switched_live [OF s'(3) assms(4)] by auto
  have th: "threads ?s1 = threads s1" by (simp add: s1_def w)
  have exists: "(\<exists>q \<in> set (thread_list s). ready s1 (core_id l) q \<and> prio s1 q < 0xFFFFFFFF) \<longleftrightarrow> p \<noteq> 0"
    using p by (auto simp: chosen_def)
  have "t_regs (the (threads s' (current_thread l))) = irq_regs l \<and> t_state (the (threads s' (current_thread l))) = THREAD_STOPPED"
    if "p \<noteq> 0" "c_state l = CORE_ONLINE"
  proof -
    have ok: "core_ok s l" by (rule sched_invD(4) [OF assms(1,3)])
    then have c0: "current_thread l \<noteq> 0" and ru: "map_option t_state (threads s (current_thread l)) = Some THREAD_RUNNING"
      using that(2) by (simp_all add: core_ok_def)
    have run1: "map_option t_state (threads s1 (current_thread l)) = Some THREAD_RUNNING"
      using woken_same [of s c] ru by (simp add: same_running_def s1_def)
    then have "p \<noteq> current_thread l" using p that(1) by (auto simp: chosen_def ready_def)
    then show ?thesis using sw that(1) c0 run1 th by auto
  qed
  then show ?thesis
    using run s'(2) l' sw p exists th by (intro exI [of _ ?t] exI [of _ l']) auto
qed



section \<open>Sleeping and waking\<close>

lemma wake_cases:
  "t_state t \<noteq> THREAD_SLEEPING \<Longrightarrow> wake t = t"
  "t_state t = THREAD_SLEEPING \<Longrightarrow> wake t =
    (if unat (sleep_time t) \<le> 31992 then t\<lparr>sleep_time := 0, t_state := THREAD_STOPPED\<rparr> else t\<lparr>sleep_time := sleep_time t - 31992\<rparr>)"
proof -
  have "sleep_time t < 31993 \<longleftrightarrow> unat (sleep_time t) \<le> 31992" by (auto simp: word_less_nat_alt)
  then show "t_state t \<noteq> THREAD_SLEEPING \<Longrightarrow> wake t = t"
    "t_state t = THREAD_SLEEPING \<Longrightarrow> wake t =
      (if unat (sleep_time t) \<le> 31992 then t\<lparr>sleep_time := 0, t_state := THREAD_STOPPED\<rparr> else t\<lparr>sleep_time := sleep_time t - 31992\<rparr>)"
    by (simp_all add: wake_def)
qed

lemma unat_minus_of_nat:
  assumes "\<not> unat (x :: u32) \<le> k"
  shows "unat (x - of_nat k) = unat x - k"
proof -
  have "k < unat x" using assms by simp
  also have "unat x < 2 ^ 32" by simp
  finally have "k < 2 ^ 32" .
  then have "unat (of_nat k :: u32) = k" by (rule unat_of_nat_small)
  with assms show ?thesis by (simp add: unat_sub word_le_nat_alt)
qed

lemma wake_iter:
  assumes "t_state t = THREAD_SLEEPING" "0 < n"
  shows "(wake ^^ n) t = (if unat (sleep_time t) \<le> n * 31992 then t\<lparr>sleep_time := 0, t_state := THREAD_STOPPED\<rparr>
    else t\<lparr>sleep_time := sleep_time t - of_nat (n * 31992)\<rparr>)"
  using assms(2)
proof (induction n rule: nat_induct_non_zero)
  case 1
  then show ?case using assms(1) by (simp add: wake_cases)
next
  case (Suc n)
  let ?x = "sleep_time t"
  show ?case
  proof (cases "unat ?x \<le> n * 31992")
    case True
    then show ?thesis by (simp add: Suc.IH wake_cases)
  next
    case False
    define y where "y = ?x - of_nat (n * 31992)"
    have IH: "(wake ^^ n) t = t\<lparr>sleep_time := y\<rparr>" using Suc.IH False unfolding y_def by presburger
    have d: "unat y = unat ?x - n * 31992" unfolding y_def by (rule unat_minus_of_nat [OF False])
    have c: "unat y \<le> 31992 \<longleftrightarrow> unat ?x \<le> Suc n * 31992" using False d by auto
    have e: "y - 31992 = ?x - of_nat (Suc n * 31992)" by (simp add: y_def)
    have "(wake ^^ Suc n) t = wake (t\<lparr>sleep_time := y\<rparr>)" by (simp only: funpow.simps comp_apply IH)
    also have "\<dots> = (if unat y \<le> 31992 then t\<lparr>sleep_time := 0, t_state := THREAD_STOPPED\<rparr> else t\<lparr>sleep_time := y - 31992\<rparr>)"
      using assms(1) by (simp add: wake_cases)
    also have "\<dots> = (if unat ?x \<le> Suc n * 31992 then t\<lparr>sleep_time := 0, t_state := THREAD_STOPPED\<rparr>
        else t\<lparr>sleep_time := ?x - of_nat (Suc n * 31992)\<rparr>)" by (simp only: c e)
    finally show ?thesis .
  qed
qed

lemma wake_passes:
  assumes "\<forall>q \<in> set (thread_list s). threads s q \<noteq> None" "distinct (thread_list s)" "cores s c = Some l" "core_id l = 0"
  shows "sfor i n (\<lambda>_. update_sleeping_threads c) s =
    Inr ((), s\<lparr>threads := (\<lambda>q. if q \<in> set (thread_list s) then map_option (wake ^^ n) (threads s q) else threads s q)\<rparr>)"
  using assms
proof (induction n arbitrary: i s)
  case 0
  have "(\<lambda>q. if q \<in> set (thread_list s) then map_option (wake ^^ 0) (threads s q) else threads s q) = threads s"
    by (auto simp: option.map_id)
  then show ?case by simp
next
  case (Suc n)
  let ?s = "s\<lparr>threads := woken c s\<rparr>"
  have w: "woken c s = (\<lambda>q. if q \<in> set (thread_list s) then map_option wake (threads s q) else threads s q)"
    using Suc.prems(3,4) by (auto simp: woken_def)
  have "\<forall>q \<in> set (thread_list ?s). threads ?s q \<noteq> None" using Suc.prems(1) by (simp add: w)
  then have "sfor (Suc i) n (\<lambda>_. update_sleeping_threads c) ?s =
      Inr ((), ?s\<lparr>threads := (\<lambda>q. if q \<in> set (thread_list ?s) then map_option (wake ^^ n) (threads ?s q) else threads ?s q)\<rparr>)"
    using Suc.prems by (intro Suc.IH) simp_all
  moreover have "(\<lambda>q. if q \<in> set (thread_list ?s) then map_option (wake ^^ n) (threads ?s q) else threads ?s q) =
      (\<lambda>q. if q \<in> set (thread_list s) then map_option (wake ^^ Suc n) (threads s q) else threads s q)"
    by (auto simp: w fun_eq_iff option.map_comp funpow_Suc_right simp del: funpow.simps)
  ultimately show ?case using update_sleeping_threads_eq [OF Suc.prems(1-3)] by (simp add: sthen_def sbind_def)
qed

text \<open>C9: a sleeping thread wakes up: after \<open>n\<close> passes of \<open>update_sleeping_threads\<close> on core 0 (one every eight
  timer ticks) it is ready again exactly if its sleep time in microseconds is at most \<open>n\<close> times
  \<open>8 * PIT_SPEED_US\<close>, and otherwise still sleeps with the rest of its time.\<close>

theorem sleep_wakes:
  assumes "\<forall>q \<in> set (thread_list s). threads s q \<noteq> None" "distinct (thread_list s)" "cores s c = Some l" "core_id l = 0"
    and "p \<in> set (thread_list s)" "threads s p = Some t" "t_state t = THREAD_SLEEPING" "0 < n"
  shows "\<exists>s' t'. sfor 0 n (\<lambda>_. update_sleeping_threads c) s = Inr ((), s') \<and> threads s' p = Some t' \<and>
    (if unat (sleep_time t) \<le> n * (8 * 3999) then t_state t' = THREAD_STOPPED
     else t_state t' = THREAD_SLEEPING \<and> unat (sleep_time t') = unat (sleep_time t) - n * (8 * 3999))"
proof -
  have u: "unat (sleep_time t - of_nat (n * 31992)) = unat (sleep_time t) - n * 31992" if "\<not> unat (sleep_time t) \<le> n * 31992"
    by (rule unat_minus_of_nat [OF that])
  let ?t = "(wake ^^ n) t"
  have "if unat (sleep_time t) \<le> n * (8 * 3999) then t_state ?t = THREAD_STOPPED
     else t_state ?t = THREAD_SLEEPING \<and> unat (sleep_time ?t) = unat (sleep_time t) - n * (8 * 3999)"
    using wake_iter [OF assms(7,8)] u assms(7) by (simp del: of_nat_mult)
  then show ?thesis
    using assms(5,6) by (intro exI [of _ "s\<lparr>threads := (\<lambda>q. if q \<in> set (thread_list s) then map_option (wake ^^ n) (threads s q)
      else threads s q)\<rparr>"] exI [of _ ?t]) (simp add: wake_passes [OF assms(1-4)])
qed

theorem sleep_wakes_witness:
  "\<exists>s' t'. sfor 0 32 (\<lambda>_. update_sleeping_threads 0) (demo_kernel\<lparr>threads := (threads demo_kernel)
       (0x2000 \<mapsto> (demo_thread THREAD_SLEEPING)\<lparr>sleep_time := 1000000\<rparr>)\<rparr>) = Inr ((), s') \<and>
     threads s' 0x2000 = Some t' \<and> t_state t' = THREAD_STOPPED"
proof -
  let ?s = "demo_kernel\<lparr>threads := (threads demo_kernel)(0x2000 \<mapsto> (demo_thread THREAD_SLEEPING)\<lparr>sleep_time := 1000000\<rparr>)\<rparr>"
  let ?t = "(demo_thread THREAD_SLEEPING)\<lparr>sleep_time := 1000000\<rparr>"
  have a: "\<forall>q \<in> set (thread_list ?s). threads ?s q \<noteq> None" "distinct (thread_list ?s)" "cores ?s 0 = Some (demo_core 0 CORE_ONLINE 0x1000)"
    "core_id (demo_core 0 CORE_ONLINE 0x1000) = 0" "0x2000 \<in> set (thread_list ?s)" "threads ?s 0x2000 = Some ?t" "t_state ?t = THREAD_SLEEPING"
    "unat (sleep_time ?t) \<le> 32 * (8 * 3999)"
    by simp_all
  from sleep_wakes [OF a(1-7), of 32] a(8) show ?thesis by (auto split: if_splits)
qed

section \<open>Starvation\<close>

text \<open>A run of the scheduler does not change the priority and the affinity of a thread, nor the list.\<close>

definition prio_frame :: "kstate \<Rightarrow> kstate \<Rightarrow> bool" where
  "prio_frame s t \<longleftrightarrow> thread_list t = thread_list s \<and>
     (\<forall>p. map_option (\<lambda>t. (priority t, t_cpu t)) (threads t p) = map_option (\<lambda>t. (priority t, t_cpu t)) (threads s p))"

interpretation prio_frame: frame_rel prio_frame
  by unfold_locales (auto simp: prio_frame_def)

lemma prio_frame_mod_thread: "(\<And>t. priority (g t) = priority t \<and> t_cpu (g t) = t_cpu t) \<Longrightarrow> prio_frame.keeps (mod_thread p g)"
  by (auto simp: prio_frame.keeps_def prio_frame_def mod_thread_def split: option.splits)

lemma prio_frame_ops:
  "prio_frame.keeps (get_thread p)" "prio_frame.keeps (mod_core c f)" "prio_frame.keeps (get_core_locals c)"
  "prio_frame.keeps sched_unlock" "prio_frame.keeps (smod (sched_dat_update h))"
  by (auto simp: prio_frame.keeps_def prio_frame_def get_thread_def mod_core_def get_core_locals_def
      sched_unlock_def split: option.splits)

lemmas prio_frame_intros = prio_frame.keeps_intros prio_frame_ops

lemma prio_frame_fold: "(\<And>x a. prio_frame.keeps (f x a)) \<Longrightarrow> prio_frame.keeps (sfold f xs a)"
  by (induction xs arbitrary: a) (simp_all add: prio_frame.keeps_sret prio_frame.keeps_sbind)

lemma prio_frame_moves: "prio_frame.keeps (save_thread c p st)" "prio_frame.keeps (load_thread c p)" "prio_frame.keeps (enter_idle c)"
  unfolding save_thread_def load_thread_def enter_idle_def set_kernel_stack_def
  by (intro prio_frame_intros prio_frame_mod_thread; simp)+

lemma prio_frame_switch: "prio_frame.keeps (sched_switch c p)"
  unfolding sched_switch_def
  by (rule prio_frame.keeps_sbind [OF prio_frame_ops(3)], rename_tac l, case_tac "c_state l")
    (simp_all only: core_state.case, (intro prio_frame_intros prio_frame_moves)+)

lemma sched_runner_prio:
  assumes "sched_runner c s = Inr (x, t)"
  shows "prio_frame s t"
proof -
  have "prio_frame.keeps (wake_thread p)" for p
    unfolding wake_thread_def Let_def by (intro prio_frame_intros prio_frame_mod_thread; simp)
  then have "prio_frame.keeps (sched_runner c)"
    unfolding sched_runner_def sched_def update_sleeping_threads_def pick_thread_def pick_step_def Let_def
    by (intro prio_frame_intros prio_frame_fold prio_frame_switch)
  then show ?thesis using assms by (rule prio_frame.keepsD)
qed

text \<open>Core \<open>c\<close> runs \<open>x\<close>, the other of the first two threads of the list is ready, and no thread behind
  them has a smaller priority value.\<close>

definition duel :: "nat \<Rightarrow> u32 \<Rightarrow> u32 \<Rightarrow> u32 list \<Rightarrow> u32 \<Rightarrow> kstate \<Rightarrow> bool" where
  "duel c a b rest x s \<longleftrightarrow> sched_inv s \<and> \<not> sched_dat s \<and> thread_list s = a # b # rest \<and> x \<in> {a, b} \<and>
     (\<exists>l. cores s c = Some l \<and> c_state l = CORE_ONLINE \<and> current_thread l = x) \<and>
     map_option t_state (threads s (if x = a then b else a)) = Some THREAD_STOPPED \<and>
     (\<forall>p \<in> {a, b}. map_option t_cpu (threads s p) = Some (- 1) \<and> prio s p < 0xFFFFFFFF) \<and>
     (\<forall>p \<in> {a, b}. \<forall>q \<in> set rest. prio s p \<le> prio s q)"

lemma prio_frame_prio: "prio_frame s t \<Longrightarrow> prio t p = prio s p"
  by (cases "threads s p"; cases "threads t p") (auto simp: prio_frame_def prio_def dest: spec [of _ p])

lemma prio_frame_cpu: "prio_frame s t \<Longrightarrow> map_option t_cpu (threads t p) = map_option t_cpu (threads s p)"
  by (cases "threads s p"; cases "threads t p") (auto simp: prio_frame_def dest: spec [of _ p])

lemma duel_step:
  assumes D: "duel c a b rest x s"
  shows "\<exists>s'. sched_runner c s = Inr ((), s') \<and> duel c a b rest (if x = a then b else a) s'"
proof -
  define y where "y = (if x = a then b else a)"
  have I: "sched_inv s" and lk: "\<not> sched_dat s" and tl: "thread_list s = a # b # rest" and xa: "x \<in> {a, b}"
    and st: "map_option t_state (threads s y) = Some THREAD_STOPPED"
    and ab: "\<And>p. p \<in> {a, b} \<Longrightarrow> map_option t_cpu (threads s p) = Some (- 1) \<and> prio s p < 0xFFFFFFFF"
    and rs: "\<And>p q. p \<in> {a, b} \<Longrightarrow> q \<in> set rest \<Longrightarrow> prio s p \<le> prio s q"
    using D unfolding duel_def y_def by blast+
  obtain l where l: "cores s c = Some l" "c_state l = CORE_ONLINE" "current_thread l = x" using D unfolding duel_def by blast
  have ne: "a \<noteq> b" using sched_invD(1) [OF I] tl by simp
  have xy: "x \<noteq> y" "y \<in> {a, b}" "{x, y} = {a, b}" using xa ne by (auto simp: y_def)
  have run: "map_option t_state (threads s x) = Some THREAD_RUNNING" using sched_invD(4) [OF I l(1)] l(2,3) by (simp add: core_ok_def)
  let ?s1 = "s\<lparr>threads := woken c s\<rparr>"
  have wk: "threads ?s1 p = threads s p" if "p \<in> {x, y}" for p
    using that run st by (auto simp: woken_def wake_def)
  have pr: "prio ?s1 p = prio s p" for p by (simp add: prio_def woken_def wake_def split: option.splits)
  have ry: "ready ?s1 (core_id l) y" using wk [of y] st ab [OF xy(2)] by (auto simp: ready_def split: option.splits)
  have rx: "\<not> ready ?s1 (core_id l) x" using wk [of x] run by (auto simp: ready_def split: option.splits)
  have ch: "p = y" if c: "chosen ?s1 (core_id l) (thread_list s) p" for p
  proof -
    obtain as bs where e: "a # b # rest = as @ p # bs" "ready ?s1 (core_id l) p" "\<forall>q \<in> set as. ready ?s1 (core_id l) q \<longrightarrow> prio ?s1 p < prio ?s1 q"
      using c unfolding chosen_def tl by blast
    have "p \<notin> set rest"
    proof
      assume r: "p \<in> set rest"
      have "p \<noteq> a" "p \<noteq> b" using r sched_invD(1) [OF I] tl by auto
      then have "{a, b} \<subseteq> set as" using e(1) by (cases as; cases "tl as") auto
      then have "prio ?s1 p < prio ?s1 y" using e(3) ry xy(2) by blast
      then show False using rs [OF xy(2) r] by (simp add: pr)
    qed
    moreover have "p \<in> set (a # b # rest)" unfolding e(1) by simp
    ultimately show ?thesis using e(2) rx xy(3) by auto
  qed
  have ex: "\<exists>q \<in> set (thread_list s). ready ?s1 (core_id l) q \<and> prio ?s1 q < 0xFFFFFFFF"
    using ry ab [OF xy(2)] xy(2) tl by (intro bexI [of _ y]) (auto simp: pr)
  have on: "c_state l \<in> {CORE_ONLINE, CORE_IDLE}" using l(2) by simp
  obtain s' l' where s': "sched_runner c s = Inr ((), s')" "sched_inv s'" "cores s' = (cores s)(c \<mapsto> l')"
    "chosen ?s1 (core_id l) (thread_list s) (current_thread l')" "c_state l' = CORE_ONLINE"
    "t_state (the (threads s' (current_thread l))) = THREAD_STOPPED"
    using sched_runner_effect [OF I lk l(1) on] l(2) unfolding if_P [OF ex] by blast
  have F: "prio_frame s s'" by (rule sched_runner_prio [OF s'(1)])
  have "\<not> sched_dat s'"
    using s'(1) lk by (auto simp: sched_runner_def sbind_eq_Inr sthen_eq_Inr sched_unlock_def)
  moreover have "map_option t_state (threads s' x) = Some THREAD_STOPPED"
  proof -
    have "threads s' x \<noteq> None" using sched_invD(3) [OF s'(2)] F xa by (auto simp: prio_frame_def tl)
    then show ?thesis using s'(6) l(3) by auto
  qed
  moreover have "thread_list s' = a # b # rest" using F tl by (simp add: prio_frame_def)
  moreover have "\<exists>l. cores s' c = Some l \<and> c_state l = CORE_ONLINE \<and> current_thread l = y"
    using s'(3,5) ch [OF s'(4)] by simp
  moreover have "(if y = a then b else a) = x" using xa ne by (auto simp: y_def)
  ultimately have "duel c a b rest y s'"
    unfolding duel_def using s'(2) xy(2) ab rs by (simp add: prio_frame_prio [OF F] prio_frame_cpu [OF F])
  with s'(1) show ?thesis unfolding y_def by blast
qed

text \<open>C17: the scheduler is not fair: on a core that runs alone, the first two threads of the list, if no
  thread behind them has a smaller priority value, take turns for ever. After any number of runs
  the core runs one of them, so a third thread of the same priority never runs.\<close>

theorem sched_starves:
  assumes "duel c a b rest a s"
  shows "\<exists>s' l. sfor 0 n (\<lambda>_. sched_runner c) s = Inr ((), s') \<and> cores s' c = Some l \<and>
    current_thread l = (if even n then a else b)"
proof -
  have "a \<noteq> b" using assms sched_invD(1) [of s] by (auto simp: duel_def)
  then have "\<exists>s'. sfor 0 n (\<lambda>_. sched_runner c) s = Inr ((), s') \<and> duel c a b rest (if even (0 + n) then a else b) s'"
    using assms duel_step [of c a b rest a] duel_step [of c a b rest b] by (intro sfor_keeps) (auto split: if_splits)
  then show ?thesis unfolding duel_def by (auto split: if_splits)
qed

lemma demo_duel: "duel 0 0x1000 0x2000 [0x3000] 0x1000 demo_kernel"
  unfolding duel_def using demo_kernel_inv by (simp add: prio_def)

theorem sched_starves_witness:
  "\<exists>s' l. sfor 0 1001 (\<lambda>_. sched_runner 0) demo_kernel = Inr ((), s') \<and> cores s' 0 = Some l \<and> current_thread l = 0x2000"
  using sched_starves [OF demo_duel, of 1001] by simp

section \<open>A race between sleeping and waking\<close>



end
