(* ===== verification/Region.thy ===== *)
theory Region
  imports Heap_Alloc
begin

unbundle bit_operations_syntax

text \<open>
  Byte-wise and unaligned accesses through the page walk, and the view of a mapped region as plain
  memory for them: \<open>does\<close> is the judgement that an operation turns one content of the region into
  another, with a rule for every access and for sequencing.
\<close>

section \<open>Unaligned accesses\<close>

definition vld8 :: "u32 \<Rightarrow> (mstate, u8) op" where
  "vld8 v s = (case mmu s v of None \<Rightarrow> Inl (PageFault v) | Some p \<Rightarrow> Inr (phys s p, s))"

definition b_ld16 :: "u32 \<Rightarrow> (mstate, u16) op" where
  "b_ld16 a = sbind (vld8 a) (\<lambda>b0. sbind (vld8 (a + 1)) (\<lambda>b1. sret (ucast b0 OR push_bit 8 (ucast b1))))"

definition b_st16 :: "u32 \<Rightarrow> u16 \<Rightarrow> (mstate, unit) op" where
  "b_st16 a v = sthen (vst8 a (ucast v)) (vst8 (a + 1) (ucast (drop_bit 8 v)))"

definition b_ld32 :: "u32 \<Rightarrow> (mstate, u32) op" where
  "b_ld32 a = sbind (b_ld16 a) (\<lambda>l. sbind (b_ld16 (a + 2)) (\<lambda>h. sret (ucast l OR push_bit 16 (ucast h))))"

definition b_st32 :: "u32 \<Rightarrow> u32 \<Rightarrow> (mstate, unit) op" where
  "b_st32 a v = sthen (b_st16 a (ucast v)) (b_st16 (a + 2) (ucast (drop_bit 16 v)))"

section \<open>Byte accesses on a mapped region\<close>

lemma region_upd:
  assumes R: "region A s" and m: "\<forall>q. Some q \<notin> mmu s ` A \<longrightarrow> m q = phys s q"
  shows "region A (s\<lparr>phys := m\<rparr>)" "\<And>v. v \<in> A \<Longrightarrow> mmu (s\<lparr>phys := m\<rparr>) v = mmu s v"
proof -
  let ?s = "s\<lparr>phys := m\<rparr>"
  have same: "mmu (s\<lparr>phys := n\<rparr>) u = mmu s u" if "\<forall>q. Some q \<notin> mmu s ` A \<longrightarrow> n q = phys s q" "u \<in> A" for n u
    using R that unfolding region_def by (elim conjE) simp
  show eq: "mmu ?s u = mmu s u" if "u \<in> A" for u by (rule same [OF m that])
  have img: "mmu ?s ` A = mmu s ` A" using eq by (intro image_cong) simp_all
  show "region A ?s"
    unfolding region_def
  proof (intro conjI allI impI ballI)
    show "inj_on (mmu ?s) A" using R eq by (simp add: region_def inj_on_def)
    show "mmu ?s u \<noteq> None" if "u \<in> A" for u using R eq [OF that] that by (simp add: region_def)
    fix u q k assume al: "word_al u" and uA: "u \<in> A" and um: "mmu ?s u = Some q" and k4: "k \<in> {0, 1, 2, 3 :: u32}"
    obtain p where p: "mmu s u = Some p" "\<forall>k \<in> {0, 1, 2, 3}. u + k \<in> A \<and> mmu s (u + k) = Some (p + k)"
      using region_word [OF R al uA] .
    have "q = p" using um eq [OF uA] p(1) by simp
    moreover show uk: "u + k \<in> A" using p(2) k4 by blast
    moreover have "mmu s (u + k) = Some (p + k)" using p(2) k4 by blast
    ultimately show "mmu ?s (u + k) = Some (q + k)" using eq [OF uk] by simp
  next
    fix n u assume n: "\<forall>q. Some q \<notin> mmu ?s ` A \<longrightarrow> n q = phys ?s q" and uA: "u \<in> A"
    have "\<forall>q. Some q \<notin> mmu s ` A \<longrightarrow> n q = phys s q" using n m unfolding img by simp
    from same [OF this uA] show "mmu (?s\<lparr>phys := n\<rparr>) u = mmu ?s u" using eq [OF uA] by simp
  qed
qed

lemma vld8_region: "region A s \<Longrightarrow> v \<in> A \<Longrightarrow> vld8 v s = Inr (vm A s v, s)"
  by (auto simp: region_def vld8_def vm_def split: option.splits)

lemma vst8_region:
  assumes R: "region A s" and v: "v \<in> A"
  shows "\<exists>s'. vst8 v x s = Inr ((), s') \<and> region A s' \<and> vm A s' = (vm A s)(v := x) \<and> s' = s\<lparr>phys := phys s'\<rparr>"
proof -
  have "mmu s v \<noteq> None" using R v unfolding region_def by blast
  then obtain p where p: "mmu s v = Some p" by blast
  have m: "\<forall>q. Some q \<notin> mmu s ` A \<longrightarrow> ((phys s)(p := x)) q = phys s q" using p v by (metis fun_upd_other imageI)
  have "vm A (s\<lparr>phys := (phys s)(p := x)\<rparr>) = (vm A s)(v := x)"
  proof
    fix u
    have "the (mmu s u) = p \<longleftrightarrow> u = v" if "u \<in> A"
    proof -
      have "mmu s u \<noteq> None" "inj_on (mmu s) A" using R that unfolding region_def by blast+
      with p v that show ?thesis using inj_on_eq_iff [of "mmu s" A u v] by auto
    qed
    moreover have "mmu (s\<lparr>phys := (phys s)(p := x)\<rparr>) u = mmu s u" if "u \<in> A" by (rule region_upd(2) [OF R, where m = "(phys s)(p := x)", OF m that])
    ultimately show "vm A (s\<lparr>phys := (phys s)(p := x)\<rparr>) u = ((vm A s)(v := x)) u"
      using v by (cases "u \<in> A") (auto simp: vm_def)
  qed
  with region_upd(1) [OF R, where m = "(phys s)(p := x)", OF m] p show ?thesis
    by (intro exI [of _ "s\<lparr>phys := (phys s)(p := x)\<rparr>"]) (simp add: vst8_def)
qed

section \<open>Operations as transformers of plain memory\<close>

text \<open>
  \<open>does A f M x M'\<close>: on a machine whose region \<open>A\<close> reads as \<open>M\<close> the operation returns \<open>x\<close> and leaves
  the region reading as \<open>M'\<close>.
\<close>

definition does :: "u32 set \<Rightarrow> (mstate, 'a) op \<Rightarrow> mem \<Rightarrow> 'a \<Rightarrow> mem \<Rightarrow> bool" where
  "does A f M x M' \<longleftrightarrow> (\<forall>s. region A s \<longrightarrow> vm A s = M \<longrightarrow>
     (\<exists>s'. f s = Inr (x, s') \<and> region A s' \<and> vm A s' = M'))"

lemma does_sret: "does A (sret x) M x M"
  by (simp add: does_def)

lemma does_sbind:
  assumes "does A f M x M1" "does A (g x) M1 y M2"
  shows "does A (sbind f g) M y M2"
  unfolding does_def
proof (intro allI impI)
  fix s assume "region A s" "vm A s = M"
  then obtain s1 where s1: "f s = Inr (x, s1)" "region A s1" "vm A s1 = M1" using assms(1) unfolding does_def by blast
  then obtain s2 where "g x s1 = Inr (y, s2)" "region A s2" "vm A s2 = M2" using assms(2) unfolding does_def by blast
  with s1 show "\<exists>s'. sbind f g s = Inr (y, s') \<and> region A s' \<and> vm A s' = M2" by (simp add: sbind_def)
qed

lemma does_sthen: "does A f M x M1 \<Longrightarrow> does A g M1 y M2 \<Longrightarrow> does A (sthen f g) M y M2"
  unfolding sthen_def by (rule does_sbind)

lemma does_vld: "word_al v \<Longrightarrow> v \<in> A \<Longrightarrow> does A (vld v) M (ld32 M v) M"
  unfolding does_def using vld_region by fastforce

lemma does_vst: "word_al v \<Longrightarrow> v \<in> A \<Longrightarrow> does A (vst v x) M () (st32 M v x)"
  unfolding does_def using vst_region by blast

lemma does_vld8: "v \<in> A \<Longrightarrow> does A (vld8 v) M (M v) M"
  unfolding does_def using vld8_region by fastforce

lemma does_vst8: "v \<in> A \<Longrightarrow> does A (vst8 v x) M () (M(v := x))"
  unfolding does_def using vst8_region by blast

lemma does_b_ld16: "v \<in> A \<Longrightarrow> v + 1 \<in> A \<Longrightarrow> does A (b_ld16 v) M (ld16 M v) M"
  unfolding b_ld16_def ld16_def by (rule does_sbind does_vld8 does_sret | assumption)+

lemma does_b_st16: "v \<in> A \<Longrightarrow> v + 1 \<in> A \<Longrightarrow> does A (b_st16 v x) M () (st16 M v x)"
  unfolding b_st16_def st16_def by (rule does_sthen does_vst8 | assumption)+

lemma ld32_halves: "ld32 M v = ucast (ld16 M v) OR push_bit 16 (ucast (ld16 M (v + 2)))"
proof -
  have e: "v + 2 + 1 = v + 3" by simp
  show ?thesis unfolding ld32_def ld16_def e by (rule bit_word_eqI) (auto simp: bit_simps dest: bit_imp_le_length)
qed

lemma st32_halves: "st32 M v x = st16 (st16 M v (ucast x)) (v + 2) (ucast (drop_bit 16 x))"
proof -
  have "(ucast (ucast (x :: u32) :: u16) :: u8) = ucast x" "(ucast (drop_bit 8 (ucast x :: u16)) :: u8) = ucast (drop_bit 8 x)"
    "(ucast (ucast (drop_bit 16 x) :: u16) :: u8) = ucast (drop_bit 16 x)"
    "(ucast (drop_bit 8 (ucast (drop_bit 16 x) :: u16)) :: u8) = ucast (drop_bit 24 x)"
    by (auto simp: bit_eq_iff bit_simps)
  then show ?thesis by (simp add: st32_def st16_def add.assoc)
qed

lemma does_b_ld32:
  assumes "v \<in> A" "v + 1 \<in> A" "v + 2 \<in> A" "v + 3 \<in> A"
  shows "does A (b_ld32 v) M (ld32 M v) M"
proof -
  have "v + 2 + 1 \<in> A" using assms(4) by (simp add: add.assoc)
  with assms show ?thesis unfolding b_ld32_def ld32_halves by - (rule does_sbind does_b_ld16 does_sret | assumption)+
qed

lemma does_b_st32:
  assumes "v \<in> A" "v + 1 \<in> A" "v + 2 \<in> A" "v + 3 \<in> A"
  shows "does A (b_st32 v x) M () (st32 M v x)"
proof -
  have "v + 2 + 1 \<in> A" using assms(4) by (simp add: add.assoc)
  with assms show ?thesis unfolding b_st32_def st32_halves by - (rule does_sthen does_b_st16 | assumption)+
qed

end
