(* ===== verification/V86.thy ===== *)
theory V86
  imports Sched_Inv Region
begin

unbundle bit_operations_syntax

text \<open>
  The virtual-8086 monitor, \<^verbatim>\<open>src/proc/v86.c\<close>. Faulting real-mode instructions of the BIOS code
  reach \<open>v86_monitor\<close> as general protection faults; it emulates the privileged ones on the saved
  register frame \<open>irq_regs\<close> and the real-mode stack, both in paged memory. Accesses to the
  real-mode stack may be unaligned, so they go byte by byte through the page walk. The entry into
  virtual-8086 mode is assembly: \<open>v86_call_generic_int\<close> ends with the parameters it passes, and the
  monitor's exit with the frame that returns to the kernel. The addresses of the assembly symbols
  are arguments.
\<close>

section \<open>The real-mode stack and instruction stream\<close>

definition FP_TO_LINEAR :: "u32 \<Rightarrow> u32 \<Rightarrow> u32" where
  "FP_TO_LINEAR seg ofs = push_bit 4 (seg AND 0xFFFF) + (ofs AND 0xFFFF)"

definition v86_farptr2linear :: "u32 \<Rightarrow> u32" where
  "v86_farptr2linear fp = FP_TO_LINEAR (drop_bit 16 fp) (fp AND 0xFFFF)"

definition v86_push :: "u32 \<Rightarrow> u32 \<Rightarrow> bool \<Rightarrow> (mstate, unit) op" where
  "v86_push r v is32 =
     sbind (vld (r_user_esp r)) (\<lambda>esp.
     let stack = (ucast esp :: u16) - (if is32 then 4 else 2)
     in sbind (vld (r_user_ss r)) (\<lambda>ss.
        sthen (if is32 then b_st32 (FP_TO_LINEAR ss (ucast stack)) v
               else b_st16 (FP_TO_LINEAR ss (ucast stack)) (ucast v))
              (vst (r_user_esp r) (ucast stack))))"

definition v86_pop :: "u32 \<Rightarrow> bool \<Rightarrow> (mstate, u32) op" where
  "v86_pop r is32 =
     sbind (vld (r_user_esp r)) (\<lambda>esp.
     let stack = (ucast esp :: u16)
     in sbind (vld (r_user_ss r)) (\<lambda>ss.
        sbind (if is32 then b_ld32 (FP_TO_LINEAR ss (ucast stack))
               else sbind (b_ld16 (FP_TO_LINEAR ss (ucast stack))) (\<lambda>w. sret (ucast w))) (\<lambda>v.
        sthen (vst (r_user_esp r) (ucast (stack + (if is32 then 4 else 2))))
              (sret v))))"

definition v86_get_ip_byte :: "u32 \<Rightarrow> (mstate, u8) op" where
  "v86_get_ip_byte r =
     sbind (vld (r_cs r)) (\<lambda>cs.
     sbind (vld (r_eip r)) (\<lambda>eip.
     sthen (b_st16 (r_eip r) (ucast eip + 1))
           (vld8 (FP_TO_LINEAR cs eip))))"

section \<open>The monitor\<close>

text \<open>The flags image an interrupted real-mode program sees.\<close>

definition v86_flags :: "u32 \<Rightarrow> bool \<Rightarrow> u32" where
  "v86_flags eflags v_if =
     (let f = eflags OR 0x20002 in if v_if then f OR 0x200 else f AND NOT 0x200)"

definition set_v86_if :: "u32 \<Rightarrow> bool \<Rightarrow> (kstate, unit) op" where
  "set_v86_if p b = mod_thread p (v86_if_update (\<lambda>_. b))"

definition v86_pushf :: "u32 \<Rightarrow> u32 \<Rightarrow> bool \<Rightarrow> (kstate, unit) op" where
  "v86_pushf r p is32 =
     sbind (mach_op (vld (r_eflags r))) (\<lambda>eflags.
     sbind (get_thread p) (\<lambda>t.
     mach_op (v86_push r (v86_flags eflags (v86_if t)) is32)))"

definition v86_popf :: "u32 \<Rightarrow> u32 \<Rightarrow> bool \<Rightarrow> (kstate, unit) op" where
  "v86_popf r p is32 =
     sbind (mach_op (v86_pop r is32)) (\<lambda>v.
     sthen (set_v86_if p ((v OR 0x20002) AND 0x200 \<noteq> 0))
           (mach_op (vst (r_eflags r) (v OR 0x20002))))"

definition v86_int :: "u32 \<Rightarrow> u32 \<Rightarrow> u32 \<Rightarrow> u32 \<Rightarrow> (kstate, unit) op" where
  "v86_int exit_v86 v86_exit r p =
     sbind (mach_op (v86_get_ip_byte r)) (\<lambda>int_num.
     if int_num = 0x03 then
       sthen (mach_op (vst (r_cs r) (DESC_SEG DESC_KERNEL_CODE PL_RING0)))
      (sthen (mach_op (vst (r_ds r) (DESC_SEG DESC_KERNEL_DATA PL_RING0)))
      (sthen (mach_op (vst (r_eip r) exit_v86))
      (sthen (mach_op (vst (r_eflags r) 0x202))
      (sbind (get_thread p) (\<lambda>t.
       sthen (mach_op (vst (r_esp r) (kernel_stack t)))
      (sthen (mach_op (vst (r_eax r) v86_exit))
      (sbind (mach_op (vld (r_user_esp r))) (\<lambda>sp. mach_op (vst (r_ebx r) sp)))))))))
     else
       sthen (v86_pushf r p False)
      (sbind (mach_op (vld (r_cs r))) (\<lambda>cs.
       sthen (mach_op (v86_push r cs False))
      (sbind (mach_op (vld (r_eip r))) (\<lambda>eip.
       sthen (mach_op (v86_push r eip True))
      (sbind (mach_op (b_ld16 (4 * ucast int_num + 2))) (\<lambda>seg.
       sthen (mach_op (vst (r_cs r) (ucast seg)))
      (sbind (mach_op (b_ld16 (4 * ucast int_num))) (\<lambda>ofs.
       mach_op (vst (r_eip r) (ucast ofs)))))))))))"

definition v86_iret :: "u32 \<Rightarrow> u32 \<Rightarrow> (kstate, unit) op" where
  "v86_iret r p =
     sbind (mach_op (v86_pop r True)) (\<lambda>eip.
     sthen (mach_op (vst (r_eip r) eip))
    (sbind (mach_op (v86_pop r False)) (\<lambda>cs.
     sthen (mach_op (vst (r_cs r) cs))
    (sbind (mach_op (v86_pop r False)) (\<lambda>v.
     sthen (mach_op (vst (r_eflags r) (v OR 0x20002)))
           (set_v86_if p ((v OR 0x20002) AND 0x200 \<noteq> 0)))))))"

text \<open>One instruction byte: prefixes go on, everything else ends the loop.\<close>

definition v86_instr :: "u32 \<Rightarrow> u32 \<Rightarrow> u32 \<Rightarrow> u32 \<Rightarrow> bool \<times> bool \<Rightarrow> (kstate, unit + bool \<times> bool) op" where
  "v86_instr exit_v86 v86_exit r p pre =
     sbind (mach_op (v86_get_ip_byte r)) (\<lambda>instr.
     if instr = 0x66 then sret (Inr (True, snd pre))
     else if instr = 0x67 then sret (Inr (fst pre, True))
     else if instr = 0x9c then sthen (v86_pushf r p (fst pre)) (sret (Inl ()))
     else if instr = 0x9d then sthen (v86_popf r p (fst pre)) (sret (Inl ()))
     else if instr = 0xcd then sthen (v86_int exit_v86 v86_exit r p) (sret (Inl ()))
     else if instr = 0xcf then sthen (v86_iret r p) (sret (Inl ()))
     else if instr = 0xfa then sthen (set_v86_if p False) (sret (Inl ()))
     else if instr = 0xfb then sthen (set_v86_if p True) (sret (Inl ()))
     else sfail (Panic ''v86_monitor: fatal error''))"

definition v86_monitor :: "u32 \<Rightarrow> u32 \<Rightarrow> nat \<Rightarrow> (kstate, unit) op" where
  "v86_monitor exit_v86 v86_exit c =
     sbind (get_core_locals c) (\<lambda>l.
     sloop (v86_instr exit_v86 v86_exit (irq_regs l) (current_thread l)) (False, False))"

section \<open>Calls from the kernel\<close>

text \<open>
  A call is a \<open>v86_call_t\<close> in memory: the 16 bytes of registers (\<open>sp\<close> at 6), the type at 16 and
  the interrupt number at 20. The queue is the sequence of addresses on \<open>v86_call_list\<close>.
\<close>

definition copy_bytes :: "u32 \<Rightarrow> u32 \<Rightarrow> nat \<Rightarrow> (mstate, unit) op" where
  "copy_bytes src dst n = sfor 0 n (\<lambda>i. sbind (vld8 (src + of_nat i)) (vst8 (dst + of_nat i)))"

definition v86_call_generic_int :: "u32 \<Rightarrow> u8 \<Rightarrow> u32 \<Rightarrow> (mstate, u32 \<times> u32 \<times> u32 \<times> u32) op" where
  "v86_call_generic_int generic_int int_num ctx =
     sthen (vst8 (generic_int + 2) int_num)
    (sbind (b_ld16 (ctx + 6)) (\<lambda>sp.
     let stack = sp - 16
     in sthen (copy_bytes ctx (FP_TO_LINEAR 0 (ucast stack)) 16)
              (sret (0, ucast stack, 0, generic_int))))"

text \<open>One round of the loop of \<open>v86_enter\<close> with a call waiting; the result is what \<open>_enter_v86\<close> gets.\<close>

definition v86_enter :: "u32 \<Rightarrow> (kstate, (u32 \<times> u32 \<times> u32 \<times> u32) option) op" where
  "v86_enter generic_int =
     sbind (sget v86_call_list) (\<lambda>calls.
     case calls of
       [] \<Rightarrow> sfail Diverges
     | call # _ \<Rightarrow>
         sthen (mach_op (b_st16 (call + 6) 0xA000))
        (sbind (mach_op (b_ld32 (call + 16))) (\<lambda>type.
         if type = 1
         then sbind (mach_op (vld8 (call + 20))) (\<lambda>n.
              sbind (mach_op (v86_call_generic_int generic_int n call)) (\<lambda>e. sret (Some e)))
         else sret None)))"

text \<open>\<open>v86_exit\<close> up to its call of \<open>v86_enter\<close>.\<close>

definition v86_exit :: "u32 \<Rightarrow> (kstate, unit) op" where
  "v86_exit stack =
     sbind (sget v86_call_list) (\<lambda>calls.
     case calls of
       [] \<Rightarrow> sfail (OutOfBounds 0)
     | call # rest \<Rightarrow>
         sthen (smod (v86_call_list_update (\<lambda>_. rest)))
        (sthen (mach_op (copy_bytes (FP_TO_LINEAR 0 stack) call 16))
               (mach_op (b_st32 (call + 16) 0))))"

text \<open>The caller waits for another core or a later interrupt to complete the call.\<close>

definition v86_call :: "u32 \<Rightarrow> (kstate, unit) op" where
  "v86_call call =
     sbind (sget v86_proc) (\<lambda>vp.
     if vp = 0 then sret ()
     else sthen (smod (v86_call_list_update (\<lambda>cs. cs @ [call])))
         (sbind (mach_op (b_ld32 (call + 16))) (\<lambda>type. if type = 0 then sret () else sfail Diverges)))"

definition v86_init :: "symbols \<Rightarrow> u32 \<Rightarrow> u32 \<Rightarrow> nat \<Rightarrow> u32 \<Rightarrow> (kstate, unit) op" where
  "v86_init L kernel_obj code_start code_size enter =
     sthen (smod (v86_call_list_update (\<lambda>_. [])))
    (sbind (mach_op (vmm_map L 0 0 (0x100000 div PAGE_SIZE) (ucast (VMM_PRESENT OR VMM_WRITE OR VMM_USER)))) (\<lambda>_.
     sthen (mach_op (copy_bytes code_start 0x7C00 code_size))
    (sthen (mach_op (register_int_handler 0x0D V86_monitor))
    (sbind (proc_create_kernel L kernel_obj (map (\<lambda>ch. of_nat (of_char ch)) ''_v86'') 0) (\<lambda>vp.
     sthen (smod (v86_proc_update (\<lambda>_. vp)))
    (sbind (thread_create L vp enter) (\<lambda>_.
     sched_run_proc vp)))))))"

section \<open>Operations as transformers of memory and threads\<close>

text \<open>The judgement \<open>does\<close> for operations of the kernel that may also change threads.\<close>

definition kdoes :: "u32 set \<Rightarrow> (kstate, 'a) op \<Rightarrow> mem \<Rightarrow> (u32 \<Rightarrow> thread option) \<Rightarrow> 'a \<Rightarrow> mem \<Rightarrow> (u32 \<Rightarrow> thread option) \<Rightarrow> bool" where
  "kdoes A f M T x M' T' \<longleftrightarrow> (\<forall>s. region A (mach s) \<longrightarrow> vm A (mach s) = M \<longrightarrow> threads s = T \<longrightarrow>
     (\<exists>m. f s = Inr (x, s\<lparr>mach := m, threads := T'\<rparr>) \<and> region A m \<and> vm A m = M'))"

lemma kdoes_mach:
  assumes "does A f M x M'"
  shows "kdoes A (mach_op f) M T x M' T"
  unfolding kdoes_def
proof (intro allI impI)
  fix s :: kstate assume a: "region A (mach s)" "vm A (mach s) = M" "threads s = T"
  then obtain m where "f (mach s) = Inr (x, m)" "region A m" "vm A m = M'" using assms unfolding does_def by blast
  with a(3) show "\<exists>m. mach_op f s = Inr (x, s\<lparr>mach := m, threads := T\<rparr>) \<and> region A m \<and> vm A m = M'"
    by (intro exI [of _ m]) (auto simp: mach_op_def)
qed

lemma kdoes_pure:
  assumes "\<And>s. threads s = T \<Longrightarrow> f s = Inr (x, s\<lparr>threads := T'\<rparr>)"
  shows "kdoes A f M T x M T'"
  unfolding kdoes_def
proof (intro allI impI)
  fix s :: kstate assume "region A (mach s)" "vm A (mach s) = M" "threads s = T"
  with assms [of s] show "\<exists>m. f s = Inr (x, s\<lparr>mach := m, threads := T'\<rparr>) \<and> region A m \<and> vm A m = M"
    by (intro exI [of _ "mach s"]) simp
qed

lemma kdoes_sret: "kdoes A (sret x) M T x M T"
  by (rule kdoes_pure) auto

lemma kdoes_sbind:
  assumes "kdoes A f M T x M1 T1" "kdoes A (g x) M1 T1 y M2 T2"
  shows "kdoes A (sbind f g) M T y M2 T2"
  unfolding kdoes_def
proof (intro allI impI)
  fix s :: kstate assume "region A (mach s)" "vm A (mach s) = M" "threads s = T"
  then obtain m1 where m1: "f s = Inr (x, s\<lparr>mach := m1, threads := T1\<rparr>)" "region A m1" "vm A m1 = M1"
    using assms(1) unfolding kdoes_def by blast
  let ?s = "s\<lparr>mach := m1, threads := T1\<rparr>"
  have "region A (mach ?s)" "vm A (mach ?s) = M1" "threads ?s = T1" using m1(2,3) by simp_all
  then obtain m2 where m2: "g x ?s = Inr (y, ?s\<lparr>mach := m2, threads := T2\<rparr>)" "region A m2" "vm A m2 = M2"
    using assms(2) unfolding kdoes_def by blast
  with m1(1) show "\<exists>m. sbind f g s = Inr (y, s\<lparr>mach := m, threads := T2\<rparr>) \<and> region A m \<and> vm A m = M2"
    by (intro exI [of _ m2]) (simp add: sbind_def)
qed

lemma kdoes_sthen: "kdoes A f M T x M1 T1 \<Longrightarrow> kdoes A g M1 T1 y M2 T2 \<Longrightarrow> kdoes A (sthen f g) M T y M2 T2"
  unfolding sthen_def by (rule kdoes_sbind)

lemma kdoes_get_thread: "T p = Some t \<Longrightarrow> kdoes A (get_thread p) M T t M T"
  by (rule kdoes_pure) (auto simp: get_thread_def)

lemma kdoes_set_v86_if: "T p = Some t \<Longrightarrow> kdoes A (set_v86_if p b) M T () M (T(p \<mapsto> t\<lparr>v86_if := b\<rparr>))"
  by (rule kdoes_pure) (auto simp: set_v86_if_def mod_thread_def)

section \<open>Pushing and popping\<close>

lemma FP_TO_LINEAR_u16: "FP_TO_LINEAR seg (ucast (x :: u16)) = push_bit 4 (seg AND 0xFFFF) + ucast x"
proof -
  have m: "(0xFFFF :: u32) = mask 16" by (simp add: mask_eq_exp_minus_1)
  have "(ucast x :: u32) AND mask 16 = ucast x" by (rule bit_word_eqI) (auto simp: bit_simps dest: bit_imp_le_length)
  then show ?thesis by (simp add: FP_TO_LINEAR_def m)
qed

lemma ucast_add_u16:
  assumes "unat (x :: u16) + k < 65536"
  shows "(ucast (x + of_nat k) :: u32) = ucast x + of_nat k"
proof -
  have "unat x < 65536" using unsigned_less [of x, where 'a = nat] by simp
  then have e: "unat (ucast x :: u32) = unat x" "unat (ucast (x + of_nat k) :: u32) = unat (x + of_nat k)"
    using unsigned_less [of "x + of_nat k", where 'a = nat] by (simp_all add: unsigned_ucast_eq take_bit_nat_eq_self)
  have "unat (x + of_nat k) = unat x + k"
    using assms by (simp add: unat_word_ariths unat_of_nat)
  moreover have "unat (ucast x + of_nat k :: u32) = unat x + k"
    using assms e(1) unat_add_small [of "ucast x" "of_nat k"] by (simp add: unat_of_nat_small)
  ultimately show ?thesis by (simp add: word_unat_eq_iff e(2))
qed

lemma FP_TO_LINEAR_add:
  "unat (x :: u16) + k < 65536 \<Longrightarrow> FP_TO_LINEAR seg (ucast (x + of_nat k)) = FP_TO_LINEAR seg (ucast x) + of_nat k"
  unfolding FP_TO_LINEAR_u16 by (simp only: ucast_add_u16 add.assoc)

text \<open>The frame \<open>r\<close> lies in the region, and so do the eight bytes from \<open>B\<close> on; they do not overlap.\<close>

definition frame_in :: "u32 set \<Rightarrow> u32 \<Rightarrow> bool" where
  "frame_in A r \<longleftrightarrow> word_al r \<and> (\<forall>j < 68. r + j \<in> A)"

definition stack_in :: "u32 set \<Rightarrow> u32 \<Rightarrow> u32 \<Rightarrow> bool" where
  "stack_in A r B \<longleftrightarrow> (\<forall>i < 8. B + i \<in> A) \<and> (\<forall>i j. i < 8 \<longrightarrow> j < 68 \<longrightarrow> B + i \<noteq> r + j)"

lemma frame_field:
  assumes "frame_in A r"
  shows "q \<in> {48, 52, 56, 60, 64} \<Longrightarrow> word_al (r + q)" "j < 68 \<Longrightarrow> r + j \<in> A"
  using assms by (auto simp: frame_in_def aligned_add)

lemma frame_access:
  assumes "frame_in A r" "q \<in> {48, 52, 56, 60, 64}"
  shows "does A (vld (r + q)) M (ld32 M (r + q)) M" "does A (vst (r + q) x) M () (st32 M (r + q) x)"
proof -
  have "q < 68" using assms(2) by auto
  then show "does A (vld (r + q)) M (ld32 M (r + q)) M" "does A (vst (r + q) x) M () (st32 M (r + q) x)"
    using frame_field [OF assms(1)] assms(2) by (blast intro: does_vld does_vst)+
qed

lemma does_push:
  assumes F: "frame_in A r" and sp: "(sp :: u16) = ucast (ld32 M (r + 60)) - (if is32 then 4 else 2)"
    and B: "B = FP_TO_LINEAR (ld32 M (r + 64)) (ucast sp)"
    and I: "B \<in> A" "B + 1 \<in> A" "is32 \<Longrightarrow> B + 2 \<in> A \<and> B + 3 \<in> A"
  shows "does A (v86_push r v is32) M () (st32 (if is32 then st32 M B v else st16 M B (ucast v)) (r + 60) (ucast sp))"
proof -
  have w: "does A (if is32 then b_st32 B v else b_st16 B (ucast v)) M () (if is32 then st32 M B v else st16 M B (ucast v))"
    using I by (cases is32) (simp_all add: does_b_st32 does_b_st16)
  show ?thesis
    unfolding v86_push_def Let_def B sp
    by (rule does_sbind [OF frame_access(1) [OF F]], simp, rule does_sbind [OF frame_access(1) [OF F]], simp,
        rule does_sthen [OF w [unfolded B sp] frame_access(2) [OF F]], simp)
qed

lemma does_pop:
  assumes F: "frame_in A r" and sp: "(sp :: u16) = ucast (ld32 M (r + 60))" and B: "B = FP_TO_LINEAR (ld32 M (r + 64)) (ucast sp)"
    and I: "B \<in> A" "B + 1 \<in> A" "is32 \<Longrightarrow> B + 2 \<in> A \<and> B + 3 \<in> A"
  shows "does A (v86_pop r is32) M (if is32 then ld32 M B else ucast (ld16 M B)) (st32 M (r + 60) (ucast (sp + (if is32 then 4 else 2))))"
proof -
  have h: "does A (sbind (b_ld16 B) (\<lambda>w. sret (ucast w))) M (ucast (ld16 M B)) M"
    by (rule does_sbind [OF does_b_ld16 [OF I(1,2)] does_sret])
  have w: "does A (if is32 then b_ld32 B else sbind (b_ld16 B) (\<lambda>w. sret (ucast w))) M (if is32 then ld32 M B else ucast (ld16 M B)) M"
    using I does_b_ld32 [OF I(1,2)] h by (cases is32) simp_all
  show ?thesis
    unfolding v86_pop_def Let_def B sp
    by (rule does_sbind [OF frame_access(1) [OF F]], simp, rule does_sbind [OF frame_access(1) [OF F]], simp,
        rule does_sbind [OF w [unfolded B sp]], rule does_sthen [OF frame_access(2) [OF F]], simp, rule does_sret)
qed


text \<open>What a 16-bit store to the lower half of a word leaves there, and loads behind unrelated stores.\<close>

lemma ld32_st16_low: "ld32 (st16 M a x) a = (ld32 M a AND NOT 0xFFFF) OR ucast x"
proof -
  have m: "(0xFFFF :: u32) = mask 16" by (simp add: mask_eq_exp_minus_1)
  have "ld16 (st16 M a x) a = x" "ld16 (st16 M a x) (a + 2) = ld16 M (a + 2)"
    by (simp_all add: ld16_def st16_def ucast_bytes16)
  then show ?thesis
    unfolding ld32_halves m by (intro bit_word_eqI) (auto simp: bit_simps dest: bit_imp_le_length)
qed

lemma sep_loads:
  assumes "stack_in A r B" "q \<in> {48, 52, 56, 60, 64}"
  shows "ld32 (st32 M (r + q) v) B = ld32 M B" "ld16 (st32 M (r + q) v) (B + 4) = ld16 M (B + 4)"
    "ld16 (st32 M (r + q) v) (B + 6) = ld16 M (B + 6)"
    "ld32 (st32 M B v) (r + q) = ld32 M (r + q)" "ld32 (st16 M (B + 4) w) (r + q) = ld32 M (r + q)"
    "ld32 (st16 M (B + 6) w) (r + q) = ld32 M (r + q)"
proof -
  have n: "B + i \<noteq> r + j" if "i < 8" "j < 68" for i j using assms(1) that by (simp add: stack_in_def)
  have o1: "st32 M (r + q) v (B + i) = M (B + i)" if "i < 8" for i
  proof (rule st32_other)
    fix k :: u32 assume "k \<in> {0, 1, 2, 3}"
    then have "q + k < 68" using assms(2) by auto
    with n [OF that this] show "B + i \<noteq> r + q + k" by (simp add: add.assoc)
  qed
  have o2: "st32 M B v (r + j) = M (r + j)" if "j < 68" for j
  proof (rule st32_other)
    fix k :: u32 assume "k \<in> {0, 1, 2, 3}"
    then have "k < 8" by auto
    with n [OF this that] show "r + j \<noteq> B + k" by metis
  qed
  have o3: "st16 M (B + i) w (r + j) = M (r + j)" if "i \<in> {4, 6}" "j < 68" for i j
  proof (rule st16_other)
    have "i < 8" "i + 1 < 8" using that(1) by auto
    then show "r + j \<noteq> B + i" "r + j \<noteq> B + i + 1" using n [OF _ that(2)] by (metis add.assoc)+
  qed
  have q: "q + k < 68" if "k \<in> {0, 1, 2, 3}" for k using assms(2) that by auto
  show "ld32 (st32 M (r + q) v) B = ld32 M B"
    using o1 [of 0] o1 [of 1] o1 [of 2] o1 [of 3] by (simp add: ld32_def)
  show "ld16 (st32 M (r + q) v) (B + 4) = ld16 M (B + 4)" "ld16 (st32 M (r + q) v) (B + 6) = ld16 M (B + 6)"
    using o1 [of 4] o1 [of 5] o1 [of 6] o1 [of 7] by (simp_all add: ld16_def add.assoc)
  have e: "r + q + 1 = r + (q + 1)" "r + q + 2 = r + (q + 2)" "r + q + 3 = r + (q + 3)" by (simp_all add: add.assoc)
  show "ld32 (st32 M B v) (r + q) = ld32 M (r + q)"
    unfolding ld32_def e using o2 q [of 0] q [of 1] q [of 2] q [of 3] by simp
  show "ld32 (st16 M (B + 4) w) (r + q) = ld32 M (r + q)" "ld32 (st16 M (B + 6) w) (r + q) = ld32 M (r + q)"
    unfolding ld32_def e using o3 q [of 0] q [of 1] q [of 2] q [of 3] by simp_all
qed

lemma stack_loads:
  "ld32 (st16 M (B + 4) w) B = ld32 M B" "ld32 (st16 M (B + 6) w) B = ld32 M B" "ld16 (st32 M B v) (B + 4) = ld16 M (B + 4)"
  "ld16 (st32 M B v) (B + 6) = ld16 M (B + 6)" "ld16 (st16 M (B + 4) w) (B + 6) = ld16 M (B + 6)"
  by (simp_all add: ld32_def st32_def ld16_def st16_def add.assoc)

lemma frame_loads:
  assumes "frame_in A r" "p \<in> {48, 52, 56, 60, 64}" "q \<in> {48, 52, 56, 60, 64}"
  shows "ld32 (st32 M (r + p) v) (r + q) = (if p = q then v else ld32 M (r + q))"
  using ld32_st32_other [of "r + p" "r + q" M v] frame_field(1) [OF assms(1)] assms(2,3) by auto

section \<open>Interrupts of real-mode code\<close>

lemma u16_cast [simp]: "(ucast (ucast (x :: u16) :: u32) :: u16) = x"
  by (rule bit_word_eqI) (simp add: bit_simps)

lemma ld32_st16_eip: "q \<in> {52, 56, 60, 64} \<Longrightarrow> ld32 (st16 M (r + 48) w) (r + q) = ld32 M (r + q)"
  by (auto simp: ld32_def st16_def add.assoc)

lemma does_get_ip_byte:
  assumes F: "frame_in A r" and a: "FP_TO_LINEAR (ld32 M (r + 52)) (ld32 M (r + 48)) \<in> A"
  defines "M1 \<equiv> st16 M (r + 48) (ucast (ld32 M (r + 48)) + 1)"
  shows "does A (v86_get_ip_byte r) M (M1 (FP_TO_LINEAR (ld32 M (r + 52)) (ld32 M (r + 48)))) M1"
proof -
  have e: "does A (b_st16 (r + 48) (ucast (ld32 M (r + 48)) + 1)) M () M1"
    unfolding M1_def by (rule does_b_st16) (use frame_field(2) [OF F] in \<open>simp_all add: add.assoc\<close>)
  show ?thesis
    unfolding v86_get_ip_byte_def
    by (rule does_sbind [OF frame_access(1) [OF F]], simp, rule does_sbind [OF frame_access(1) [OF F]], simp,
        rule does_sthen [OF e does_vld8 [OF a]])
qed

text \<open>Pushing onto and popping from the part of the stack that starts at \<open>B\<close>.\<close>

lemma stack_addr:
  assumes "8 \<le> unat (sp :: u16)" "B = FP_TO_LINEAR ss (ucast (sp - 8))"
  shows "FP_TO_LINEAR ss (ucast (sp - 2)) = B + 6" "FP_TO_LINEAR ss (ucast (sp - 4)) = B + 4"
proof -
  have b: "unat (sp - 8) + 8 < 65536 + 8" using unsigned_less [of "sp - 8", where 'a = nat] by simp
  have u: "unat (sp - 8) = unat sp - 8" using assms(1) by (simp add: unat_sub word_le_nat_alt)
  have "unat sp < 65536" using unsigned_less [of sp, where 'a = nat] by simp
  then have "unat (sp - 8) + 6 < 65536" "unat (sp - 8) + 4 < 65536" using u assms(1) by simp_all
  from FP_TO_LINEAR_add [OF this(1), of ss] FP_TO_LINEAR_add [OF this(2), of ss] assms(2)
  show "FP_TO_LINEAR ss (ucast (sp - 2)) = B + 6" "FP_TO_LINEAR ss (ucast (sp - 4)) = B + 4" by simp_all
qed

lemma stack_member:
  assumes "stack_in A r B"
  shows "B \<in> A" "B + 1 \<in> A" "B + 2 \<in> A" "B + 3 \<in> A" "B + 4 \<in> A" "B + 4 + 1 \<in> A" "B + 6 \<in> A" "B + 6 + 1 \<in> A"
proof -
  have i: "B + i \<in> A" if "i < 8" for i using assms that by (simp add: stack_in_def)
  show "B \<in> A" "B + 1 \<in> A" "B + 2 \<in> A" "B + 3 \<in> A" "B + 4 \<in> A" "B + 4 + 1 \<in> A" "B + 6 \<in> A" "B + 6 + 1 \<in> A"
    using i [of 0] i [of 1] i [of 2] i [of 3] i [of 4] i [of 5] i [of 6] i [of 7] by (simp_all add: add.assoc)
qed

lemma does_push_at:
  assumes F: "frame_in A r" and S: "stack_in A r B" and sp: "8 \<le> unat (sp :: u16)" "B = FP_TO_LINEAR (ld32 M (r + 64)) (ucast (sp - 8))"
  shows "ucast (ld32 M (r + 60)) = sp \<Longrightarrow> does A (v86_push r v False) M () (st32 (st16 M (B + 6) (ucast v)) (r + 60) (ucast (sp - 2)))"
    and "ucast (ld32 M (r + 60)) = sp - 2 \<Longrightarrow> does A (v86_push r v False) M () (st32 (st16 M (B + 4) (ucast v)) (r + 60) (ucast (sp - 4)))"
    and "ucast (ld32 M (r + 60)) = sp - 4 \<Longrightarrow> does A (v86_push r v True) M () (st32 (st32 M B v) (r + 60) (ucast (sp - 8)))"
  using does_push [OF F, of "sp - 2" M False "B + 6" v] does_push [OF F, of "sp - 4" M False "B + 4" v]
    does_push [OF F, of "sp - 8" M True B v] stack_addr [OF sp] stack_member [OF S] sp(2) by simp_all

lemma does_pop_at:
  assumes F: "frame_in A r" and S: "stack_in A r B" and sp: "8 \<le> unat (sp :: u16)" "B = FP_TO_LINEAR (ld32 M (r + 64)) (ucast (sp - 8))"
  shows "ucast (ld32 M (r + 60)) = sp - 8 \<Longrightarrow> does A (v86_pop r True) M (ld32 M B) (st32 M (r + 60) (ucast (sp - 4)))"
    and "ucast (ld32 M (r + 60)) = sp - 4 \<Longrightarrow> does A (v86_pop r False) M (ucast (ld16 M (B + 4))) (st32 M (r + 60) (ucast (sp - 2)))"
    and "ucast (ld32 M (r + 60)) = sp - 2 \<Longrightarrow> does A (v86_pop r False) M (ucast (ld16 M (B + 6))) (st32 M (r + 60) (ucast sp))"
  using does_pop [OF F, of "sp - 8" M B True] does_pop [OF F, of "sp - 4" M "B + 4" False]
    does_pop [OF F, of "sp - 2" M "B + 6" False] stack_addr [OF sp] stack_member [OF S] sp(2) by simp_all

text \<open>The memory after the emulation of \<open>INT n\<close>, from the memory \<open>M\<close> after the fetch of \<open>n\<close>.\<close>

definition int_mem :: "u32 \<Rightarrow> u32 \<Rightarrow> u16 \<Rightarrow> u32 \<Rightarrow> u8 \<Rightarrow> mem \<Rightarrow> mem" where
  "int_mem r B sp fl n M =
     (let M1 = st32 (st16 M (B + 6) (ucast fl)) (r + 60) (ucast (sp - 2));
          M2 = st32 (st16 M1 (B + 4) (ucast (ld32 M (r + 52)))) (r + 60) (ucast (sp - 4));
          M3 = st32 (st32 M2 B (ld32 M (r + 48))) (r + 60) (ucast (sp - 8));
          M4 = st32 M3 (r + 52) (ucast (ld16 M3 (4 * ucast n + 2)))
      in st32 M4 (r + 48) (ucast (ld16 M4 (4 * ucast n))))"

lemma kdoes_int:
  assumes F: "frame_in A r" and S: "stack_in A r B" and sp: "8 \<le> unat (sp :: u16)" "ucast (ld32 M (r + 60)) = sp"
    "B = FP_TO_LINEAR (ld32 M (r + 64)) (ucast (sp - 8))"
    and a: "FP_TO_LINEAR (ld32 M (r + 52)) (ld32 M (r + 48)) \<in> A" and t: "T p = Some t"
  defines "M0 \<equiv> st16 M (r + 48) (ucast (ld32 M (r + 48)) + 1)"
  defines "n \<equiv> M0 (FP_TO_LINEAR (ld32 M (r + 52)) (ld32 M (r + 48)))"
  assumes n: "n \<noteq> 3" "\<forall>i < 4. 4 * ucast n + i \<in> A"
  shows "kdoes A (v86_int ev vx r p) M T () (int_mem r B sp (v86_flags (ld32 M (r + 56)) (v86_if t)) n M0) T"
proof -
  let ?fl = "v86_flags (ld32 M (r + 56)) (v86_if t)"
  define M1 where "M1 = st32 (st16 M0 (B + 6) (ucast ?fl)) (r + 60) (ucast (sp - 2))"
  define M2 where "M2 = st32 (st16 M1 (B + 4) (ucast (ld32 M0 (r + 52)))) (r + 60) (ucast (sp - 4))"
  define M3 where "M3 = st32 (st32 M2 B (ld32 M0 (r + 48))) (r + 60) (ucast (sp - 8))"
  define M4 where "M4 = st32 M3 (r + 52) (ucast (ld16 M3 (4 * ucast n + 2)))"
  note loads = frame_loads [OF F] sep_loads [OF S]
  have f0: "ld32 M0 (r + 52) = ld32 M (r + 52)" "ld32 M0 (r + 56) = ld32 M (r + 56)" "ld32 M0 (r + 60) = ld32 M (r + 60)"
    "ld32 M0 (r + 64) = ld32 M (r + 64)" by (simp_all add: M0_def ld32_st16_eip)
  have f1: "ld32 M1 (r + 52) = ld32 M (r + 52)" "ld32 M1 (r + 60) = ucast (sp - 2)" "ld32 M1 (r + 64) = ld32 M (r + 64)"
    "ld32 M1 (r + 48) = ld32 M0 (r + 48)"
    by (simp_all add: M1_def loads f0)
  have f2: "ld32 M2 (r + 48) = ld32 M0 (r + 48)" "ld32 M2 (r + 60) = ucast (sp - 4)" "ld32 M2 (r + 64) = ld32 M (r + 64)"
    by (simp_all add: M2_def loads f1)
  have d0: "does A (v86_get_ip_byte r) M n M0" unfolding n_def M0_def by (rule does_get_ip_byte [OF F a])
  have d1: "does A (v86_push r ?fl False) M0 () M1" unfolding M1_def by (rule does_push_at(1) [OF F S sp(1)]) (simp_all add: f0 sp(2,3))
  have d2: "does A (v86_push r (ld32 M1 (r + 52)) False) M1 () M2"
    unfolding M2_def f0(1) f1(1) by (rule does_push_at(2) [OF F S sp(1)]) (simp_all add: f1 sp(3))
  have d3: "does A (v86_push r (ld32 M2 (r + 48)) True) M2 () M3"
    unfolding M3_def f2(1) by (rule does_push_at(3) [OF F S sp(1)]) (simp_all add: f2 sp(3))
  have i: "4 * ucast n \<in> A" "4 * ucast n + 1 \<in> A" "4 * ucast n + 2 \<in> A" "4 * ucast n + 2 + 1 \<in> A"
    using n(2) [rule_format, of 0] n(2) [rule_format, of 1] n(2) [rule_format, of 2] n(2) [rule_format, of 3]
    by (simp_all add: add.assoc)
  have pf: "kdoes A (v86_pushf r p False) M0 T () M1 T"
    unfolding v86_pushf_def
    by (rule kdoes_sbind [OF kdoes_mach [OF frame_access(1) [OF F]]], simp, rule kdoes_sbind [OF kdoes_get_thread [of T p t]], rule t,
        rule kdoes_mach) (use d1 in \<open>simp add: f0\<close>)
  have "kdoes A (v86_int ev vx r p) M T () (st32 M4 (r + 48) (ucast (ld16 M4 (4 * ucast n)))) T"
    unfolding v86_int_def
    by (rule kdoes_sbind [OF kdoes_mach [OF d0]], unfold if_not_P [OF n(1)], rule kdoes_sthen [OF pf],
        rule kdoes_sbind [OF kdoes_mach [OF frame_access(1) [OF F]]], simp, rule kdoes_sthen [OF kdoes_mach [OF d2]],
        rule kdoes_sbind [OF kdoes_mach [OF frame_access(1) [OF F]]], simp, rule kdoes_sthen [OF kdoes_mach [OF d3]],
        rule kdoes_sbind [OF kdoes_mach [OF does_b_ld16 [OF i(3,4)]]], rule kdoes_sthen [OF kdoes_mach [OF frame_access(2) [OF F]]], simp,
        unfold M4_def [symmetric], rule kdoes_sbind [OF kdoes_mach [OF does_b_ld16 [OF i(1,2)]]], rule kdoes_mach [OF frame_access(2) [OF F]], simp)
  then show ?thesis unfolding int_mem_def Let_def M4_def M3_def M2_def M1_def f0 by (simp only: f0)
qed

lemma int_mem_loads:
  assumes F: "frame_in A r" and S: "stack_in A r B"
  shows "ld32 (int_mem r B sp fl n M) B = ld32 M (r + 48)" "ld16 (int_mem r B sp fl n M) (B + 4) = ucast (ld32 M (r + 52))" "ld16 (int_mem r B sp fl n M) (B + 6) = ucast fl"
    "ld32 (int_mem r B sp fl n M) (r + 60) = ucast (sp - 8)" "ld32 (int_mem r B sp fl n M) (r + 64) = ld32 M (r + 64)"
  unfolding int_mem_def Let_def
  by (simp_all add: frame_loads [OF F] sep_loads [OF S] stack_loads)

lemma kdoes_iret:
  assumes F: "frame_in A r" and S: "stack_in A r B" and sp: "8 \<le> unat (sp :: u16)" "B = FP_TO_LINEAR (ld32 M (r + 64)) (ucast (sp - 8))"
    and M: "ld32 M (r + 60) = ucast (sp - 8)" and t: "T p = Some t"
  shows "\<exists>M'. kdoes A (v86_iret r p) M T () M' (T(p \<mapsto> t\<lparr>v86_if := (ucast (ld16 M (B + 6)) OR 0x20002) AND (0x200 :: u32) \<noteq> 0\<rparr>)) \<and>
    ld32 M' (r + 48) = ld32 M B \<and> ld32 M' (r + 52) = ucast (ld16 M (B + 4)) \<and>
    ld32 M' (r + 56) = ucast (ld16 M (B + 6)) OR 0x20002 \<and> ld32 M' (r + 60) = ucast sp \<and> ld32 M' (r + 64) = ld32 M (r + 64)"
proof -
  let ?c = "ucast (ld16 M (B + 4)) :: u32" and ?f = "ucast (ld16 M (B + 6)) OR 0x20002 :: u32"
  define M1 where "M1 = st32 M (r + 60) (ucast (sp - 4))"
  define M2 where "M2 = st32 M1 (r + 48) (ld32 M B)"
  define M3 where "M3 = st32 M2 (r + 60) (ucast (sp - 2))"
  define M4 where "M4 = st32 M3 (r + 52) ?c"
  define M5 where "M5 = st32 M4 (r + 60) (ucast sp)"
  define M6 where "M6 = st32 M5 (r + 56) ?f"
  note loads = frame_loads [OF F] sep_loads [OF S]
  have f2: "ld32 M2 (r + 60) = ucast (sp - 4)" "ld32 M2 (r + 64) = ld32 M (r + 64)" "ld16 M2 (B + 4) = ld16 M (B + 4)"
    by (simp_all add: M2_def M1_def loads)
  have f4: "ld32 M4 (r + 60) = ucast (sp - 2)" "ld32 M4 (r + 64) = ld32 M (r + 64)" "ld16 M4 (B + 6) = ld16 M (B + 6)"
    by (simp_all add: M4_def M3_def M2_def M1_def loads)
  have d1: "does A (v86_pop r True) M (ld32 M B) M1" unfolding M1_def by (rule does_pop_at(1) [OF F S sp(1)]) (simp_all add: M sp(2))
  have d2: "does A (v86_pop r False) M2 ?c M3"
    unfolding M3_def f2(3) [symmetric] by (rule does_pop_at(2) [OF F S sp(1)]) (simp_all add: f2 sp(2))
  have d3: "does A (v86_pop r False) M4 (ucast (ld16 M (B + 6))) M5"
    unfolding M5_def f4(3) [symmetric] by (rule does_pop_at(3) [OF F S sp(1)]) (simp_all add: f4 sp(2))
  have w: "does A (vst (r + 48) (ld32 M B)) M1 () M2" "does A (vst (r + 52) ?c) M3 () M4" "does A (vst (r + 56) ?f) M5 () M6"
    unfolding M2_def M4_def M6_def by (rule frame_access(2) [OF F], simp)+
  have "kdoes A (v86_iret r p) M T () M6 (T(p \<mapsto> t\<lparr>v86_if := ?f AND 0x200 \<noteq> 0\<rparr>))"
    unfolding v86_iret_def
    by (rule kdoes_sbind [OF kdoes_mach [OF d1]], rule kdoes_sthen [OF kdoes_mach [OF w(1)]], rule kdoes_sbind [OF kdoes_mach [OF d2]],
        rule kdoes_sthen [OF kdoes_mach [OF w(2)]], rule kdoes_sbind [OF kdoes_mach [OF d3]], rule kdoes_sthen [OF kdoes_mach [OF w(3)]],
        rule kdoes_set_v86_if, rule t)
  then show ?thesis
    by (intro exI [of _ M6]) (simp add: M6_def M5_def M4_def M3_def M2_def M1_def loads)
qed

lemma v86_flags_if: "((ucast (ucast (v86_flags e b) :: u16) OR 0x20002) AND (0x200 :: u32) \<noteq> 0) = b"
proof -
  have m: "(0x200 :: u32) = push_bit 9 1" by simp
  have c: "((w OR 0x20002) AND 0x200 \<noteq> 0) = bit w 9" for w :: u32
  proof -
    have "(0x200 :: u32) = 2 ^ 9" by simp
    then have "w AND 0x200 \<noteq> 0 \<longleftrightarrow> bit w 9" by (simp only: and_exp_eq_0_iff_not_bit not_not)
    moreover have "(w OR 0x20002) AND 0x200 = w AND 0x200"
      unfolding bit.conj_disj_distrib2 by simp
    ultimately show ?thesis by simp
  qed
  have "bit (v86_flags e b) 9 = b"
    unfolding v86_flags_def Let_def m by (cases b) (simp_all add: bit_simps)
  then show ?thesis unfolding c by (simp add: bit_simps)
qed

text \<open>C15: the emulated \<open>INT n\<close> and the emulated \<open>IRET\<close> of its handler are inverse: the interrupted code
  goes on behind the instruction, with its segment, its flags and its virtual interrupt flag, and with
  the stack pointer it had. The frame and the stack lie in a mapped region and do not overlap, and the
  stack has room for the eight bytes the emulation pushes.\<close>

theorem v86_int_iret:
  fixes A :: "u32 set" and s :: kstate and r :: u32
  defines "M \<equiv> vm A (mach s)"
  defines "M0 \<equiv> st16 M (r + 48) (ucast (ld32 M (r + 48)) + 1)"
  defines "n \<equiv> M0 (FP_TO_LINEAR (ld32 M (r + 52)) (ld32 M (r + 48)))"
  defines "sp \<equiv> (ucast (ld32 M (r + 60)) :: u16)"
  assumes "region A (mach s)" and F: "frame_in A r"
    and S: "stack_in A r (FP_TO_LINEAR (ld32 M (r + 64)) (ucast (sp - 8)))" and "8 \<le> unat sp"
    and "FP_TO_LINEAR (ld32 M (r + 52)) (ld32 M (r + 48)) \<in> A" and "n \<noteq> 3" and "\<forall>i < 4. 4 * ucast n + i \<in> A"
    and "threads s p = Some t"
  shows "\<exists>s1 s2 M2. v86_int ev vx r p s = Inr ((), s1) \<and> v86_iret r p s1 = Inr ((), s2) \<and> M2 = vm A (mach s2) \<and>
    threads s2 = threads s \<and>
    ld32 M2 (r + 48) = (ld32 M (r + 48) AND NOT 0xFFFF) OR ucast (ucast (ld32 M (r + 48)) + 1 :: u16) \<and>
    ld32 M2 (r + 52) = ucast (ucast (ld32 M (r + 52)) :: u16) \<and>
    ld32 M2 (r + 56) = ucast (ucast (v86_flags (ld32 M (r + 56)) (v86_if t)) :: u16) OR 0x20002 \<and>
    ld32 M2 (r + 60) = ucast sp \<and> ld32 M2 (r + 64) = ld32 M (r + 64)"
proof -
  let ?B = "FP_TO_LINEAR (ld32 M (r + 64)) (ucast (sp - 8))" and ?fl = "v86_flags (ld32 M (r + 56)) (v86_if t)"
  let ?M1 = "int_mem r ?B sp ?fl n M0"
  have i: "kdoes A (v86_int ev vx r p) M (threads s) () ?M1 (threads s)"
    unfolding M0_def n_def by (rule kdoes_int [OF F S]) (use assms in \<open>simp_all add: M0_def n_def sp_def\<close>)
  have f0: "ld32 M0 (r + 52) = ld32 M (r + 52)" "ld32 M0 (r + 64) = ld32 M (r + 64)"
    "ld32 M0 (r + 48) = (ld32 M (r + 48) AND NOT 0xFFFF) OR ucast (ucast (ld32 M (r + 48)) + 1 :: u16)"
    by (simp_all only: M0_def ld32_st16_low) (simp_all add: ld32_st16_eip)
  note ml = int_mem_loads [OF F S, where sp = sp and fl = ?fl and n = n and M = M0, unfolded f0]
  obtain M2 where M2: "kdoes A (v86_iret r p) ?M1 (threads s) () M2 ((threads s)(p \<mapsto> t\<lparr>v86_if := v86_if t\<rparr>))"
    "ld32 M2 (r + 48) = ld32 ?M1 ?B" "ld32 M2 (r + 52) = ucast (ld16 ?M1 (?B + 4))"
    "ld32 M2 (r + 56) = ucast (ld16 ?M1 (?B + 6)) OR 0x20002" "ld32 M2 (r + 60) = ucast sp" "ld32 M2 (r + 64) = ld32 M (r + 64)"
    using kdoes_iret [OF F S assms(8), of ?M1 "threads s" p t] assms(12) unfolding ml v86_flags_if by auto
  have e: "(threads s)(p \<mapsto> t\<lparr>v86_if := v86_if t\<rparr>) = threads s" using assms(12) by auto
  obtain m1 where m1: "v86_int ev vx r p s = Inr ((), s\<lparr>mach := m1, threads := threads s\<rparr>)" "region A m1" "vm A m1 = ?M1"
    using i assms(5) M_def unfolding kdoes_def by blast
  let ?s1 = "s\<lparr>mach := m1, threads := threads s\<rparr>"
  obtain m2 where m2: "v86_iret r p ?s1 = Inr ((), ?s1\<lparr>mach := m2, threads := threads s\<rparr>)" "vm A m2 = M2"
    using M2(1) [unfolded e kdoes_def, rule_format, of ?s1] m1(2,3) by auto
  show ?thesis
    using m1(1) m2 M2(2-) unfolding ml
    by (intro exI [of _ ?s1] exI [of _ "?s1\<lparr>mach := m2, threads := threads s\<rparr>"] exI [of _ M2]) simp
qed

text \<open>A machine without paging: a frame at \<open>0x9000\<close>, code at \<open>1000:0010\<close> and a stack below \<open>0000:8000\<close>.\<close>

definition v86_demo_mem :: mem where
  "v86_demo_mem = (st32 (st32 (st32 (st32 (\<lambda>_. 0) 0x9030 0x10) 0x9034 0x1000) 0x9038 0x20202) 0x903C 0x8000)(0x10010 := 0x10)"

definition v86_demo :: kstate where
  "v86_demo = demo_kernel\<lparr>mach := demo_machine\<lparr>pg := False, phys := v86_demo_mem\<rparr>\<rparr>"

lemma flat_region: "\<not> pg s \<Longrightarrow> region UNIV s" "\<not> pg s \<Longrightarrow> vm UNIV s = phys s"
  by (simp_all add: region_def mmu_def vm_def fun_eq_iff inj_on_def)

lemma v86_demo_stack: "stack_in UNIV 0x9000 0x7FF8"
  unfolding stack_in_def
proof (intro conjI allI impI)
  fix i j :: u32 assume "i < 8" "j < 68"
  then have "unat i < 8" "unat j < 68" by (simp_all add: word_less_nat_alt)
  then have b: "unat i < 8" "unat (0x7FF8 + i) = 0x7FF8 + unat i" "unat (0x9000 + j) = 0x9000 + unat j"
    using unat_add_small [of "0x7FF8" i] unat_add_small [of "0x9000" j] by simp_all
  show "0x7FF8 + i \<noteq> 0x9000 + j"
  proof
    assume "0x7FF8 + i = 0x9000 + j"
    then have "0x7FF8 + unat i = 0x9000 + unat j" using b(2,3) by simp
    with b(1) show False by simp
  qed
qed simp

lemma v86_demo_loads:
  "ld32 v86_demo_mem 0x9030 = 0x10" "ld32 v86_demo_mem 0x9034 = 0x1000" "ld32 v86_demo_mem 0x9038 = 0x20202"
  "ld32 v86_demo_mem 0x903C = 0x8000" "ld32 v86_demo_mem 0x9040 = 0"
  by (simp_all add: v86_demo_mem_def ld32_def st32_def)

theorem v86_int_iret_witness:
  "\<exists>s1 s2. v86_int 0 0 0x9000 0x1000 v86_demo = Inr ((), s1) \<and> v86_iret 0x9000 0x1000 s1 = Inr ((), s2) \<and>
     ld32 (vm UNIV (mach s2)) 0x9030 = 0x11 \<and> ld32 (vm UNIV (mach s2)) 0x903C = 0x8000"
proof -
  have pg: "\<not> pg (mach v86_demo)" by (simp add: v86_demo_def)
  have M: "vm UNIV (mach v86_demo) = v86_demo_mem" by (simp add: flat_region(2) [OF pg]) (simp add: v86_demo_def)
  have n: "st16 v86_demo_mem 0x9030 0x11 0x10010 = 0x10" by (simp add: st16_def v86_demo_mem_def st32_def)
  have c: "(ucast (0x10 :: u32) :: u16) + 1 = 0x11" "(ucast (0x8000 :: u32) :: u16) = 0x8000"
    "FP_TO_LINEAR 0 0x7FF8 = 0x7FF8" "FP_TO_LINEAR 0x1000 0x10 = 0x10010"
    by (simp_all add: FP_TO_LINEAR_def)
  have t: "threads v86_demo 0x1000 = Some (demo_thread THREAD_RUNNING)" by (simp add: v86_demo_def)
  have f: "frame_in UNIV 0x9000" by (simp add: frame_in_def)
  show ?thesis
    using v86_int_iret [OF flat_region(1) [OF pg] f, where p = "0x1000" and t = "demo_thread THREAD_RUNNING" and ev = 0 and vx = 0]
      v86_demo_stack t unfolding M
    by (simp add: v86_demo_loads c n) blast
qed

end
