(* ===== verification/Isr.thy ===== *)
theory Isr
  imports V86
begin

unbundle bit_operations_syntax

text \<open>
  Interrupt dispatch: \<^verbatim>\<open>src/int/isr.c\<close>, the page fault handler of \<^verbatim>\<open>src/mm/vmm.c\<close>, the timer
  handler of \<^verbatim>\<open>src/drivers/pit.c\<close> and the system calls of \<^verbatim>\<open>src/proc/syscalls.c\<close>. \<open>isr_handler\<close>
  gets the register frame the stub pushed and returns the frame the stub restores, which is how
  the kernel switches threads. The text a handler prints is not modelled, so a fault ends in its
  \<open>panic\<close> directly.
\<close>

section \<open>Handlers\<close>

text \<open>\<open>\<^verbatim>\<open>vmm_page_fault\<close>\<close>: the faulting thread is marked terminated and stays the core's current thread.\<close>

definition vmm_page_fault :: "nat \<Rightarrow> (kstate, unit) op" where
  "vmm_page_fault c =
     sbind (get_core_locals c) (\<lambda>l.
     sthen (swhen (current_thread l \<noteq> 0) (mod_thread (current_thread l) (t_state_update (\<lambda>_. THREAD_TERMINATED))))
           (mod_core c (need_resched_update (\<lambda>_. True))))"

definition timer_handler :: "nat \<Rightarrow> (kstate, unit) op" where
  "timer_handler c =
     sthen (smod (global_ticks_update (\<lambda>n. n + 1)))
    (sbind (sget global_ticks) (\<lambda>n. swhen (n mod 8 = 0) (sched_all c)))"

definition pit_init :: "(kstate, unit) op" where
  "pit_init = sthen (mach_op (register_int_handler 32 Timer_handler)) (io_op pit_set_freq)"

definition stopwatch_start :: "(kstate, u32) op" where
  "stopwatch_start = sget global_ticks"

definition stopwatch_stop :: "u32 \<Rightarrow> (kstate, u32) op" where
  "stopwatch_stop begun = sget (\<lambda>s. global_ticks s - begun)"

text \<open>
  The functions a system call reaches get \<open>ebx\<close> as their first argument; none of those bound to a
  number uses more. They return nothing, so what is stored as their result is whatever the
  accumulator holds then: the argument \<open>ret\<close>. The frame it is stored to is the one the arguments
  were read from.
\<close>

definition do_syscall :: "nat \<Rightarrow> syscall \<Rightarrow> u32 \<Rightarrow> (kstate, unit) op" where
  "do_syscall c call arg =
     (case call of
        Sched_thread_exit \<Rightarrow> sched_thread_exit c arg
      | Sched_thread_sleep \<Rightarrow> sched_thread_sleep c arg
      | Sched_thread_yield \<Rightarrow> sched_thread_yield c
      | Test_handler \<Rightarrow> sret ())"

definition syscalls_handler :: "u32 \<Rightarrow> nat \<Rightarrow> (kstate, unit) op" where
  "syscalls_handler ret c =
     sbind (get_core_locals c) (\<lambda>l.
     sbind (mach_op (vld (r_eax (irq_regs l)))) (\<lambda>eax.
     if eax \<ge> 256 then sfail (OutOfBounds (unat eax))
     else sbind (sget syscalls) (\<lambda>calls.
          case calls eax of
            None \<Rightarrow> sret ()
          | Some call \<Rightarrow>
              sbind (mach_op (vld (r_ebx (irq_regs l)))) (\<lambda>arg.
              sthen (do_syscall c call arg)
                    (mach_op (vst (r_eax (irq_regs l)) ret))))))"

definition syscalls_init :: "(kstate, unit) op" where
  "syscalls_init = mach_op (register_int_handler 0x80 Syscalls_handler)"

section \<open>Dispatch\<close>

record isr_symbols =
  sym_exit_v86 :: u32
  sym_v86_exit :: u32
  syscall_ret :: u32

definition run_handler :: "isr_symbols \<Rightarrow> nat \<Rightarrow> int_handler \<Rightarrow> (kstate, unit) op" where
  "run_handler G c h =
     (case h of
        Vmm_page_fault \<Rightarrow> vmm_page_fault c
      | Sched_runner \<Rightarrow> sched_runner c
      | Core_panic \<Rightarrow> core_panic c
      | Syscalls_handler \<Rightarrow> syscalls_handler (syscall_ret G) c
      | V86_monitor \<Rightarrow> v86_monitor (sym_exit_v86 G) (sym_v86_exit G) c
      | Timer_handler \<Rightarrow> timer_handler c)"

definition get_interrupt_name :: "u32 \<Rightarrow> string" where
  "get_interrupt_name i =
     (if i = 0 then ''Division by zero exception''
      else if i = 1 then ''Debug exception''
      else if i = 2 then ''Non maskable interrupt''
      else if i = 3 then ''Breakpoint exception''
      else if i = 4 then ''Into detected overflow''
      else if i = 5 then ''Out of bounds exception''
      else if i = 6 then ''Invalid opcode exception''
      else if i = 7 then ''No coprocessor exception''
      else if i = 8 then ''Double fault''
      else if i = 9 then ''Coprocessor segment overrun''
      else if i = 10 then ''Bad TSS''
      else if i = 11 then ''Segment not present''
      else if i = 12 then ''Stack fault''
      else if i = 13 then ''General protection fault''
      else if i = 14 then ''Page fault''
      else if i = 15 then ''Unknown interrupt exception''
      else if i = 16 then ''Coprocessor fault''
      else if i = 17 then ''Alignment check exception''
      else if i = 18 then ''Machine check exception''
      else if i = 32 then ''System timer interrupt''
      else if i = 33 then ''Keyboard interrupt''
      else if i = 128 then ''System call''
      else ''Unknown exception'')"

text \<open>The bookkeeping at the start and at the end of a handler.\<close>

definition isr_enter :: "nat \<Rightarrow> u32 \<Rightarrow> (kstate, unit) op" where
  "isr_enter c r =
     mod_core c (\<lambda>l. if in_irq l then l\<lparr>nested_irq := True\<rparr> else l\<lparr>in_irq := True, irq_regs := r\<rparr>)"

definition isr_leave :: "nat \<Rightarrow> u32 \<Rightarrow> (kstate, u32) op" where
  "isr_leave c r =
     sbind (get_core_locals c) (\<lambda>l.
     if nested_irq l then sthen (mod_core c (nested_irq_update (\<lambda>_. False))) (sret r)
     else sthen (mod_core c (in_irq_update (\<lambda>_. False))) (sret (irq_regs l)))"

definition apic_EOI :: "nat \<Rightarrow> (kstate, unit) op" where
  "apic_EOI c = write_lapic c 0xB0 0"

definition isr_handler :: "isr_symbols \<Rightarrow> nat \<Rightarrow> u32 \<Rightarrow> (kstate, u32) op" where
  "isr_handler G c r =
     sthen (isr_enter c r)
    (sbind (mach_op (vld (r_int_num r))) (\<lambda>n.
     sbind (mach_op (vld (r_eflags r))) (\<lambda>eflags.
     sthen (if n = 0x0D \<and> \<not> bit eflags 17 \<or> n = 0x06 then sfail (Panic (get_interrupt_name n)) else sret ())
    (sthen (if n \<ge> 256 then sfail (OutOfBounds (unat n))
            else sbind (sget (\<lambda>s. handlers (mach s) (ucast n))) (\<lambda>h.
              case h of
                Some f \<Rightarrow> run_handler G c f
              | None \<Rightarrow> if n < 32 then sfail (Panic (get_interrupt_name n)) else sret ()))
    (sbind (get_core_locals c) (\<lambda>l.
     sthen (swhen (need_resched l) (sched_runner c))
    (sbind (isr_leave c r) (\<lambda>r'.
     sbind (mach_op (vld (r_int_num r))) (\<lambda>n'.
     sthen (io_op (pic_sendEOI n'))
    (sthen (apic_EOI c)
           (sret r')))))))))))"

section \<open>What a run of the scheduler leaves alone\<close>

definition sched_frame :: "kstate \<Rightarrow> kstate \<Rightarrow> bool" where
  "sched_frame s t \<longleftrightarrow> mach t = mach s \<and> dev t = dev s \<and> lapic_writes t = lapic_writes s \<and> lapic_ids t = lapic_ids s \<and>
     madt_cpu t = madt_cpu s \<and> procs t = procs s \<and> proc_list t = proc_list s \<and> thread_list t = thread_list s \<and>
     global_ticks t = global_ticks s \<and> syscalls t = syscalls s"

interpretation sched_frame: frame_rel sched_frame
  by unfold_locales (auto simp: sched_frame_def)

lemma sched_frame_ops:
  "sched_frame.keeps (get_thread p)" "sched_frame.keeps (mod_thread p f)" "sched_frame.keeps (get_core_locals c)"
  "sched_frame.keeps (mod_core c g)" "sched_frame.keeps sched_unlock" "sched_frame.keeps (smod (sched_dat_update h))"
  by (auto simp: sched_frame.keeps_def sched_frame_def get_thread_def mod_thread_def get_core_locals_def mod_core_def
      sched_unlock_def split: option.splits)

lemmas sched_frame_intros = sched_frame.keeps_intros sched_frame_ops

lemma sched_frame_fold: "(\<And>x a. sched_frame.keeps (f x a)) \<Longrightarrow> sched_frame.keeps (sfold f xs a)"
  by (induction xs arbitrary: a) (simp_all add: sched_frame.keeps_sret sched_frame.keeps_sbind)

lemma sched_frame_switch: "sched_frame.keeps (sched_switch c p)"
  unfolding sched_switch_def save_thread_def load_thread_def enter_idle_def set_kernel_stack_def
  by (rule sched_frame.keeps_sbind [OF sched_frame_ops(3)], rename_tac l, case_tac "c_state l")
    (simp_all only: core_state.case, (intro sched_frame_intros)+)

lemma sched_runner_frame:
  assumes "sched_runner c s = Inr (x, t)"
  shows "sched_frame s t"
proof -
  have "sched_frame.keeps (sched_runner c)"
    unfolding sched_runner_def sched_def update_sleeping_threads_def wake_thread_def pick_thread_def pick_step_def Let_def
    by (intro sched_frame_intros sched_frame_fold sched_frame_switch)
  then show ?thesis using assms by (rule sched_frame.keepsD)
qed

text \<open>Changes of a core's record that the invariant of the scheduler does not see.\<close>

lemma sched_inv_core:
  assumes I: "sched_inv s" and l: "cores s c = Some l"
    and l': "c_state l' = c_state l" "current_thread l' = current_thread l" "idle_thread l' = idle_thread l"
    and s': "cores s' = (cores s)(c \<mapsto> l')" "threads s' = threads s" "thread_list s' = thread_list s"
  shows "sched_inv s'"
  unfolding sched_inv_def s'(2,3)
proof (intro conjI allI impI)
  have ok: "core_ok s' k = core_ok s k" for k by (simp only: core_ok_def s'(2))
  have ol: "core_ok s l' = core_ok s l" by (simp only: core_ok_def l')
  show "core_ok s' k" if "cores s' d = Some k" for d k
    using that sched_invD(4) [OF I] l ok ol s'(1) by (auto split: if_splits)
  show "d = e" if "cores s' d = Some k" "cores s' e = Some m" "c_state k = CORE_ONLINE" "c_state m = CORE_ONLINE"
    "current_thread k = current_thread m" for d e k m
    using that sched_invD(5) [OF I] l l' s'(1) by (auto split: if_splits)
  show "\<exists>d k. cores s' d = Some k \<and> current_thread k = q \<and> q \<noteq> 0"
    if r: "threads s q = Some u" "t_state u = THREAD_RUNNING" for q u
  proof -
    obtain d k where d: "cores s d = Some k" "current_thread k = q" "q \<noteq> 0" using sched_invD(6) [OF I r] by blast
    show ?thesis
    proof (cases "d = c")
      case True
      then show ?thesis using d l l' s'(1) by (intro exI [of _ c] exI [of _ l']) simp
    next
      case False
      then show ?thesis using d s'(1) by (intro exI [of _ d] exI [of _ k]) simp
    qed
  qed
qed (use sched_invD(1-3) [OF I] in simp_all)

section \<open>Nesting\<close>

text \<open>The bookkeeping of \<open>isr_handler\<close> is right for one nested interrupt: both handlers return the frame
  they were entered with. With two nested interrupts the second one to end returns the frame of the
  outermost and clears \<open>in_irq\<close> while the outermost still runs.\<close>

lemma isr_nesting:
  assumes "cores s c = Some l" "\<not> in_irq l" "\<not> nested_irq l"
  shows "\<exists>s' t'. sthen (isr_enter c r1) (sthen (isr_enter c r2) (sbind (isr_leave c r2) (\<lambda>a. sbind (isr_leave c r1) (\<lambda>b. sret (a, b))))) s =
      Inr ((r2, r1), s') \<and>
    sthen (isr_enter c r1) (sthen (isr_enter c r2) (sthen (isr_enter c r3)
      (sbind (isr_leave c r3) (\<lambda>a. sbind (isr_leave c r2) (\<lambda>b. sret (a, b)))))) s = Inr ((r3, r1), t') \<and>
    map_option in_irq (cores t' c) = Some False"
  using assms by (simp add: isr_enter_def isr_leave_def mod_core_def get_core_locals_def sbind_def sthen_def)

definition demo_quiet :: kstate where
  "demo_quiet = demo_kernel\<lparr>cores := (cores demo_kernel)(0 \<mapsto> (demo_core 0 CORE_ONLINE 0x1000)\<lparr>in_irq := False\<rparr>)\<rparr>"

section \<open>Interrupts that reschedule\<close>

text \<open>A run of the scheduler does not touch the interrupt flags of any core.\<close>

abbreviation irq_flags :: "core_locals \<Rightarrow> bool \<times> bool \<times> bool" where
  "irq_flags l \<equiv> (in_irq l, nested_irq l, need_resched l)"

definition irq_frame :: "kstate \<Rightarrow> kstate \<Rightarrow> bool" where
  "irq_frame s t \<longleftrightarrow> (\<forall>c. map_option irq_flags (cores t c) = map_option irq_flags (cores s c))"

interpretation irq_frame: frame_rel irq_frame
  by unfold_locales (auto simp: irq_frame_def)

lemma irq_frame_mod_core: "(\<And>l. irq_flags (g l) = irq_flags l) \<Longrightarrow> irq_frame.keeps (mod_core c g)"
  by (auto simp: irq_frame.keeps_def irq_frame_def mod_core_def split: option.splits)

lemma irq_frame_ops:
  "irq_frame.keeps (get_thread p)" "irq_frame.keeps (mod_thread p f)" "irq_frame.keeps (get_core_locals c)"
  "irq_frame.keeps sched_unlock" "irq_frame.keeps (smod (sched_dat_update h))"
  by (auto simp: irq_frame.keeps_def irq_frame_def get_thread_def mod_thread_def get_core_locals_def
      sched_unlock_def split: option.splits)

lemmas irq_frame_intros = irq_frame.keeps_intros irq_frame_ops

lemma irq_frame_fold: "(\<And>x a. irq_frame.keeps (f x a)) \<Longrightarrow> irq_frame.keeps (sfold f xs a)"
  by (induction xs arbitrary: a) (simp_all add: irq_frame.keeps_sret irq_frame.keeps_sbind)

lemma irq_frame_moves: "irq_frame.keeps (save_thread c p st)" "irq_frame.keeps (load_thread c p)" "irq_frame.keeps (enter_idle c)"
  unfolding save_thread_def load_thread_def enter_idle_def set_kernel_stack_def
  by (intro irq_frame_intros irq_frame_mod_core; simp)+

lemma irq_frame_switch: "irq_frame.keeps (sched_switch c p)"
  unfolding sched_switch_def
  by (rule irq_frame.keeps_sbind [OF irq_frame_ops(3)], rename_tac l, case_tac "c_state l")
    (simp_all only: core_state.case, (intro irq_frame_intros irq_frame_moves)+)

lemma sched_runner_irq:
  assumes "sched_runner c s = Inr (x, t)"
  shows "irq_frame s t"
proof -
  have "irq_frame.keeps (sched_runner c)"
    unfolding sched_runner_def sched_def update_sleeping_threads_def wake_thread_def pick_thread_def pick_step_def Let_def
    by (intro irq_frame_intros irq_frame_fold irq_frame_switch)
  then show ?thesis using assms by (rule irq_frame.keepsD)
qed

text \<open>The frame an interrupt pushes: its vector and its flags can be read.\<close>

definition int_frame :: "mstate \<Rightarrow> u32 \<Rightarrow> u32 \<Rightarrow> u32 \<Rightarrow> bool" where
  "int_frame m r n e \<longleftrightarrow> vld (r + 40) m = Inr (n, m) \<and> vld (r + 56) m = Inr (e, m)"

text \<open>C8: an interrupt on vector \<open>0xF0\<close> on a core that is not handling one switches context: the frame the
  stub restores is the saved frame of the ready thread that the scheduler chooses, the interrupted
  thread keeps the frame that was pushed and is stopped; if no thread is ready the interrupted
  frame is restored. The core is out of the interrupt again, the local APIC got one end of interrupt
  and the port-mapped controllers none.\<close>

theorem isr_reschedule:
  assumes I: "sched_inv s" and "\<not> sched_dat s" and l: "cores s c = Some l" "c_state l \<in> {CORE_ONLINE, CORE_IDLE}"
    and q: "\<not> in_irq l" "\<not> nested_irq l" "\<not> need_resched l"
    and r: "int_frame (mach s) r 0xF0 e" "handlers (mach s) 0xF0 = Some Sched_runner"
    and p: "pic_master_offset (dev s) = 0x20" "pic_slave_offset (dev s) = 0x28"
  defines "s1 \<equiv> s\<lparr>threads := woken c s\<rparr>"
  shows "\<exists>r' s' l'. isr_handler G c r s = Inr (r', s') \<and> sched_inv s' \<and> cores s' c = Some l' \<and>
    \<not> in_irq l' \<and> lapic_writes s' = lapic_writes s @ [(c, 0xB0, 0)] \<and> dev s' = dev s \<and>
    (if \<exists>q \<in> set (thread_list s). ready s1 (core_id l) q \<and> prio s1 q < 0xFFFFFFFF
     then chosen s1 (core_id l) (thread_list s) (current_thread l') \<and> r' = t_regs (the (threads s1 (current_thread l'))) \<and>
       (c_state l = CORE_ONLINE \<longrightarrow>
         t_regs (the (threads s' (current_thread l))) = r \<and> t_state (the (threads s' (current_thread l))) = THREAD_STOPPED)
     else r' = r)"
proof -
  let ?l0 = "l\<lparr>in_irq := True, irq_regs := r\<rparr>"
  let ?s0 = "s\<lparr>cores := (cores s)(c \<mapsto> ?l0)\<rparr>"
  have I0: "sched_inv ?s0" by (rule sched_inv_core [OF I l(1), where l' = ?l0]) simp_all
  have w: "woken c ?s0 = woken c s" using l(1) by (auto simp: woken_def fun_eq_iff)
  have r1: "ready (?s0\<lparr>threads := woken c ?s0\<rparr>) = ready s1" "prio (?s0\<lparr>threads := woken c ?s0\<rparr>) = prio s1"
    by (simp_all add: fun_eq_iff ready_def prio_def s1_def w)
  then have ch: "chosen (?s0\<lparr>threads := woken c ?s0\<rparr>) = chosen s1" by (simp add: fun_eq_iff chosen_def)
  have l0: "cores ?s0 c = Some ?l0" "c_state ?l0 \<in> {CORE_ONLINE, CORE_IDLE}" "\<not> sched_dat ?s0" using l(2) assms(2) by simp_all
  note eff = sched_runner_effect [OF I0 l0(3,1,2), unfolded r1 ch]
  let ?E = "\<exists>q \<in> set (thread_list s). ready s1 (core_id l) q \<and> prio s1 q < 0xFFFFFFFF"
  have "\<exists>s2 l2. sched_runner c ?s0 = Inr ((), s2) \<and> sched_inv s2 \<and> cores s2 = (cores ?s0)(c \<mapsto> l2) \<and>
    (if ?E then chosen s1 (core_id l) (thread_list s) (current_thread l2) \<and> c_state l2 = CORE_ONLINE \<and>
       irq_regs l2 = t_regs (the (threads s1 (current_thread l2))) \<and>
       (c_state l = CORE_ONLINE \<longrightarrow>
         t_regs (the (threads s2 (current_thread l))) = r \<and> t_state (the (threads s2 (current_thread l))) = THREAD_STOPPED)
     else l2 = ?l0 \<and> threads s2 = threads s1)"
    using eff by (simp add: s1_def w cong: if_cong)
  then obtain s2 l2 where run: "sched_runner c ?s0 = Inr ((), s2)" and s2: "sched_inv s2" "cores s2 = (cores ?s0)(c \<mapsto> l2)"
    and sw: "if ?E then chosen s1 (core_id l) (thread_list s) (current_thread l2) \<and> c_state l2 = CORE_ONLINE \<and>
       irq_regs l2 = t_regs (the (threads s1 (current_thread l2))) \<and>
       (c_state l = CORE_ONLINE \<longrightarrow>
         t_regs (the (threads s2 (current_thread l))) = r \<and> t_state (the (threads s2 (current_thread l))) = THREAD_STOPPED)
     else l2 = ?l0 \<and> threads s2 = threads s1" by blast
  have c2: "cores s2 c = Some l2" using s2(2) by simp
  have fl: "in_irq l2" "\<not> nested_irq l2" "\<not> need_resched l2"
    using sched_runner_irq [OF run] c2 q unfolding irq_frame_def by (auto dest: spec [of _ c])
  have fr: "mach s2 = mach s" "dev s2 = dev s" "lapic_writes s2 = lapic_writes s"
    using sched_runner_frame [OF run] by (simp_all add: sched_frame_def)
  let ?l3 = "l2\<lparr>in_irq := False\<rparr>"
  let ?s3 = "s2\<lparr>cores := (cores s2)(c \<mapsto> ?l3), lapic_writes := lapic_writes s2 @ [(c, 0xB0, 0)]\<rparr>"
  have m0: "mach ?s0 = mach s" by simp
  have eoi: "pic_sendEOI 0xF0 (dev s) = Inr ((), dev s)" using p by (simp add: pic_sendEOI_def sbind_def swhen_def)
  have leave: "isr_leave c r s2 = Inr (irq_regs l2, s2\<lparr>cores := (cores s2)(c \<mapsto> ?l3)\<rparr>)"
    using c2 fl by (simp add: isr_leave_def get_core_locals_def mod_core_def sbind_def sthen_def)
  have "isr_handler G c r s = Inr (irq_regs l2, ?s3)"
    unfolding isr_handler_def
    using l(1) q r run c2 fl leave eoi fr
    by (simp add: isr_enter_def mod_core_def int_frame_def mach_op_def sthen_apply sbind_def run_handler_def get_core_locals_def
        io_op_def apic_EOI_def write_lapic_def)
  moreover have "sched_inv ?s3" by (rule sched_inv_core [OF s2(1) c2, where l' = ?l3]) simp_all
  ultimately show ?thesis
    using sw fr by (intro exI [of _ "irq_regs l2"] exI [of _ ?s3] exI [of _ ?l3]) (auto split: if_splits)
qed

text \<open>A core interrupted with vector \<open>n\<close>, its frame at \<open>0x9000\<close>.\<close>

definition demo_int :: "u32 \<Rightarrow> int_handler \<Rightarrow> kstate" where
  "demo_int n h = demo_quiet\<lparr>mach := demo_machine\<lparr>pg := False, phys := st32 (\<lambda>_. 0) 0x9028 n, handlers := [ucast n \<mapsto> h]\<rparr>,
     dev := demo_dev\<lparr>pic_master_offset := 0x20, pic_slave_offset := 0x28\<rparr>\<rparr>"

definition demo_isr :: isr_symbols where
  "demo_isr = \<lparr>sym_exit_v86 = 0, sym_v86_exit = 0, syscall_ret = 0\<rparr>"

lemma demo_int_simps:
  "cores (demo_int n h) = (cores demo_kernel)(0 \<mapsto> (demo_core 0 CORE_ONLINE 0x1000)\<lparr>in_irq := False\<rparr>)"
  "threads (demo_int n h) = threads demo_kernel" "thread_list (demo_int n h) = thread_list demo_kernel"
  "\<not> sched_dat (demo_int n h)" "handlers (mach (demo_int n h)) = [ucast n \<mapsto> h]"
  by (simp_all add: demo_int_def demo_quiet_def del: demo_kernel_simps(3,4))

lemma demo_int_frame: "int_frame (mach (demo_int n h)) 0x9000 n 0"
  by (simp add: int_frame_def demo_int_def vld_def mmu_def) (simp add: ld32_def st32_def)

lemma demo_int_inv: "sched_inv (demo_int n h)"
  by (rule sched_inv_core [OF demo_kernel_inv, where c = 0 and l = "demo_core 0 CORE_ONLINE 0x1000"
        and l' = "(demo_core 0 CORE_ONLINE 0x1000)\<lparr>in_irq := False\<rparr>"]) (simp_all add: demo_int_simps)

theorem isr_reschedule_witness:
  "\<exists>r' s'. isr_handler demo_isr 0 0x9000 (demo_int 0xF0 Sched_runner) = Inr (r', s') \<and> sched_inv s' \<and>
     lapic_writes s' = lapic_writes (demo_int 0xF0 Sched_runner) @ [(0, 0xB0, 0)]"
proof -
  let ?s = "demo_int 0xF0 Sched_runner" and ?l = "(demo_core 0 CORE_ONLINE 0x1000)\<lparr>in_irq := False\<rparr>"
  have l: "cores ?s 0 = Some ?l" "c_state ?l \<in> {CORE_ONLINE, CORE_IDLE}" "\<not> in_irq ?l" "\<not> nested_irq ?l" "\<not> need_resched ?l"
    by (simp_all add: demo_int_simps demo_core_def)
  have h: "handlers (mach ?s) 0xF0 = Some Sched_runner" by (simp add: demo_int_simps)
  have p: "pic_master_offset (dev ?s) = 0x20" "pic_slave_offset (dev ?s) = 0x28" by (simp_all add: demo_int_def)
  from isr_reschedule [OF demo_int_inv demo_int_simps(4) l demo_int_frame h p, of demo_isr] show ?thesis by blast
qed

section \<open>Page faults\<close>



end
