(* ===== verification/Elf.thy ===== *)
theory Elf
  imports Cstring
begin

unbundle bit_operations_syntax

text \<open>
  ELF images and symbol tables: \<^verbatim>\<open>src/fs/elf/elf.c\<close> with the layouts and macros of
  \<^verbatim>\<open>include/fs/elf/elf.h\<close>, and the kernel's own table in \<^verbatim>\<open>src/sys/stack_trace.c\<close>. Images are
  bytes of memory read through the field offsets of the structures; \<open>elf_obj\<close> is \<open>ELF32Obj_t\<close>. The
  null pointer is an ordinary address of this memory, as it is for the kernel. The lookups by name
  compare C strings and do not return when a string has no end.
\<close>

section \<open>Layouts\<close>

abbreviation (input) ELF_MAGIC :: u32 where "ELF_MAGIC \<equiv> 0x464C457F"
abbreviation (input) ESHT_SYMTAB :: u8 where "ESHT_SYMTAB \<equiv> 2"
abbreviation (input) ESHT_STRTAB :: u8 where "ESHT_STRTAB \<equiv> 3"
abbreviation (input) STT_NOTYPE :: u8 where "STT_NOTYPE \<equiv> 0"
abbreviation (input) STT_FUNC :: u8 where "STT_FUNC \<equiv> 2"

text \<open>\<open>ELF32Header_t\<close>\<close>

definition e_magic :: "mem \<Rightarrow> u32 \<Rightarrow> u32" where "e_magic m h = ld32 m h"
definition e_phoff :: "mem \<Rightarrow> u32 \<Rightarrow> u32" where "e_phoff m h = ld32 m (h + 28)"
definition e_shoff :: "mem \<Rightarrow> u32 \<Rightarrow> u32" where "e_shoff m h = ld32 m (h + 32)"
definition e_phnum :: "mem \<Rightarrow> u32 \<Rightarrow> u16" where "e_phnum m h = ld16 m (h + 44)"
definition e_shnum :: "mem \<Rightarrow> u32 \<Rightarrow> u16" where "e_shnum m h = ld16 m (h + 48)"
definition e_shstrndx :: "mem \<Rightarrow> u32 \<Rightarrow> u16" where "e_shstrndx m h = ld16 m (h + 50)"

text \<open>\<open>ELF32SectionHeader_t\<close>\<close>

definition sh_name :: "mem \<Rightarrow> u32 \<Rightarrow> u32" where "sh_name m p = ld32 m p"
definition sh_type :: "mem \<Rightarrow> u32 \<Rightarrow> u32" where "sh_type m p = ld32 m (p + 4)"
definition sh_addr :: "mem \<Rightarrow> u32 \<Rightarrow> u32" where "sh_addr m p = ld32 m (p + 12)"
definition sh_offset :: "mem \<Rightarrow> u32 \<Rightarrow> u32" where "sh_offset m p = ld32 m (p + 16)"
definition sh_size :: "mem \<Rightarrow> u32 \<Rightarrow> u32" where "sh_size m p = ld32 m (p + 20)"

text \<open>\<open>ELF32Symbol_t\<close>\<close>

definition st_name :: "mem \<Rightarrow> u32 \<Rightarrow> u32" where "st_name m p = ld32 m p"
definition st_value :: "mem \<Rightarrow> u32 \<Rightarrow> u32" where "st_value m p = ld32 m (p + 4)"
definition st_info :: "mem \<Rightarrow> u32 \<Rightarrow> u8" where "st_info m p = m (p + 12)"

record elf_obj =
  header :: u32
  sectab_head :: u32
  sectab_size :: u32
  progtab_head :: u32
  progtab_size :: u32
  symtab_head :: u32
  symtab_size :: u32
  strtab_head :: u32
  strtab_size :: u32
  hstrtab_head :: u32
  start :: u32
  obj_end :: u32

definition ELF32_SECTION :: "elf_obj \<Rightarrow> u32 \<Rightarrow> u32" where
  "ELF32_SECTION h n = sectab_head h + 40 * n"

definition ELF32_PROGRAM :: "elf_obj \<Rightarrow> u32 \<Rightarrow> u32" where
  "ELF32_PROGRAM h n = progtab_head h + 32 * n"

definition ELF32_SYMBOL :: "elf_obj \<Rightarrow> u32 \<Rightarrow> u32" where
  "ELF32_SYMBOL h n = symtab_head h + 16 * n"

definition ELF32_HSTRTAB :: "mem \<Rightarrow> elf_obj \<Rightarrow> u32" where
  "ELF32_HSTRTAB m h = header h + sh_offset m (ELF32_SECTION h (ucast (e_shstrndx m (header h))))"

definition STT_CHECKTYPE :: "mem \<Rightarrow> u32 \<Rightarrow> u8 \<Rightarrow> bool" where
  "STT_CHECKTYPE m p ty \<longleftrightarrow> st_info m p AND 0xF = ty"

section \<open>Lookups\<close>

definition ELF32CheckMagic :: "mem \<Rightarrow> u32 \<Rightarrow> bool" where
  "ELF32CheckMagic m hdr \<longleftrightarrow> e_magic m hdr AND ELF_MAGIC = ELF_MAGIC"

primrec section_name_loop :: "nat \<Rightarrow> mem \<Rightarrow> elf_obj \<Rightarrow> u32 \<Rightarrow> u32 \<Rightarrow> u32 option" where
  "section_name_loop 0 m h name i = Some 0"
| "section_name_loop (Suc n) m h name i =
     (let section = ELF32_SECTION h i
      in case strcmp m (hstrtab_head h + sh_name m section) name of
           None \<Rightarrow> None
         | Some r \<Rightarrow> if r \<noteq> 0 then section_name_loop n m h name (i + 1) else Some section)"

definition ELFLookupSectionByName :: "mem \<Rightarrow> elf_obj \<Rightarrow> u32 \<Rightarrow> u32 option" where
  "ELFLookupSectionByName m h name = section_name_loop (unat (sectab_size h)) m h name 0"

primrec section_type_loop :: "nat \<Rightarrow> mem \<Rightarrow> elf_obj \<Rightarrow> u8 \<Rightarrow> u32 \<Rightarrow> u32" where
  "section_type_loop 0 m h ty i = 0"
| "section_type_loop (Suc n) m h ty i =
     (let section = ELF32_SECTION h i
      in if sh_type m section \<noteq> ucast ty then section_type_loop n m h ty (i + 1) else section)"

definition ELFLookupSectionByType :: "mem \<Rightarrow> elf_obj \<Rightarrow> u8 \<Rightarrow> u32" where
  "ELFLookupSectionByType m h ty = section_type_loop (unat (sectab_size h)) m h ty 0"

primrec near_section_loop :: "nat \<Rightarrow> mem \<Rightarrow> elf_obj \<Rightarrow> u32 \<Rightarrow> u32 \<Rightarrow> u32 \<Rightarrow> u32" where
  "near_section_loop 0 m h address i nearest = nearest"
| "near_section_loop (Suc n) m h address i nearest =
     (let section = ELF32_SECTION h i;
          nearest = (if nearest = 0 then section else nearest);
          nearest = (if address - sh_addr m section < address - sh_addr m nearest then section else nearest)
      in near_section_loop n m h address (i + 1) nearest)"

definition ELFFindNearestSectionByAddress :: "mem \<Rightarrow> elf_obj \<Rightarrow> u32 \<Rightarrow> u32" where
  "ELFFindNearestSectionByAddress m h address =
     (if sectab_size h = 0 then 0
      else if symtab_size h = 0 then 0
      else if address < start h \<or> address > obj_end h then 0
      else near_section_loop (unat (sectab_size h)) m h address 0 0)"

primrec symbol_name_loop :: "nat \<Rightarrow> mem \<Rightarrow> elf_obj \<Rightarrow> u8 \<Rightarrow> u32 \<Rightarrow> u32 \<Rightarrow> u32 option" where
  "symbol_name_loop 0 m h ty name i = Some 0"
| "symbol_name_loop (Suc n) m h ty name i =
     (let symbol = ELF32_SYMBOL h i
      in if \<not> STT_CHECKTYPE m symbol ty then symbol_name_loop n m h ty name (i + 1)
         else if st_name m symbol = 0 then symbol_name_loop n m h ty name (i + 1)
         else if st_name m symbol > strtab_size h then symbol_name_loop n m h ty name (i + 1)
         else case strcmp m (strtab_head h + st_name m symbol) name of
                None \<Rightarrow> None
              | Some r \<Rightarrow> if r = 0 then Some symbol else symbol_name_loop n m h ty name (i + 1))"

definition ELFLookupSymbolByName :: "mem \<Rightarrow> elf_obj \<Rightarrow> u8 \<Rightarrow> u32 \<Rightarrow> u32 option" where
  "ELFLookupSymbolByName m h ty name =
     (if sectab_size h = 0 then Some 0
      else if symtab_size h = 0 then Some 0
      else if strtab_size h = 0 then Some 0
      else symbol_name_loop (unat (symtab_size h)) m h ty name 0)"

primrec near_symbol_loop :: "nat \<Rightarrow> mem \<Rightarrow> elf_obj \<Rightarrow> u8 \<Rightarrow> u32 \<Rightarrow> u32 \<Rightarrow> u32 \<Rightarrow> u32" where
  "near_symbol_loop 0 m h ty address i nearest = nearest"
| "near_symbol_loop (Suc n) m h ty address i nearest =
     (let symbol = ELF32_SYMBOL h i
      in if \<not> STT_CHECKTYPE m symbol ty then near_symbol_loop n m h ty address (i + 1) nearest
         else let nearest = (if nearest = 0 then symbol else nearest);
                  nearest = (if address - st_value m symbol < address - st_value m nearest then symbol else nearest)
              in near_symbol_loop n m h ty address (i + 1) nearest)"

definition ELFFindNearestSymbolByAddress :: "mem \<Rightarrow> elf_obj \<Rightarrow> u8 \<Rightarrow> u32 \<Rightarrow> u32" where
  "ELFFindNearestSymbolByAddress m h ty address =
     (if sectab_size h = 0 then 0
      else if symtab_size h = 0 then 0
      else if address < start h \<or> address > obj_end h then 0
      else near_symbol_loop (unat (symtab_size h)) m h ty address 0 0)"

section \<open>Loading\<close>

text \<open>
  \<open>names\<close> are the addresses of the literals \<open>"__module_start"\<close> and \<open>"__module_end"\<close>. The result is
  None when a lookup does not return.
\<close>

definition ELFLoad :: "mem \<Rightarrow> u32 \<times> u32 \<Rightarrow> u32 \<Rightarrow> elf_obj \<Rightarrow> (bool \<times> elf_obj) option" where
  "ELFLoad m names address out0 =
     (if \<not> ELF32CheckMagic m address then Some (False, out0)
      else
        let out0 = out0\<lparr>header := address\<rparr>;
            out0 = out0\<lparr>sectab_head := address + e_shoff m address, sectab_size := ucast (e_shnum m address)\<rparr>;
            out0 = out0\<lparr>progtab_head := address + e_phoff m address, progtab_size := ucast (e_phnum m address)\<rparr>;
            out0 = out0\<lparr>hstrtab_head := ELF32_HSTRTAB m out0\<rparr>;
            symtab = ELFLookupSectionByType m out0 ESHT_SYMTAB;
            out0 = out0\<lparr>symtab_head := (if symtab \<noteq> 0 then address + sh_offset m symtab else 0),
                     symtab_size := sh_size m symtab div 16\<rparr>;
            strtab = ELFLookupSectionByType m out0 ESHT_STRTAB;
            out0 = out0\<lparr>strtab_head := (if strtab \<noteq> 0 then address + sh_offset m strtab else 0),
                     strtab_size := (if strtab \<noteq> 0 then sh_size m strtab else 0)\<rparr>
        in case ELFLookupSymbolByName m out0 STT_NOTYPE (fst names) of
             None \<Rightarrow> None
           | Some startsym \<Rightarrow>
               (let out0 = out0\<lparr>start := (if startsym \<noteq> 0 then st_value m startsym else 0)\<rparr>
                in case ELFLookupSymbolByName m out0 STT_NOTYPE (snd names) of
                     None \<Rightarrow> None
                   | Some endsym \<Rightarrow> Some (True, out0\<lparr>obj_end := (if endsym \<noteq> 0 then st_value m endsym else 0)\<rparr>)))"

text \<open>
  The kernel's table, from the section headers the boot loader left; \<open>bounds\<close> are the linker's
  \<open>__kernel_start\<close> and \<open>__kernel_end\<close>. The mapping of the table into the address space, done
  first, is a call of \<open>vmm_map\<close> and not repeated here.
\<close>

definition init_kernel_table :: "mem \<Rightarrow> u32 \<times> u32 \<Rightarrow> u32 \<Rightarrow> u32 \<Rightarrow> u32 \<Rightarrow> elf_obj \<Rightarrow> elf_obj" where
  "init_kernel_table m bounds sybtabPtr num shindex obj =
     (let obj = obj\<lparr>header := 0, sectab_head := sybtabPtr, sectab_size := num\<rparr>;
          obj = obj\<lparr>hstrtab_head := sh_addr m (ELF32_SECTION obj shindex)\<rparr>;
          symtab = ELFLookupSectionByType m obj ESHT_SYMTAB;
          obj = obj\<lparr>symtab_head := (if symtab \<noteq> 0 then sh_addr m symtab else 0),
                   symtab_size := (if symtab \<noteq> 0 then sh_size m symtab div 16 else 0)\<rparr>;
          strtab = ELFLookupSectionByType m obj ESHT_STRTAB
      in obj\<lparr>strtab_head := (if strtab \<noteq> 0 then sh_addr m strtab else 0),
             strtab_size := (if strtab \<noteq> 0 then sh_size m strtab else 0),
             start := fst bounds, obj_end := snd bounds\<rparr>)"

definition is_kernel_table_loaded :: "elf_obj \<Rightarrow> bool" where
  "is_kernel_table_loaded obj \<longleftrightarrow> sectab_size obj > 0 \<and> hstrtab_head obj \<noteq> 0"

section \<open>Stack traces\<close>

text \<open>
  The loop of \<open>print_stack_frame\<close> that resolves an address: the object it searched last, by its
  address, and the symbol. \<open>objs\<close> are the objects, \<open>kernel_obj\<close> is the address of \<open>kernel_table_obj\<close> and
  \<open>thread_obj\<close> the address of the object of the current thread's process, if there is a current
  thread. Nothing keeps the loop from going round with the same object.
\<close>

partial_function (option) resolve_frame :: "mem \<Rightarrow> (u32 \<Rightarrow> elf_obj) \<Rightarrow> u32 \<Rightarrow> u32 option \<Rightarrow> u32 \<Rightarrow> u32 \<Rightarrow> (u32 \<times> u32) option" where
  [code]: "resolve_frame m objs kernel_obj thread_obj hdr address =
     (let symbol = ELFFindNearestSymbolByAddress m (objs hdr) STT_FUNC address
      in if symbol = 0 \<and> thread_obj \<noteq> None \<and> hdr = kernel_obj
         then resolve_frame m objs kernel_obj thread_obj (the thread_obj) address
         else Some (hdr, symbol))"

text \<open>The return addresses a chain of frames gives, at most \<open>n\<close> of them, up to the frame \<open>stop\<close>.\<close>

primrec walk_frames :: "nat \<Rightarrow> mem \<Rightarrow> (u32 \<Rightarrow> bool) \<Rightarrow> u32 \<Rightarrow> u32 list" where
  "walk_frames 0 m stop stk = []"
| "walk_frames (Suc n) m stop stk =
     (if stop stk then [] else if stk = 0 then []
      else ld32 m (stk + 4) # walk_frames n m stop (ld32 m stk))"

text \<open>
  The addresses \<open>stack_trace\<close> reports, with the faulting one marked; \<open>print_stack_frame\<close> prints
  nothing for the address 0. \<open>irq\<close> is the saved frame
  pointer and instruction pointer when the core is in an interrupt; the counter of the remaining
  frames is decremented with wrap-around.
\<close>

definition stack_trace :: "mem \<Rightarrow> u32 \<Rightarrow> (u32 \<times> u32) option \<Rightarrow> u32 \<Rightarrow> (u32 \<times> bool) list" where
  "stack_trace m ebp irq maxFrames =
     filter (\<lambda>f. fst f \<noteq> 0) (case irq of
        None \<Rightarrow> map (\<lambda>a. (a, False)) (walk_frames (unat maxFrames) m (\<lambda>_. False) ebp)
      | Some (iebp, ieip) \<Rightarrow>
          (let inner = (if ebp \<noteq> 0 then walk_frames (unat maxFrames) m (\<lambda>stk. stk = iebp) ebp else []);
               left = maxFrames - of_nat (length inner) - 1
           in map (\<lambda>a. (a, False)) inner @ (ieip, True) #
              map (\<lambda>a. (a, False)) (walk_frames (unat left) m (\<lambda>_. False) iebp)))"

section \<open>First match and nearest match\<close>

lemma section_type_loop_first:
  "section_type_loop n m h ty (of_nat i) =
    (case first_match (\<lambda>i. sh_type m (ELF32_SECTION h (of_nat i)) = ucast ty) i n of None \<Rightarrow> 0 | Some j \<Rightarrow> ELF32_SECTION h (of_nat j))"
proof (induction n arbitrary: i)
  case (Suc n)
  show ?case using Suc.IH [of "Suc i"] by (simp add: first_match_Suc Let_def add.commute)
qed simp

text \<open>\<open>ELFLookupSectionByType\<close> returns the first section header of the wanted type, and the null pointer
  exactly if there is none.\<close>

lemma lookup_section_by_type:
  "ELFLookupSectionByType m h ty =
    (case find (\<lambda>i. sh_type m (ELF32_SECTION h (of_nat i)) = ucast ty) [0 ..< unat (sectab_size h)] of
       None \<Rightarrow> 0 | Some j \<Rightarrow> ELF32_SECTION h (of_nat j))"
  using section_type_loop_first [of "unat (sectab_size h)" m h ty 0]
  by (simp add: ELFLookupSectionByType_def first_match_def)

text \<open>The candidates of a lookup by name, and what the loop does when the names are C strings.\<close>

definition named :: "mem \<Rightarrow> elf_obj \<Rightarrow> u8 \<Rightarrow> nat \<Rightarrow> bool" where
  "named m h ty i \<longleftrightarrow> STT_CHECKTYPE m (ELF32_SYMBOL h (of_nat i)) ty \<and> st_name m (ELF32_SYMBOL h (of_nat i)) \<noteq> 0 \<and>
     st_name m (ELF32_SYMBOL h (of_nat i)) \<le> strtab_size h"

lemma symbol_name_loop_first:
  assumes "cstr m name ns" "\<And>j. i \<le> j \<Longrightarrow> j < i + n \<Longrightarrow> named m h ty j \<Longrightarrow> cstr m (strtab_head h + st_name m (ELF32_SYMBOL h (of_nat j))) (nm j)"
  shows "symbol_name_loop n m h ty name (of_nat i) =
    Some (case first_match (\<lambda>i. named m h ty i \<and> nm i = ns) i n of None \<Rightarrow> 0 | Some j \<Rightarrow> ELF32_SYMBOL h (of_nat j))"
  using assms(2)
proof (induction n arbitrary: i)
  case (Suc n)
  have IH: "symbol_name_loop n m h ty name (of_nat i + 1) =
      Some (case first_match (\<lambda>i. named m h ty i \<and> nm i = ns) (Suc i) n of None \<Rightarrow> 0 | Some j \<Rightarrow> ELF32_SYMBOL h (of_nat j))"
    using Suc.IH [of "Suc i"] Suc.prems by (simp add: add.commute)
  show ?case
  proof (cases "named m h ty i")
    case True
    then have "cstr m (strtab_head h + st_name m (ELF32_SYMBOL h (of_nat i))) (nm i)" using Suc.prems [of i] by simp
    note cmp = strcmp_correct [OF this assms(1)]
    have "STT_CHECKTYPE m (ELF32_SYMBOL h (of_nat i)) ty" "st_name m (ELF32_SYMBOL h (of_nat i)) \<noteq> 0"
      "\<not> st_name m (ELF32_SYMBOL h (of_nat i)) > strtab_size h" using True by (auto simp: named_def)
    with True IH cmp show ?thesis by (simp add: first_match_Suc Let_def)
  next
    case False
    then have "symbol_name_loop (Suc n) m h ty name (of_nat i) = symbol_name_loop n m h ty name (of_nat i + 1)"
      by (auto simp: named_def Let_def)
    with IH False show ?thesis by (simp only: first_match_Suc simp_thms if_False)
  qed
qed simp

text \<open>When the names of the candidates are C strings, \<open>ELFLookupSymbolByName\<close> returns the first symbol of the
  wanted type whose name is the wanted one, and the null pointer exactly if there is none. Symbols
  without a name are passed over, and so are names that start behind the string table.\<close>

lemma lookup_symbol_by_name:
  assumes "cstr m name ns" and "\<And>j. j < unat (symtab_size h) \<Longrightarrow> named m h ty j \<Longrightarrow>
      cstr m (strtab_head h + st_name m (ELF32_SYMBOL h (of_nat j))) (nm j)"
    and "sectab_size h \<noteq> 0" "strtab_size h \<noteq> 0"
  shows "ELFLookupSymbolByName m h ty name =
    Some (case find (\<lambda>i. named m h ty i \<and> nm i = ns) [0 ..< unat (symtab_size h)] of None \<Rightarrow> 0 | Some j \<Rightarrow> ELF32_SYMBOL h (of_nat j))"
proof -
  have "symbol_name_loop (unat (symtab_size h)) m h ty name (of_nat 0) =
    Some (case first_match (\<lambda>i. named m h ty i \<and> nm i = ns) 0 (unat (symtab_size h)) of None \<Rightarrow> 0 | Some j \<Rightarrow> ELF32_SYMBOL h (of_nat j))"
    using assms(2) by (intro symbol_name_loop_first [OF assms(1)]) simp
  then show ?thesis using assms(3,4) by (auto simp: ELFLookupSymbolByName_def first_match_def)
qed

text \<open>The nearest symbol: the loop keeps the first symbol of least distance.\<close>

definition nearest_among :: "mem \<Rightarrow> elf_obj \<Rightarrow> u8 \<Rightarrow> u32 \<Rightarrow> nat \<Rightarrow> u32 \<Rightarrow> bool" where
  "nearest_among m h ty address n r \<longleftrightarrow>
     (if \<exists>i < n. STT_CHECKTYPE m (ELF32_SYMBOL h (of_nat i)) ty then
        (\<exists>i < n. r = ELF32_SYMBOL h (of_nat i) \<and> STT_CHECKTYPE m r ty \<and>
           (\<forall>j < n. STT_CHECKTYPE m (ELF32_SYMBOL h (of_nat j)) ty \<longrightarrow>
              address - st_value m r \<le> address - st_value m (ELF32_SYMBOL h (of_nat j))))
      else r = 0)"

lemma near_symbol_loop_nearest:
  assumes "\<And>j. j < i + n \<Longrightarrow> ELF32_SYMBOL h (of_nat j) \<noteq> 0" "nearest_among m h ty address i r"
  shows "nearest_among m h ty address (i + n) (near_symbol_loop n m h ty address (of_nat i) r)"
  using assms
proof (induction n arbitrary: i r)
  case (Suc n)
  let ?s = "ELF32_SYMBOL h (of_nat i)"
  let ?d = "\<lambda>p. address - st_value m p"
  show ?case
  proof (cases "STT_CHECKTYPE m ?s ty")
    case False
    then have "nearest_among m h ty address (Suc i) r"
      using Suc.prems(2) unfolding nearest_among_def by (auto simp: less_Suc_eq split: if_splits)
    from Suc.IH [OF _ this] Suc.prems(1) False show ?thesis by (simp add: Let_def add.commute)
  next
    case True
    define r' where "r' = (if ?d ?s < ?d (if r = 0 then ?s else r) then ?s else if r = 0 then ?s else r)"
    have nz: "?s \<noteq> 0" using Suc.prems(1) by simp
    have "nearest_among m h ty address (Suc i) r'"
    proof (cases "\<exists>k < i. STT_CHECKTYPE m (ELF32_SYMBOL h (of_nat k)) ty")
      case False
      then have "r = 0" using Suc.prems(2) by (simp add: nearest_among_def)
      then have "r' = ?s" by (simp add: r'_def)
      with True False show ?thesis unfolding nearest_among_def by (auto simp: less_Suc_eq)
    next
      case ex: True
      then obtain k where k: "k < i" "r = ELF32_SYMBOL h (of_nat k)" "STT_CHECKTYPE m r ty"
        "\<forall>j < i. STT_CHECKTYPE m (ELF32_SYMBOL h (of_nat j)) ty \<longrightarrow> ?d r \<le> ?d (ELF32_SYMBOL h (of_nat j))"
        using Suc.prems(2) unfolding nearest_among_def by auto
      have "r \<noteq> 0" using Suc.prems(1) [of k] k(1,2) by simp
      then have r': "r' = (if ?d ?s < ?d r then ?s else r)" by (simp add: r'_def)
      show ?thesis
      proof (cases "?d ?s < ?d r")
        case lt: True
        then show ?thesis using True k(4) r' unfolding nearest_among_def
          by (auto simp: less_Suc_eq intro!: exI [of _ i] dest: less_le_trans order.strict_implies_order)
      next
        case False
        then show ?thesis using True k r' unfolding nearest_among_def
          by (auto simp: less_Suc_eq not_less intro!: exI [of _ k])
      qed
    qed
    from Suc.IH [OF _ this] Suc.prems(1) have "nearest_among m h ty address (Suc i + n) (near_symbol_loop n m h ty address (of_nat (Suc i)) r')"
      by simp
    moreover have "near_symbol_loop (Suc n) m h ty address (of_nat i) r = near_symbol_loop n m h ty address (of_nat (Suc i)) r'"
      using True by (simp add: Let_def r'_def add.commute)
    ultimately show ?thesis by simp
  qed
qed simp


text \<open>C32: \<open>ELFFindNearestSymbolByAddress\<close> finds the symbol a code address belongs to: if the table has a symbol
  of the wanted type at or below the address, the result is one with the greatest value at or below
  it; if the table has no symbol of the type the result is the null pointer.\<close>

theorem nearest_symbol:
  fixes h :: elf_obj and m :: mem and ty :: u8 and address :: u32
  assumes "sectab_size h \<noteq> 0" "symtab_size h \<noteq> 0" "start h \<le> address" "address \<le> obj_end h"
    and "symtab_head h \<noteq> 0" "unat (symtab_head h) + 16 * unat (symtab_size h) \<le> 2 ^ 32"
  defines "smb \<equiv> \<lambda>i. ELF32_SYMBOL h (of_nat i)"
  defines "r \<equiv> ELFFindNearestSymbolByAddress m h ty address"
  shows "(if \<exists>i < unat (symtab_size h). STT_CHECKTYPE m (smb i) ty then
      \<exists>i < unat (symtab_size h). r = smb i \<and> STT_CHECKTYPE m r ty \<and>
        (\<forall>j < unat (symtab_size h). STT_CHECKTYPE m (smb j) ty \<and> st_value m (smb j) \<le> address \<longrightarrow>
           st_value m r \<le> address \<and> st_value m (smb j) \<le> st_value m r)
    else r = 0)"
proof -
  have nz: "ELF32_SYMBOL h (of_nat j) \<noteq> 0" if "j < unat (symtab_size h)" for j
  proof -
    have "16 * j < 2 ^ 32" "unat (symtab_head h) + 16 * j < 2 ^ 32" using assms(6) that by simp_all
    then have "unat (symtab_head h + of_nat (16 * j)) = unat (symtab_head h) + 16 * j"
      using unat_add_small [of "symtab_head h" "of_nat (16 * j)"] unat_of_nat_small [of "16 * j"] by simp
    moreover have "unat (symtab_head h) \<noteq> 0" using assms(5) by (simp add: unat_eq_0)
    ultimately have "symtab_head h + of_nat (16 * j) \<noteq> 0" by (metis add_is_0 unsigned_0)
    then show ?thesis by (simp add: ELF32_SYMBOL_def)
  qed
  have "r = near_symbol_loop (unat (symtab_size h)) m h ty address (of_nat 0) 0"
    using assms(1-4) by (auto simp: r_def ELFFindNearestSymbolByAddress_def)
  moreover have "nearest_among m h ty address 0 0" by (simp add: nearest_among_def)
  ultimately have N: "nearest_among m h ty address (unat (symtab_size h)) r"
    using near_symbol_loop_nearest [of 0 "unat (symtab_size h)" h m ty address 0] nz by simp
  have le: "v \<le> address \<and> w \<le> v" if "address - v \<le> address - w" "w \<le> address" for v w :: u32
  proof -
    have d: "address - w \<le> address" using that(2) by (simp add: word_le_nat_alt unat_sub)
    have v: "v \<le> address"
    proof (rule ccontr)
      assume "\<not> v \<le> address"
      then have "unat address < unat v" by (simp add: word_le_nat_alt)
      moreover from this have "unat (address - v) = unat address + 2 ^ 32 - unat v"
        by (simp add: unat_sub_if_size word_size)
      moreover have "unat v < 2 ^ 32" by simp
      ultimately have "unat address < unat (address - v)" by linarith
      with that(1) d show False by (simp add: word_le_nat_alt)
    qed
    with that show ?thesis by (simp add: word_le_nat_alt unat_sub)
  qed
  show ?thesis
    using N unfolding nearest_among_def smb_def using le by (auto split: if_splits)
qed

text \<open>An image with two functions \<open>a\<close> at \<open>0x100\<close> and \<open>b\<close> at \<open>0x200\<close>.\<close>

definition elf_demo_mem :: mem where
  "elf_demo_mem = (\<lambda>_. 0)(0x1000 := 1, 0x1005 := 1, 0x100C := 2, 0x1010 := 3, 0x1015 := 2, 0x101C := 2,
     0x2001 := 0x61, 0x2003 := 0x62, 0x3000 := 0x62)"

definition elf_demo :: elf_obj where
  "elf_demo = \<lparr>header = 0, sectab_head = 0, sectab_size = 1, progtab_head = 0, progtab_size = 0, symtab_head = 0x1000,
     symtab_size = 2, strtab_head = 0x2000, strtab_size = 5, hstrtab_head = 0, start = 0, obj_end = 0x1000\<rparr>"

lemma elf_demo_symbols:
  "ELF32_SYMBOL elf_demo 0 = 0x1000" "ELF32_SYMBOL elf_demo 1 = 0x1010"
  "STT_CHECKTYPE elf_demo_mem 0x1000 2" "STT_CHECKTYPE elf_demo_mem 0x1010 2"
  "st_name elf_demo_mem 0x1000 = 1" "st_name elf_demo_mem 0x1010 = 3"
  "st_value elf_demo_mem 0x1000 = 0x100" "st_value elf_demo_mem 0x1010 = 0x200"
  by (simp_all add: ELF32_SYMBOL_def elf_demo_def STT_CHECKTYPE_def st_info_def st_name_def st_value_def ld32_def elf_demo_mem_def)

lemma elf_demo_sizes: "sectab_size elf_demo = 1" "symtab_size elf_demo = 2" "strtab_size elf_demo = 5" "strtab_head elf_demo = 0x2000"
  "start elf_demo = 0" "obj_end elf_demo = 0x1000" "symtab_head elf_demo = 0x1000"
  by (simp_all add: elf_demo_def)

lemma less_2_cases: "(j :: nat) < 2 \<longleftrightarrow> j = 0 \<or> j = 1" by auto

theorem nearest_symbol_witness: "ELFFindNearestSymbolByAddress elf_demo_mem elf_demo 2 0x180 = 0x1000"
proof -
  let ?r = "ELFFindNearestSymbolByAddress elf_demo_mem elf_demo 2 0x180"
  have a: "sectab_size elf_demo \<noteq> 0" "symtab_size elf_demo \<noteq> 0" "start elf_demo \<le> 0x180" "0x180 \<le> obj_end elf_demo"
    "symtab_head elf_demo \<noteq> 0" "unat (symtab_head elf_demo) + 16 * unat (symtab_size elf_demo) \<le> 2 ^ 32"
    by (simp_all add: elf_demo_sizes)
  have ex: "\<exists>i < unat (symtab_size elf_demo). STT_CHECKTYPE elf_demo_mem (ELF32_SYMBOL elf_demo (of_nat i)) 2"
    by (intro exI [of _ 0]) (simp add: elf_demo_sizes elf_demo_symbols)
  obtain i where i: "i < 2" "?r = ELF32_SYMBOL elf_demo (of_nat i)"
    "\<forall>j < 2. STT_CHECKTYPE elf_demo_mem (ELF32_SYMBOL elf_demo (of_nat j)) 2 \<and> st_value elf_demo_mem (ELF32_SYMBOL elf_demo (of_nat j)) \<le> 0x180 \<longrightarrow>
       st_value elf_demo_mem ?r \<le> 0x180"
    using nearest_symbol [OF a, of elf_demo_mem 2] unfolding if_P [OF ex] by (auto simp: elf_demo_sizes)
  from i(3) [rule_format, of 0] have "st_value elf_demo_mem ?r \<le> 0x180" by (simp add: elf_demo_symbols)
  with i(1,2) show ?thesis by (auto simp: less_2_cases elf_demo_symbols)
qed

section \<open>Loading\<close>

lemma and_or_absorb: "a AND b = b \<longleftrightarrow> a OR b = a" for a b :: u32
  by (auto simp: bit_eq_iff bit_simps)



section \<open>Stack traces\<close>

lemma length_walk_frames: "length (walk_frames n m stop stk) \<le> n"
  by (induction n arbitrary: stk) (auto simp: Let_def)

lemma walk_stop: "stop stk \<Longrightarrow> walk_frames n m stop stk = []"
  by (cases n) simp_all

text \<open>C36: in an interrupt \<open>stack_trace\<close> reports at most \<open>maxFrames\<close> addresses when the handler's own frames are
  fewer than that. If they use up the count, the counter wraps around at the faulting address and the
  interrupted code's frames are followed without a bound.\<close>

theorem stack_trace_bounded:
  fixes m :: mem and ebp iebp maxFrames :: u32
  defines "inner \<equiv> if ebp \<noteq> 0 then walk_frames (unat maxFrames) m (\<lambda>stk. stk = iebp) ebp else []"
  shows "(length inner < unat maxFrames \<longrightarrow> length (stack_trace m ebp (Some (iebp, ieip)) maxFrames) \<le> unat maxFrames) \<and>
    (length inner = unat maxFrames \<longrightarrow> stack_trace m ebp (Some (iebp, ieip)) maxFrames =
       filter (\<lambda>f. fst f \<noteq> 0) (map (\<lambda>a. (a, False)) inner @ (ieip, True) #
         map (\<lambda>a. (a, False)) (walk_frames (2 ^ 32 - 1) m (\<lambda>_. False) iebp)))"
proof -
  let ?left = "maxFrames - of_nat (length inner) - 1"
  let ?all = "map (\<lambda>a. (a, False)) inner @ (ieip, True) # map (\<lambda>a. (a, False)) (walk_frames (unat ?left) m (\<lambda>_. False) iebp)"
  have eq: "stack_trace m ebp (Some (iebp, ieip)) maxFrames = filter (\<lambda>f. fst f \<noteq> 0) ?all"
    by (simp add: stack_trace_def inner_def Let_def)
  have "length (stack_trace m ebp (Some (iebp, ieip)) maxFrames) \<le> unat maxFrames" if l: "length inner < unat maxFrames"
  proof -
    have n: "Suc (length inner) < 2 ^ 32"
    proof -
      have "Suc (length inner) \<le> unat maxFrames" using l by simp
      also have "unat maxFrames < 2 ^ 32" by simp
      finally show ?thesis .
    qed
    have e: "?left = maxFrames - of_nat (Suc (length inner))" by simp
    have "unat (of_nat (Suc (length inner)) :: u32) = Suc (length inner)" by (rule unat_of_nat_small [OF n])
    then have "unat ?left = unat maxFrames - Suc (length inner)"
      unfolding e using l by (simp add: unat_sub word_le_nat_alt del: of_nat_Suc)
    then have "length ?all \<le> unat maxFrames"
      using l length_walk_frames [of "unat ?left" m "\<lambda>_. False" iebp] by simp
    then show ?thesis unfolding eq using length_filter_le order_trans by blast
  qed
  moreover have "unat ?left = 2 ^ 32 - 1" if "length inner = unat maxFrames"
  proof -
    have "?left = - 1" using that by simp
    then show ?thesis by (simp add: unsigned_minus_1_eq_mask mask_eq_exp_minus_1)
  qed
  ultimately show ?thesis using eq by auto
qed

theorem stack_trace_bounded_witness: "length (stack_trace (\<lambda>_. 1) 8 (Some (8, 0x1234)) 2) \<le> 2"
  using stack_trace_bounded [of 8 2 "\<lambda>_. 1" 8 "0x1234"] by (simp add: walk_stop)

section \<open>Resolving an address\<close>

lemma resolve_frame_stuck:
  assumes "ELFFindNearestSymbolByAddress m (objs k) STT_FUNC address = 0"
  shows "resolve_frame m objs k (Some k) k address = None"
proof -
  have "\<not> (m' = m \<and> objs' = objs \<and> k' = k \<and> t' = Some k \<and> h' = k \<and> a' = address)"
    if "resolve_frame m' objs' k' t' h' a' = Some r" for m' objs' k' t' h' a' r
    using that
  proof (induction rule: resolve_frame.raw_induct [rotated -1, consumes 1])
    case (1 rec m' objs' k' t' h' a' r)
    from 1(2) assms show ?case by (auto simp: Let_def dest!: 1(1))
  qed
  then show ?thesis by (cases "resolve_frame m objs k (Some k) k address") blast+
qed

text \<open>Everywhere else the loop ends after at most two rounds.\<close>

lemma resolve_frame_ends:
  "resolve_frame m objs k t k address =
    (if ELFFindNearestSymbolByAddress m (objs k) STT_FUNC address \<noteq> 0 \<or> t = None
     then Some (k, ELFFindNearestSymbolByAddress m (objs k) STT_FUNC address)
     else if t = Some k then None
     else Some (the t, ELFFindNearestSymbolByAddress m (objs (the t)) STT_FUNC address))"
proof (cases "ELFFindNearestSymbolByAddress m (objs k) STT_FUNC address \<noteq> 0 \<or> t = None \<or> t = Some k")
  case True
  then show ?thesis using resolve_frame_stuck [of m objs k address] by (auto simp: resolve_frame.simps [of m objs k t k] Let_def)
next
  case False
  then obtain j where j: "t = Some j" "j \<noteq> k" "ELFFindNearestSymbolByAddress m (objs k) STT_FUNC address = 0" by auto
  have "resolve_frame m objs k t k address = resolve_frame m objs k t j address"
    using j by (subst resolve_frame.simps) simp
  also have "\<dots> = Some (j, ELFFindNearestSymbolByAddress m (objs j) STT_FUNC address)"
    using j(2) by (subst resolve_frame.simps) simp
  finally show ?thesis using j by simp
qed

end
