(* ===== verification/Acpi.thy ===== *)
theory Acpi
  imports Memory
begin

unbundle bit_operations_syntax

text \<open>
  The search of the ACPI tables, \<^verbatim>\<open>src/sys/acpi/acpi.c\<close>, over the bytes the kernel sees. The
  firmware's tables are packed structures, read at the offsets of \<^verbatim>\<open>include/sys/acpi/acpi.h\<close>;
  \<open>ll_find_rsdp\<close> is the assembly loop of \<^verbatim>\<open>src/sys/acpi/acpi_asm.s\<close>. Only the two pointers \<open>rsdp\<close>
  and \<open>madt\<close> are state.
\<close>

section \<open>The tables\<close>

definition rsdp_revision :: "mem \<Rightarrow> u32 \<Rightarrow> u8" where
  "rsdp_revision m p = m (p + 15)"

definition rsdt_address :: "mem \<Rightarrow> u32 \<Rightarrow> u32" where
  "rsdt_address m p = ld32 m (p + 16)"

text \<open>The upper half of the 64-bit address is cut off by the conversion to a pointer.\<close>

definition xsdt_address :: "mem \<Rightarrow> u32 \<Rightarrow> u32" where
  "xsdt_address m p = ld32 m (p + 24)"

abbreviation (input) RSDP1_SIZE :: u32 where "RSDP1_SIZE \<equiv> 20"
abbreviation (input) RSDP2_SIZE :: u32 where "RSDP2_SIZE \<equiv> 36"

definition signature_num :: "mem \<Rightarrow> u32 \<Rightarrow> u32" where
  "signature_num m h = ld32 m h"

definition sdt_length :: "mem \<Rightarrow> u32 \<Rightarrow> u32" where
  "sdt_length m h = ld32 m (h + 4)"

text \<open>\<open>other_sdts[i]\<close> of the two kinds of root table: the pointer, and whether the word is not zero.\<close>

definition rsdt_entry :: "mem \<Rightarrow> u32 \<Rightarrow> u32 \<Rightarrow> u32" where
  "rsdt_entry m rsdt i = ld32 m (rsdt + 36 + 4 * i)"

definition xsdt_entry :: "mem \<Rightarrow> u32 \<Rightarrow> u32 \<Rightarrow> u32" where
  "xsdt_entry m xsdt i = ld32 m (xsdt + 36 + 8 * i)"

definition xsdt_entry_set :: "mem \<Rightarrow> u32 \<Rightarrow> u32 \<Rightarrow> bool" where
  "xsdt_entry_set m xsdt i \<longleftrightarrow> ld32 m (xsdt + 36 + 8 * i) \<noteq> 0 \<or> ld32 m (xsdt + 36 + 8 * i + 4) \<noteq> 0"

section \<open>The search\<close>

primrec checksum_loop :: "nat \<Rightarrow> mem \<Rightarrow> u32 \<Rightarrow> u32 \<Rightarrow> u32" where
  "checksum_loop 0 m data tot = tot"
| "checksum_loop (Suc n) m data tot = checksum_loop n m (data + 1) (tot + ucast (m data))"

definition checksum_calc :: "mem \<Rightarrow> u32 \<Rightarrow> u32 \<Rightarrow> u32" where
  "checksum_calc m data len = checksum_loop (unat len) m data 0 AND 0xFF"

record acpi_state =
  rsdp :: u32
  madt :: u32

definition get_root_sdt_header :: "mem \<Rightarrow> acpi_state \<Rightarrow> u32" where
  "get_root_sdt_header m s =
     (if rsdp s = 0 then 0
      else if rsdp_revision m (rsdp s) = 2 then
        (if checksum_calc m (rsdp s + RSDP1_SIZE) (RSDP2_SIZE - RSDP1_SIZE) \<noteq> 0 then 0
         else let h = xsdt_address m (rsdp s) in if checksum_calc m h (sdt_length m h) \<noteq> 0 then 0 else h)
      else let h = rsdt_address m (rsdp s) in if checksum_calc m h (sdt_length m h) \<noteq> 0 then 0 else h)"

primrec rsdt_loop :: "nat \<Rightarrow> mem \<Rightarrow> u32 \<Rightarrow> u32 \<Rightarrow> u32 \<Rightarrow> u32" where
  "rsdt_loop 0 m sig rsdt i = 0"
| "rsdt_loop (Suc n) m sig rsdt i =
     (let h = rsdt_entry m rsdt i
      in if h = 0 then rsdt_loop n m sig rsdt (i + 1)
         else if ld32 m sig = signature_num m h \<and> checksum_calc m h (sdt_length m h) = 0 then h
         else rsdt_loop n m sig rsdt (i + 1))"

primrec xsdt_loop :: "nat \<Rightarrow> mem \<Rightarrow> u32 \<Rightarrow> u32 \<Rightarrow> u32 \<Rightarrow> u32" where
  "xsdt_loop 0 m sig xsdt i = 0"
| "xsdt_loop (Suc n) m sig xsdt i =
     (let h = xsdt_entry m xsdt i
      in if \<not> xsdt_entry_set m xsdt i then xsdt_loop n m sig xsdt (i + 1)
         else if ld32 m sig = signature_num m h \<and> checksum_calc m h (sdt_length m h) = 0 then h
         else xsdt_loop n m sig xsdt (i + 1))"

definition search_sdt_header :: "mem \<Rightarrow> u32 \<Rightarrow> acpi_state \<Rightarrow> u32" where
  "search_sdt_header m sig s =
     (let root = get_root_sdt_header m s
      in if root = 0 \<or> rsdp s = 0 then 0
         else if rsdp_revision m (rsdp s) = 0 then rsdt_loop (unat (sdt_length m root div 4)) m sig root 0
         else xsdt_loop (unat (sdt_length m root div 8)) m sig root 0)"

text \<open>The scan for the root pointer: every word from \<open>0xE0000\<close>, compared with the text \<open>"RSD PTR "\<close>; the
  bound is a signed comparison.\<close>

lemma sint_scan_step: "sint (eax :: u32) \<le> 0xFFFFF \<Longrightarrow> sint (eax + 4) = sint eax + 4"
  using sint_greater_eq [of eax] by (simp add: sint_word_ariths(1) signed_take_bit_int_eq_self)

function find_rsdp_loop :: "mem \<Rightarrow> u32 \<Rightarrow> u32" where
  "find_rsdp_loop m eax =
     (if 0xFFFFF < sint eax then 0
      else if ld32 m eax = 0x20445352 \<and> ld32 m (eax + 4) = 0x20525450 then eax
      else find_rsdp_loop m (eax + 4))"
  by pat_completeness auto
termination by (relation "measure (\<lambda>(m, eax). nat (0x100004 - sint eax))") (auto simp: sint_scan_step)

declare find_rsdp_loop.simps [simp del]

definition ll_find_rsdp :: "mem \<Rightarrow> u32" where
  "ll_find_rsdp m = find_rsdp_loop m 0xE0000"

text \<open>\<open>apic\<close> is the address of the string literal \<open>"APIC"\<close>.\<close>

definition acpi_init :: "mem \<Rightarrow> u32 \<Rightarrow> acpi_state \<Rightarrow> bool \<times> acpi_state" where
  "acpi_init m apic s =
     (let s = s\<lparr>rsdp := ll_find_rsdp m\<rparr>
      in if rsdp s = 0 then (False, s)
         else let s = s\<lparr>madt := search_sdt_header m apic s\<rparr> in (madt s \<noteq> 0, s))"

text \<open>The scan finds the first place with the text, among the 32768 words of the area.\<close>

definition rsdp_at :: "mem \<Rightarrow> nat \<Rightarrow> bool" where
  "rsdp_at m i \<longleftrightarrow> ld32 m (0xE0000 + of_nat (4 * i)) = 0x20445352 \<and> ld32 m (0xE0000 + of_nat (4 * i) + 4) = 0x20525450"

lemma find_rsdp_loop_first:
  assumes "i + n = 0x8000"
  shows "find_rsdp_loop m (0xE0000 + of_nat (4 * i)) =
    (case first_match (rsdp_at m) i n of None \<Rightarrow> 0 | Some j \<Rightarrow> 0xE0000 + of_nat (4 * j))"
  using assms
proof (induction n arbitrary: i)
  case 0
  then show ?case by (subst find_rsdp_loop.simps) simp
next
  case (Suc n)
  have "sint (0xE0000 + of_nat (4 * i) :: u32) = 0xE0000 + 4 * int i"
  proof -
    have "(0xE0000 + of_nat (4 * i) :: u32) = word_of_int (0xE0000 + 4 * int i)" by simp
    then show ?thesis using Suc.prems by (simp only: signed_of_int) (simp add: signed_take_bit_int_eq_self)
  qed
  moreover have "0xE0000 + of_nat (4 * i) + 4 = (0xE0000 + of_nat (4 * Suc i) :: u32)" by simp
  ultimately show ?case
    using Suc.IH [of "Suc i"] Suc.prems
    by (subst find_rsdp_loop.simps) (simp add: first_match_Suc rsdp_at_def [of m i] del: of_nat_mult)
qed

lemma ll_find_rsdp_first:
  "ll_find_rsdp m = (case find (rsdp_at m) [0 ..< 0x8000] of None \<Rightarrow> 0 | Some j \<Rightarrow> 0xE0000 + of_nat (4 * j))"
  using find_rsdp_loop_first [of 0 "0x8000" m] by (simp only: ll_find_rsdp_def first_match_def) simp

section \<open>Checksums and matches\<close>

definition byte_sum :: "mem \<Rightarrow> u32 \<Rightarrow> nat \<Rightarrow> nat" where
  "byte_sum m a n = (\<Sum>i<n. unat (m (a + of_nat i)))"

lemma byte_sum_Suc: "byte_sum m a (Suc n) = unat (m a) + byte_sum m (a + 1) n"
  unfolding byte_sum_def sum.lessThan_Suc_shift by (simp add: add.assoc)

lemma checksum_loop_sum: "checksum_loop n m data tot = tot + of_nat (byte_sum m data n)"
proof (induction n arbitrary: data tot)
  case (Suc n)
  show ?case by (simp add: Suc byte_sum_Suc of_nat_unat)
qed (simp add: byte_sum_def)

lemma checksum_calc_zero: "checksum_calc m a len = 0 \<longleftrightarrow> byte_sum m a (unat len) mod 256 = 0"
proof -
  have "(of_nat k :: u32) AND 0xFF = 0 \<longleftrightarrow> k mod 256 = 0" for k :: nat
  proof -
    have "(of_nat k :: u32) AND 0xFF = take_bit 8 (of_nat k)" by (simp add: take_bit_eq_mask mask_eq_exp_minus_1)
    also have "\<dots> = of_nat (k mod 256)" by (simp add: take_bit_of_nat take_bit_nat_def)
    finally have "(of_nat k :: u32) AND 0xFF = 0 \<longleftrightarrow> of_nat (k mod 256) = (0 :: u32)" by simp
    also have "\<dots> \<longleftrightarrow> k mod 256 = 0" 
    proof -
      have "unat (of_nat (k mod 256) :: u32) = k mod 256" by (simp add: unat_of_nat)
      then show ?thesis using unat_eq_zero [of "of_nat (k mod 256) :: u32"] by simp
    qed
    finally show ?thesis .
  qed
  then show ?thesis by (simp add: checksum_calc_def checksum_loop_sum)
qed

definition valid_sdt :: "mem \<Rightarrow> u32 \<Rightarrow> u32 \<Rightarrow> bool" where
  "valid_sdt m sig h \<longleftrightarrow> ld32 m h = ld32 m sig \<and> byte_sum m h (unat (ld32 m (h + 4))) mod 256 = 0"

text \<open>Entry \<open>i\<close> of the root table, of 4 or of 8 bytes, and whether it is what the search wants.\<close>

definition root_entry :: "bool \<Rightarrow> mem \<Rightarrow> u32 \<Rightarrow> nat \<Rightarrow> u32" where
  "root_entry wide m root i = ld32 m (root + 36 + (if wide then 8 else 4) * of_nat i)"

definition wanted :: "bool \<Rightarrow> mem \<Rightarrow> u32 \<Rightarrow> u32 \<Rightarrow> nat \<Rightarrow> bool" where
  "wanted wide m sig root i \<longleftrightarrow>
     (root_entry wide m root i \<noteq> 0 \<or> wide \<and> ld32 m (root + 36 + 8 * of_nat i + 4) \<noteq> 0) \<and> valid_sdt m sig (root_entry wide m root i)"

lemma rsdt_loop_first:
  "rsdt_loop n m sig rsdt (of_nat i) =
    (case first_match (wanted False m sig rsdt) i n of None \<Rightarrow> 0 | Some j \<Rightarrow> root_entry False m rsdt j)"
proof (induction n arbitrary: i)
  case (Suc n)
  show ?case using Suc.IH [of "Suc i"]
    by (auto simp: first_match_Suc Let_def add.commute wanted_def valid_sdt_def root_entry_def rsdt_entry_def signature_num_def
        sdt_length_def checksum_calc_zero)
qed simp

lemma xsdt_loop_first:
  "xsdt_loop n m sig xsdt (of_nat i) =
    (case first_match (wanted True m sig xsdt) i n of None \<Rightarrow> 0 | Some j \<Rightarrow> root_entry True m xsdt j)"
proof (induction n arbitrary: i)
  case (Suc n)
  show ?case using Suc.IH [of "Suc i"]
    by (auto simp: first_match_Suc Let_def add.commute wanted_def valid_sdt_def root_entry_def xsdt_entry_def xsdt_entry_set_def
        signature_num_def sdt_length_def checksum_calc_zero)
qed simp

section \<open>Properties\<close>

text \<open>The entries a root table of \<open>len\<close> bytes has.\<close>

definition sdt_count :: "bool \<Rightarrow> nat \<Rightarrow> nat" where
  "sdt_count wide len = (len - 36) div (if wide then 8 else 4)"

lemma search_sdt_header_first:
  assumes "get_root_sdt_header m s = root" "root \<noteq> 0" "wide \<longleftrightarrow> rsdp_revision m (rsdp s) \<noteq> 0"
  shows "search_sdt_header m sig s =
    (case first_match (wanted wide m sig root) 0 (unat (ld32 m (root + 4)) div (if wide then 8 else 4)) of
       None \<Rightarrow> 0 | Some j \<Rightarrow> root_entry wide m root j)"
proof -
  have "rsdp s \<noteq> 0" using assms by (auto simp: get_root_sdt_header_def)
  then show ?thesis
    using assms rsdt_loop_first [of _ m sig root 0] xsdt_loop_first [of _ m sig root 0]
    by (cases wide) (simp_all add: search_sdt_header_def sdt_length_def unat_div cong: option.case_cong)
qed


text \<open>A root table with one entry, which points to an empty table with the signature \<open>"APIC"\<close>.\<close>

definition acpi_demo :: mem where
  "acpi_demo = (\<lambda>_. 0)(0x10 := 0x41, 0x11 := 0x50, 0x12 := 0x49, 0x13 := 0x43, 0x30F := 0, 0x310 := 0x00, 0x311 := 0x04,
     0x404 := 40, 0x408 := 0xD3, 0x424 := 0x00, 0x425 := 0x05,
     0x500 := 0x41, 0x501 := 0x50, 0x502 := 0x49, 0x503 := 0x43, 0x504 := 44, 0x508 := 0xB7)"


end
