(* ===== verification/Plist.thy ===== *)
theory Plist
  imports Llist Heap
begin

text \<open>
  The pointer lists of \<^verbatim>\<open>src/klibc/plist.c\<close>: a list head and nodes \<open>{ptr, list}\<close>, so that the links of
  the node at \<open>n\<close> are at \<open>n + 4\<close>. The list operations are over byte memory, as in \<open>Llist\<close>; the two
  that call the allocator are operations of the machine. \<open>plist\<close> relates a list in memory to
  the sequence of its pointers, and the lemmas show that the operations act on that sequence: the
  theories of the tables that are kept in pointer lists use sequences.
\<close>

section \<open>Definitions\<close>

definition plist_init :: "mem \<Rightarrow> u32 \<Rightarrow> mem" where
  "plist_init m root = INIT_LIST_HEAD m root"

definition plist_size :: "mem \<Rightarrow> u32 \<Rightarrow> u32 option" where
  "plist_size m root = list_fold m root (\<lambda>iter size. size + 1) (next_of m root) 0"

definition plist_get :: "mem \<Rightarrow> u32 \<Rightarrow> u32" where
  "plist_get m iter = ld32 m (iter - 4)"

definition plist_add :: "mem \<Rightarrow> u32 \<Rightarrow> u32 \<Rightarrow> mem" where
  "plist_add m root node = list_add_tail m (node + 4) root"

definition plist_del :: "mem \<Rightarrow> u32 \<Rightarrow> mem" where
  "plist_del m node = list_del m (node + 4)"

text \<open>The stores of \<open>plist_alloc_node\<close>, on byte memory, and the whole function.\<close>

definition node_init :: "mem \<Rightarrow> u32 \<Rightarrow> u32 \<Rightarrow> mem" where
  "node_init m node p = set_next (set_prev (st32 m node p) (node + 4) 0) (node + 4) 0"

definition plist_alloc_node :: "symbols \<Rightarrow> u32 \<Rightarrow> (mstate, u32) op" where
  "plist_alloc_node L p =
     sbind (kmalloc L 12) (\<lambda>node.
     sthen (vst node p) (sthen (vst (node + 8) 0) (sthen (vst (node + 4) 0) (sret node))))"

definition plist_free_node :: "symbols \<Rightarrow> u32 \<Rightarrow> (mstate, unit) op" where
  "plist_free_node L node =
     sthen (v_list_del_entry (node + 4)) (sthen (vst (node + 4) 0) (sthen (vst (node + 8) 0) (kfree L node)))"

section \<open>The sequence in a list\<close>

definition apart_cell :: "u32 \<Rightarrow> u32 \<Rightarrow> bool" where
  "apart_cell c p \<longleftrightarrow> word_al c \<and> c \<noteq> p \<and> c \<noteq> p + 4"

definition plist :: "mem \<Rightarrow> u32 \<Rightarrow> u32 list \<Rightarrow> u32 list \<Rightarrow> bool" where
  "plist m root nodes ptrs \<longleftrightarrow> dlist m root (map (\<lambda>n. n + 4) nodes) \<and> ptrs = map (ld32 m) nodes \<and>
     (\<forall>n \<in> set nodes. \<forall>p \<in> insert root ((\<lambda>n. n + 4) ` set nodes). apart_cell n p)"

text \<open>A block from the allocator does not overlap the nodes.\<close>

definition fresh_node :: "u32 \<Rightarrow> u32 list \<Rightarrow> u32 \<Rightarrow> bool" where
  "fresh_node root nodes node \<longleftrightarrow> fresh (insert root ((\<lambda>n. n + 4) ` set nodes)) (node + 4) \<and>
     (\<forall>p \<in> insert root ((\<lambda>n. n + 4) ` insert node (set nodes)). apart_cell node p) \<and> (\<forall>n \<in> set nodes. apart_cell n (node + 4))"

lemma plist_init_empty: "word_al root \<Longrightarrow> plist (plist_init m root) root [] []"
  by (simp add: plist_def plist_init_def INIT_LIST_HEAD_dlist)

lemma plist_size_length: "plist m root nodes ptrs \<Longrightarrow> plist_size m root = Some (of_nat (length ptrs))"
proof -
  assume p: "plist m root nodes ptrs"
  have "fold (\<lambda>iter n. n + 1) xs (a :: u32) = a + of_nat (length xs)" for xs :: "u32 list" and a
    by (induction xs arbitrary: a) simp_all
  moreover have "plist_size m root = Some (fold (\<lambda>iter n. n + 1) (map (\<lambda>n. n + 4) nodes) 0)"
    using p unfolding plist_size_def plist_def by (intro list_fold_dlist) simp
  ultimately show ?thesis using p by (simp only: plist_def length_map add_0)
qed

lemma plist_get_node: "plist m root nodes ptrs \<Longrightarrow> i < length nodes \<Longrightarrow> plist_get m (nodes ! i + 4) = ptrs ! i"
  by (simp add: plist_def plist_get_def)

lemma ld32_set_apart: "apart_cell c p \<Longrightarrow> word_al p \<Longrightarrow> ld32 (set_next m p v) c = ld32 m c"
  "apart_cell c p \<Longrightarrow> word_al p \<Longrightarrow> ld32 (set_prev m p v) c = ld32 m c"
  by (auto simp: set_next_def set_prev_def apart_cell_def intro: ld32_st32_other)

lemma list_add_tail_cell:
  assumes "dlist m h xs" "word_al new" "\<forall>p \<in> insert new (insert h (set xs)). apart_cell c p"
  shows "ld32 (list_add_tail m new h) c = ld32 m c"
proof -
  have "last (h # xs) \<in> insert h (set xs)" using last_in_set [of "h # xs"] by (simp del: last.simps)
  moreover have "\<forall>p \<in> insert h (set xs). word_al p" using dlist_nodes [OF assms(1)] by (metis apart_self nodes_okD)
  ultimately show ?thesis
    using assms by (simp add: list_add_tail_def list_add_between_def Let_def dlist_head_prev ld32_set_apart)
qed

lemma list_del_cell:
  assumes "dlist m h (as @ x # bs)" "\<forall>p \<in> insert h (set (as @ x # bs)). apart_cell c p"
  shows "ld32 (list_del m x) c = ld32 m c"
proof -
  have "last (h # as) \<in> insert h (set as)" using last_in_set [of "h # as"] by (simp del: last.simps)
  moreover have "hd (bs @ [h]) \<in> insert h (set bs)" by (cases bs) simp_all
  moreover have "\<forall>p \<in> insert h (set (as @ x # bs)). word_al p"
    using dlist_nodes [OF assms(1)] by (metis apart_self nodes_okD)
  ultimately show ?thesis
    using assms by (auto simp: list_del_def list_del_between_def Let_def dlist_prev dlist_next ld32_set_apart)
qed

lemma plist_write_outside:
  assumes "plist m root nodes ptrs" "fresh_node root nodes node"
  shows "plist (node_init m node p) root nodes ptrs" "ld32 (node_init m node p) node = p"
proof -
  let ?links = "map (\<lambda>n. n + 4) nodes"
  have f: "fresh (insert root (set ?links)) (node + 4)" "word_al node" "word_al (node + 4)"
    and c: "\<forall>n \<in> set nodes. apart_cell n (node + 4)" "apart_cell node (node + 4)"
      "\<forall>p \<in> insert root (set ?links). apart_cell node p"
    using assms(2) by (auto simp: fresh_node_def fresh_def apart_cell_def)
  have al: "\<forall>p \<in> insert root (set ?links). word_al p"
    using assms(1) dlist_nodes [of m root ?links] unfolding plist_def by (metis apart_self nodes_okD)
  have "dlist (st32 m node p) root ?links"
  proof (rule dlist_frame)
    show "dlist m root ?links" using assms(1) by (simp add: plist_def)
    fix q assume "q \<in> insert root (set ?links)"
    with al c(3) have "word_al q" "apart_cell node q" by blast+
    with f(2) show "next_of (st32 m node p) q = next_of m q \<and> prev_of (st32 m node p) q = prev_of m q"
      by (simp add: next_of_def prev_of_def apart_cell_def ld32_st32_other)
  qed
  then have d: "dlist (node_init m node p) root ?links"
    unfolding node_init_def using f(1) by (intro dlist_write_outside)
  have n: "n \<in> set nodes \<Longrightarrow> ld32 (node_init m node p) n = ld32 m n" for n
  proof -
    assume n: "n \<in> set nodes"
    have "n \<noteq> node"
    proof
      assume "n = node"
      with n have "node + 4 \<in> set ?links" by auto
      with f(1) show False by (auto simp: fresh_def)
    qed
    moreover have "word_al n" using assms(1) n by (auto simp: plist_def apart_cell_def)
    ultimately show ?thesis using n c(1) f by (simp add: node_init_def ld32_set_apart ld32_st32_other)
  qed
  show "plist (node_init m node p) root nodes ptrs" using assms(1) d n by (auto simp: plist_def)
  show "ld32 (node_init m node p) node = p" using c(2) f(3) by (simp add: node_init_def ld32_set_apart)
qed

section \<open>Properties\<close>

text \<open>C28: a pointer list keeps a sequence of pointers: \<open>plist_add\<close> of a node that \<open>plist_alloc_node\<close> filled with
  a pointer appends that pointer, in memory of its own, and \<open>plist_del\<close> of a node removes its pointer
  and keeps the others in order; \<open>plist_size\<close> returns their number.\<close>

theorem plist_refines:
  assumes "plist m root nodes ptrs"
  shows "(fresh_node root nodes node \<longrightarrow> plist (plist_add (node_init m node p) root node) root (nodes @ [node]) (ptrs @ [p])) \<and>
    (i < length nodes \<longrightarrow> plist (plist_del m (nodes ! i)) root (take i nodes @ drop (Suc i) nodes) (take i ptrs @ drop (Suc i) ptrs)) \<and>
    plist_size m root = Some (of_nat (length ptrs))"
proof (intro conjI impI)
  let ?links = "\<lambda>ns. map (\<lambda>n. n + 4) ns"
  assume F: "fresh_node root nodes node"
  let ?m = "node_init m node p"
  have d: "dlist ?m root (?links nodes)" using plist_write_outside(1) [OF assms F] by (simp add: plist_def)
  have cells: "\<forall>n \<in> set (nodes @ [node]). \<forall>p \<in> insert root ((\<lambda>n. n + 4) ` set (nodes @ [node])). apart_cell n p"
    using assms F by (auto simp: plist_def fresh_node_def)
  have "dlist (plist_add ?m root node) root (?links (nodes @ [node]))"
    using list_add_tail_dlist [OF d] F by (simp add: plist_add_def fresh_node_def)
  moreover have "ld32 (plist_add ?m root node) n = ld32 ?m n" if "n \<in> set (nodes @ [node])" for n
    unfolding plist_add_def using F that cells by (intro list_add_tail_cell [OF d]) (auto simp: fresh_node_def fresh_def)
  ultimately show "plist (plist_add ?m root node) root (nodes @ [node]) (ptrs @ [p])"
    using plist_write_outside [OF assms F, of p] cells by (simp add: plist_def)
next
  let ?links = "\<lambda>ns. map (\<lambda>n. n + 4) ns"
  assume i: "i < length nodes"
  have e: "?links nodes = ?links (take i nodes) @ (nodes ! i + 4) # ?links (drop (Suc i) nodes)"
    using arg_cong [OF id_take_nth_drop [OF i], of "map (\<lambda>n. n + 4)"] by (simp only: map_append list.map)
  have d: "dlist m root (?links (take i nodes) @ (nodes ! i + 4) # ?links (drop (Suc i) nodes))"
    using assms e by (simp add: plist_def)
  have sub: "set (take i nodes @ drop (Suc i) nodes) \<subseteq> set nodes" by (auto dest: in_set_takeD in_set_dropD)
  have "ld32 (plist_del m (nodes ! i)) n = ld32 m n" if "n \<in> set nodes" for n
    unfolding plist_del_def
  proof (rule list_del_cell [OF d])
    show "\<forall>p \<in> insert root (set (?links (take i nodes) @ (nodes ! i + 4) # ?links (drop (Suc i) nodes))). apart_cell n p"
      using assms that unfolding e [symmetric] by (auto simp: plist_def)
  qed
  with sub have "map (ld32 (plist_del m (nodes ! i))) (take i nodes @ drop (Suc i) nodes) = map (ld32 m) (take i nodes @ drop (Suc i) nodes)"
    by (intro map_cong) auto
  moreover have "dlist (plist_del m (nodes ! i)) root (?links (take i nodes @ drop (Suc i) nodes))"
    using list_del_dlist [OF d] by (simp add: plist_del_def)
  moreover have "\<forall>n \<in> set (take i nodes @ drop (Suc i) nodes). \<forall>p \<in> insert root ((\<lambda>n. n + 4) ` set (take i nodes @ drop (Suc i) nodes)). apart_cell n p"
    using assms sub unfolding plist_def by blast
  moreover have "ptrs = map (ld32 m) nodes" using assms by (simp add: plist_def)
  ultimately show "plist (plist_del m (nodes ! i)) root (take i nodes @ drop (Suc i) nodes) (take i ptrs @ drop (Suc i) ptrs)"
    unfolding plist_def by (simp only: take_map drop_map map_append simp_thms)
next
  show "plist_size m root = Some (of_nat (length ptrs))" using assms by (rule plist_size_length)
qed

theorem plist_refines_witness:
  "plist (plist_add (node_init (plist_init (\<lambda>_. 0) 0x1000) 0x2000 7) 0x1000 0x2000) 0x1000 [0x2000] [7]"
proof -
  have "plist (plist_init (\<lambda>_. 0) 0x1000) 0x1000 [] []" by (rule plist_init_empty) (simp add: aligned_def mask_eq_exp_minus_1)
  moreover have "fresh_node 0x1000 [] 0x2000" by (simp add: fresh_node_def fresh_def apart_def apart_cell_def aligned_def mask_eq_exp_minus_1)
  ultimately show ?thesis using plist_refines [of _ "0x1000" "[]" "[]" "0x2000" 7] by simp
qed

end
