(* ===== verification/Apic.thy ===== *)
theory Apic
  imports Acpi Devices
begin

unbundle bit_operations_syntax

text \<open>
  The interrupt controllers, \<^verbatim>\<open>src/sys/apic.c\<close>: the parser of the MADT and the routing of the legacy
  interrupts through the I/O APICs. The table is firmware memory that the kernel only reads. The
  four pointer lists are the sequences of their pointers, which \<open>Plist\<close> shows the list code to
  keep, and the calls of \<open>vmm_map\<close> are recorded in order. An I/O APIC is its file of registers,
  selected by the low byte of the index register, as \<open>ioapic_read\<close> and \<open>ioapic_write\<close> of
  \<^verbatim>\<open>apic_asm.s\<close> access it. An entry of the table of size zero makes the parser loop for ever, so
  the loop is partial.
\<close>

section \<open>State and entries\<close>

record apic_state =
  lapic_base :: u32
  cpu_list :: "u32 list"
  iso_list :: "u32 list"
  ioapic_list :: "u32 list"
  nmi_list :: "u32 list"
  vmm_maps :: "(u32 \<times> u32) list"
  io_regs :: "u32 \<Rightarrow> u8 \<Rightarrow> u32"
  lapic_regs :: "u32 \<Rightarrow> u32"
  apic_base_msr :: u64
  apic_dev :: dev_state

definition local_apic_addr :: "mem \<Rightarrow> u32 \<Rightarrow> u32" where
  "local_apic_addr m p = ld32 m (p + 36)"

definition ioapic_addr :: "mem \<Rightarrow> u32 \<Rightarrow> u32" where
  "ioapic_addr m p = ld32 m (p + 2)"

definition gsi_base :: "mem \<Rightarrow> u32 \<Rightarrow> u32" where
  "gsi_base m p = ld32 m (p + 6)"

definition iso_irq_src :: "mem \<Rightarrow> u32 \<Rightarrow> u8" where
  "iso_irq_src m p = m (p + 1)"

definition iso_gsi :: "mem \<Rightarrow> u32 \<Rightarrow> u32" where
  "iso_gsi m p = ld32 m (p + 2)"

definition iso_flags :: "mem \<Rightarrow> u32 \<Rightarrow> u16" where
  "iso_flags m p = ld16 m (p + 6)"

definition local_apic_override :: "mem \<Rightarrow> u32 \<Rightarrow> u32" where
  "local_apic_override m p = ld32 m (p + 2)"

section \<open>The table\<close>

definition vmm_map_event :: "u32 \<Rightarrow> u32 \<Rightarrow> apic_state \<Rightarrow> apic_state" where
  "vmm_map_event a pages s = s\<lparr>vmm_maps := vmm_maps s @ [(a, pages)]\<rparr>"

definition madt_entry :: "mem \<Rightarrow> u8 \<Rightarrow> u32 \<Rightarrow> apic_state \<Rightarrow> apic_state" where
  "madt_entry m ty ent s =
     (if ty = 0 then s\<lparr>cpu_list := cpu_list s @ [ent]\<rparr>
      else if ty = 1 then vmm_map_event (ioapic_addr m ent) 2 (s\<lparr>ioapic_list := ioapic_list s @ [ent]\<rparr>)
      else if ty = 2 then s\<lparr>iso_list := iso_list s @ [ent]\<rparr>
      else if ty = 4 then s\<lparr>nmi_list := nmi_list s @ [ent]\<rparr>
      else if ty = 5 then s\<lparr>lapic_base := local_apic_override m ent\<rparr>
      else s)"

partial_function (option) madt_loop :: "mem \<Rightarrow> u32 \<Rightarrow> u32 \<Rightarrow> u32 \<Rightarrow> apic_state \<Rightarrow> apic_state option" where
  [code]: "madt_loop m entries n e s =
     (if e < n then
        (let ty = m (entries + e);
             sz = m (entries + (e + 1));
             e2 = e + 1 + 1
         in madt_loop m entries n (e2 + (ucast sz - 3) + 1) (madt_entry m ty (entries + e2) s))
      else Some s)"

definition parse_madt :: "mem \<Rightarrow> u32 \<Rightarrow> apic_state \<Rightarrow> (bool \<times> apic_state) option" where
  "parse_madt m md s =
     (if md = 0 then Some (False, s)
      else let s = vmm_map_event md 4 s;
               s = s\<lparr>lapic_base := local_apic_addr m md, cpu_list := [], iso_list := [], ioapic_list := [], nmi_list := []\<rparr>
           in map_option (\<lambda>s. (True, vmm_map_event (lapic_base s) 2 s))
                (madt_loop m (md + 44) (sdt_length m md - (36 + 4 + 4)) 0 s))"

section \<open>The I/O APIC\<close>

definition ioapic_read :: "u32 \<Rightarrow> u32 \<Rightarrow> apic_state \<Rightarrow> u32" where
  "ioapic_read base reg s = io_regs s base (ucast reg)"

definition ioapic_write :: "u32 \<Rightarrow> u32 \<Rightarrow> u32 \<Rightarrow> apic_state \<Rightarrow> apic_state" where
  "ioapic_write base reg v s = s\<lparr>io_regs := (io_regs s)(base := (io_regs s base)(ucast reg := v))\<rparr>"

definition apic_get_gsi_max :: "mem \<Rightarrow> u32 \<Rightarrow> apic_state \<Rightarrow> u8" where
  "apic_get_gsi_max m ioapic s = ucast (drop_bit 16 (ioapic_read (ioapic_addr m ioapic) 1 s)) AND NOT 0x80"

definition apic_find_valid_ioapic :: "mem \<Rightarrow> u32 \<Rightarrow> apic_state \<Rightarrow> u32" where
  "apic_find_valid_ioapic m gsi s =
     fold (\<lambda>ioapic valid. if gsi_base m ioapic \<le> gsi \<and> ucast (apic_get_gsi_max m ioapic s) + gsi_base m ioapic \<ge> gsi
             then ioapic else valid) (ioapic_list s) 0"

definition redirection_reg :: "mem \<Rightarrow> u32 \<Rightarrow> u32 \<Rightarrow> u32" where
  "redirection_reg m ioapic gsi = (gsi - gsi_base m ioapic) * 2 + 16"

definition apic_write_redirection_table :: "mem \<Rightarrow> u32 \<Rightarrow> u32 \<Rightarrow> u64 \<Rightarrow> apic_state \<Rightarrow> u8 \<times> apic_state" where
  "apic_write_redirection_table m ioapic gsi data s =
     (if ioapic = 0 then (1, s)
      else let a = ioapic_addr m ioapic; reg = redirection_reg m ioapic gsi
           in (0, ioapic_write a (reg + 1) (ucast (drop_bit 32 data)) (ioapic_write a reg (ucast data) s)))"

abbreviation (input) REDIRECT_TABLE_BAD_READ :: u64 where "REDIRECT_TABLE_BAD_READ \<equiv> 0xFFFFFFFFFFFFFFFF"

definition apic_read_redirection_table :: "mem \<Rightarrow> u32 \<Rightarrow> u32 \<Rightarrow> apic_state \<Rightarrow> u64" where
  "apic_read_redirection_table m ioapic gsi s =
     (if ioapic = 0 then REDIRECT_TABLE_BAD_READ
      else let a = ioapic_addr m ioapic; reg = redirection_reg m ioapic gsi
           in ucast (ioapic_read a reg s) OR push_bit 32 (ucast (ioapic_read a (reg + 1) s)))"

definition mask_gsi :: "mem \<Rightarrow> u32 \<Rightarrow> u32 \<Rightarrow> apic_state \<Rightarrow> apic_state" where
  "mask_gsi m ioapic gsi s =
     (let current = apic_read_redirection_table m ioapic gsi s
      in if current = REDIRECT_TABLE_BAD_READ then s
         else snd (apic_write_redirection_table m ioapic gsi (current OR 0x10000) s))"

definition redirect_data :: "u8 \<Rightarrow> u16 \<Rightarrow> u8 \<Rightarrow> u64" where
  "redirect_data irq flags apic =
     (let r = ucast irq + 32;
          r = (if flags AND 2 \<noteq> 0 then r OR 0x2000 else r);
          r = (if flags AND 8 \<noteq> 0 then r OR 0x8000 else r)
      in r OR push_bit 56 (ucast apic))"

definition redirect_gsi :: "mem \<Rightarrow> u32 \<Rightarrow> u8 \<Rightarrow> u32 \<Rightarrow> u16 \<Rightarrow> u8 \<Rightarrow> apic_state \<Rightarrow> apic_state" where
  "redirect_gsi m ioapic irq gsi flags apic s =
     snd (apic_write_redirection_table m ioapic gsi (redirect_data irq flags apic) s)"

definition apic_configure_ap :: "apic_state \<Rightarrow> apic_state" where
  "apic_configure_ap s =
     s\<lparr>apic_base_msr := (apic_base_msr s OR 0x800) AND NOT 0x400,
       lapic_regs := (lapic_regs s)(0xF0 := lapic_regs s 0xF0 OR 0x1FF)\<rparr>"

section \<open>Routing\<close>

text \<open>The bound is read from the controller again in every round; it is a seven bit number.\<close>

lemma and_not_80: "x AND NOT (0x80 :: u8) < 0x80"
proof -
  have "x AND NOT 0x80 = take_bit 7 x" by (rule bit_word_eqI) (auto simp: bit_simps less_Suc_eq numeral_eq_Suc)
  then show ?thesis by (simp add: word_less_nat_alt unsigned_take_bit_eq take_bit_nat_def)
qed

lemma gsi_max_small: "apic_get_gsi_max m ioapic s < 0x80"
  unfolding apic_get_gsi_max_def by (rule and_not_80)

function mask_loop :: "mem \<Rightarrow> u32 \<Rightarrow> u32 \<Rightarrow> apic_state \<Rightarrow> apic_state" where
  "mask_loop m ioapic gsi s =
     (if gsi < ucast (apic_get_gsi_max m ioapic s) then mask_loop m ioapic (gsi + 1) (mask_gsi m ioapic gsi s) else s)"
  by pat_completeness auto
termination
proof (relation "measure (\<lambda>(m, ioapic, gsi, s). 128 - unat gsi)", simp, goal_cases)
  case (1 m ioapic gsi s)
  have "unat (apic_get_gsi_max m ioapic s) < 128"
    using gsi_max_small [of m ioapic s] by (simp add: word_less_nat_alt)
  with 1 have "unat gsi < 128" by (simp add: word_less_nat_alt unsigned_ucast_eq take_bit_nat_eq_self)
  then have "unat (gsi + 1) = unat gsi + 1" by (simp add: unat_word_ariths)
  then show ?case using \<open>unat gsi < 128\<close> by simp
qed

declare mask_loop.simps [simp del]

text \<open>The state of the two loops over the overrides and over the sixteen interrupts: \<open>mapped_irqs\<close> and the machine.\<close>

definition iso_step :: "mem \<Rightarrow> u32 \<Rightarrow> u32 \<Rightarrow> u32 \<Rightarrow> bool list \<times> apic_state \<Rightarrow> bool list \<times> apic_state" where
  "iso_step m ioapic gsi_max ovr ms =
     (if gsi_base m ioapic \<le> iso_gsi m ovr \<and> gsi_max \<ge> iso_gsi m ovr then
        (if iso_gsi m ovr < 16 then (fst ms)[unat (iso_gsi m ovr) := True] else fst ms,
         redirect_gsi m ioapic (iso_irq_src m ovr) (iso_gsi m ovr) (iso_flags m ovr) 0 (snd ms))
      else ms)"

definition ioapic_step :: "mem \<Rightarrow> u32 \<Rightarrow> bool list \<times> apic_state \<Rightarrow> bool list \<times> apic_state" where
  "ioapic_step m ioapic ms =
     (let s = mask_loop m ioapic (gsi_base m ioapic) (snd ms);
          gsi_max = ucast (apic_get_gsi_max m ioapic s) + gsi_base m ioapic
      in fold (iso_step m ioapic gsi_max) (iso_list s) (fst ms, s))"

definition legacy_step :: "mem \<Rightarrow> bool list \<Rightarrow> nat \<Rightarrow> apic_state \<Rightarrow> apic_state" where
  "legacy_step m mapped_irqs i s =
     (if \<not> mapped_irqs ! i then
        redirect_gsi m (apic_find_valid_ioapic m (of_nat i) s) (of_nat i) (of_nat i) 0 0 s
      else s)"

definition apic_route :: "mem \<Rightarrow> apic_state \<Rightarrow> apic_state" where
  "apic_route m s =
     (let (mapped_irqs, s) = fold (ioapic_step m) (ioapic_list s) (replicate 16 False, s)
      in fold (legacy_step m mapped_irqs) [0 ..< 16] s)"

definition apic_configure :: "mem \<Rightarrow> u32 \<Rightarrow> apic_state \<Rightarrow> (u32 \<times> apic_state) res" where
  "apic_configure m md s =
     rbind (pic_disable (apic_dev s)) (\<lambda>(_, d).
     case parse_madt m md (s\<lparr>apic_dev := d\<rparr>) of
       None \<Rightarrow> Inl Diverges
     | Some (ok, s) \<Rightarrow> if \<not> ok then Inr (1, s) else Inr (0, apic_route m (apic_configure_ap s)))"

section \<open>The parser against the encoding of the table\<close>

text \<open>A table is a sequence of entries, each a type, its size with the two leading bytes, and its bytes.\<close>

definition madt_bytes :: "(u8 \<times> u8 list) list \<Rightarrow> u8 list" where
  "madt_bytes es = concat (map (\<lambda>(ty, bs). ty # of_nat (length bs + 2) # bs) es)"

primrec madt_places :: "u32 \<Rightarrow> (u8 \<times> u8 list) list \<Rightarrow> (u8 \<times> u32) list" where
  "madt_places a [] = []"
| "madt_places a (e # es) = (fst e, a + 2) # madt_places (a + 2 + of_nat (length (snd e))) es"

lemma madt_bytes_Cons: "madt_bytes (e # es) = fst e # of_nat (length (snd e) + 2) # snd e @ madt_bytes es"
  by (simp add: madt_bytes_def split: prod.splits)

lemma ucast_of_nat_u8: "j < 256 \<Longrightarrow> (ucast (of_nat j :: u8) :: u32) = of_nat j"
  by (intro word_unat_eq_iff [THEN iffD2]) (simp add: unsigned_ucast_eq unat_of_nat take_bit_nat_eq_self)

lemma madt_next:
  fixes e :: u32
  assumes "k \<le> 253"
  shows "e + 1 + 1 + (ucast (of_nat (k + 2) :: u8) - 3) + 1 = e + 2 + of_nat k"
  using assms by (simp only: ucast_of_nat_u8) simp

lemma madt_loop_places:
  assumes "bytes_at m (a + e) (madt_bytes es)" and "\<forall>x \<in> set es. length (snd x) \<le> 253"
    and "unat e + length (madt_bytes es) \<le> unat n"
  shows "madt_loop m a n e s =
    madt_loop m a n (e + of_nat (length (madt_bytes es))) (fold (case_prod (madt_entry m)) (madt_places (a + e) es) s)"
  using assms
proof (induction es arbitrary: e s)
  case Nil
  then show ?case by (simp add: madt_bytes_def)
next
  case (Cons x es)
  obtain ty bs where x: "x = (ty, bs)" by (cases x)
  have k: "length bs \<le> 253" using Cons.prems(2) x by simp
  have n: "unat e + length bs + 2 + length (madt_bytes es) \<le> unat n"
    using Cons.prems(3) x by (simp add: madt_bytes_Cons)
  then have lt: "e < n" by (simp add: word_less_nat_alt)
  let ?e = "e + 2 + of_nat (length bs)"
  have u: "unat ?e = unat e + length bs + 2"
  proof -
    have "unat e + length bs + 2 < 4294967296" using n unat_less_2p32 [of n] by linarith
    then have "unat e + length bs + 2 < 2 ^ 32" by simp
    then have "unat (of_nat (unat e + length bs + 2) :: u32) = unat e + length bs + 2" by (rule unat_of_nat_small)
    then show ?thesis by (simp add: algebra_simps)
  qed
  have b: "m (a + e) = ty" "m (a + (e + 1)) = of_nat (length bs + 2)" "bytes_at m (a + ?e) (madt_bytes es)"
    using Cons.prems(1) x by (simp_all add: madt_bytes_Cons algebra_simps)
  have "madt_loop m a n e s = madt_loop m a n ?e (madt_entry m ty (a + e + 2) s)"
    by (subst madt_loop.simps) (simp only: lt if_True Let_def b madt_next [OF k], simp add: algebra_simps)
  also have "\<dots> = madt_loop m a n (?e + of_nat (length (madt_bytes es)))
      (fold (case_prod (madt_entry m)) (madt_places (a + ?e) es) (madt_entry m ty (a + e + 2) s))"
    using Cons.prems(2) n u by (intro Cons.IH b) simp_all
  finally show ?case by (simp add: x madt_bytes_Cons algebra_simps)
qed

lemma madt_loop_stuck:
  assumes "e < n" "m (a + e + 1) = 0"
  shows "madt_loop m a n e s = None"
proof (rule ccontr)
  assume "madt_loop m a n e s \<noteq> None"
  then obtain t where t: "madt_loop m a n e s = Some t" by blast
  have "\<not> (a' = a \<and> n' = n \<and> e' = e \<and> m' = m)" if "madt_loop m' a' n' e' s' = Some t'" for m' a' n' e' s' t'
    using that
  proof (induction rule: madt_loop.raw_induct [rotated -1, consumes 1])
    case (1 loop m' a' n' e' s' t')
    from 1(2) assms show ?case by (auto simp: Let_def algebra_simps split: if_splits dest!: 1(1))
  qed
  with t show False by blast
qed

text \<open>The pointers to the entries of one type.\<close>

definition of_type :: "u8 \<Rightarrow> (u8 \<times> u32) list \<Rightarrow> u32 list" where
  "of_type ty ps = map snd (filter (\<lambda>p. fst p = ty) ps)"

lemma of_type_simps [simp]:
  "of_type ty [] = []" "of_type ty (p # ps) = (if fst p = ty then snd p # of_type ty ps else of_type ty ps)"
  by (simp_all add: of_type_def)

lemma madt_entries_collect:
  "fold (case_prod (madt_entry m)) ps s =
    s\<lparr>lapic_base := last (lapic_base s # map (local_apic_override m) (of_type 5 ps)),
      cpu_list := cpu_list s @ of_type 0 ps, iso_list := iso_list s @ of_type 2 ps,
      ioapic_list := ioapic_list s @ of_type 1 ps, nmi_list := nmi_list s @ of_type 4 ps,
      vmm_maps := vmm_maps s @ map (\<lambda>p. (ioapic_addr m p, 2)) (of_type 1 ps)\<rparr>"
proof (induction ps arbitrary: s)
  case (Cons q ps)
  obtain ty p where q: "q = (ty, p)" by (cases q)
  have "fold (case_prod (madt_entry m)) (q # ps) s = fold (case_prod (madt_entry m)) ps (madt_entry m ty p s)"
    by (simp add: q)
  then show ?case by (simp only: Cons.IH) (simp add: q madt_entry_def vmm_map_event_def)
qed simp

lemma parse_entries:
  fixes m :: mem and md :: u32 and es :: "(u8 \<times> u8 list) list"
  defines "ps \<equiv> madt_places (md + 44) es" and "len \<equiv> length (madt_bytes es)"
  assumes "md \<noteq> 0" and "bytes_at m (md + 44) (madt_bytes es)" and "\<forall>x \<in> set es. length (snd x) \<le> 253"
    and "44 \<le> unat (ld32 m (md + 4))" and "len \<le> unat (ld32 m (md + 4)) - 44"
  shows "(unat (ld32 m (md + 4)) = 44 + len \<longrightarrow> (\<exists>s'. parse_madt m md s = Some (True, s') \<and>
      cpu_list s' = of_type 0 ps \<and> ioapic_list s' = of_type 1 ps \<and> iso_list s' = of_type 2 ps \<and> nmi_list s' = of_type 4 ps \<and>
      lapic_base s' = last (ld32 m (md + 36) # map (local_apic_override m) (of_type 5 ps)) \<and>
      vmm_maps s' = vmm_maps s @ (md, 4) # map (\<lambda>p. (ioapic_addr m p, 2)) (of_type 1 ps) @ [(lapic_base s', 2)] \<and>
      io_regs s' = io_regs s)) \<and>
    (44 + len < unat (ld32 m (md + 4)) \<and> m (md + 44 + of_nat len + 1) = 0 \<longrightarrow> parse_madt m md s = None)"
proof -
  let ?n = "sdt_length m md - 44"
  have n: "unat ?n = unat (ld32 m (md + 4)) - 44"
    using assms(6) by (simp add: sdt_length_def unat_sub word_le_nat_alt)
  have l: "unat (of_nat len :: u32) = len"
  proof (rule unat_of_nat_small)
    have "len < 4294967296" using assms(7) unat_less_2p32 [of "ld32 m (md + 4)"] by linarith
    then show "len < 2 ^ 32" by simp
  qed
  have w: "madt_loop m (md + 44) ?n 0 t =
      madt_loop m (md + 44) ?n (of_nat len) (fold (case_prod (madt_entry m)) ps t)" for t
    using madt_loop_places [of m "md + 44" 0 es ?n t] assms(4,5,7) n by (simp add: ps_def len_def)
  have "madt_loop m (md + 44) ?n (of_nat len) t = Some t" if "unat (ld32 m (md + 4)) = 44 + len" for t
    using that n l by (subst madt_loop.simps) (simp add: word_less_nat_alt)
  moreover have "madt_loop m (md + 44) ?n (of_nat len) t = None"
    if "44 + len < unat (ld32 m (md + 4))" "m (md + 44 + of_nat len + 1) = 0" for t
    using that n l by (intro madt_loop_stuck) (simp_all add: word_less_nat_alt)
  ultimately show ?thesis
    using assms(3) by (auto simp: parse_madt_def Let_def w madt_entries_collect vmm_map_event_def local_apic_addr_def)
qed

text \<open>C25: the parser of the MADT inverts the encoding of the table: on a table that holds a sequence of entries it
  returns, and the four lists are the entries of their types in the order of the table, the address of
  the local APIC is the last override or else the one of the header, and the mappings asked for are
  the table, every I/O APIC and the local APIC. An entry of size zero behind such a sequence makes
  it loop for ever.\<close>

theorem parse_madt_correct:
  fixes m :: mem and md :: u32 and es :: "(u8 \<times> u8 list) list"
  defines "ps \<equiv> madt_places (md + 44) es" and "len \<equiv> length (madt_bytes es)"
  assumes "md \<noteq> 0" and "bytes_at m (md + 44) (madt_bytes es)" and "\<forall>x \<in> set es. length (snd x) \<le> 253"
    and "44 \<le> unat (ld32 m (md + 4))" and "len \<le> unat (ld32 m (md + 4)) - 44"
  shows "(unat (ld32 m (md + 4)) = 44 + len \<longrightarrow> (\<exists>s'. parse_madt m md s = Some (True, s') \<and>
      cpu_list s' = of_type 0 ps \<and> ioapic_list s' = of_type 1 ps \<and> iso_list s' = of_type 2 ps \<and> nmi_list s' = of_type 4 ps \<and>
      lapic_base s' = last (ld32 m (md + 36) # map (local_apic_override m) (of_type 5 ps)) \<and>
      vmm_maps s' = vmm_maps s @ (md, 4) # map (\<lambda>p. (ioapic_addr m p, 2)) (of_type 1 ps) @ [(lapic_base s', 2)] \<and>
      io_regs s' = io_regs s)) \<and>
    (44 + len < unat (ld32 m (md + 4)) \<and> m (md + 44 + of_nat len + 1) = 0 \<longrightarrow> parse_madt m md s = None)"
  using assms(3-) parse_entries [of md m es s] unfolding ps_def len_def by blast

text \<open>A table with a processor and an I/O APIC with the ID 1 at \<open>0xFEC00000\<close>.\<close>

definition madt_demo :: mem where
  "madt_demo a = (if a = 0x504 then 64 else if 0x52C \<le> a \<and> a < 0x540
     then [0, 8, 0, 0, 1, 0, 0, 0, 1, 12, 1, 0, 0, 0, 0xC0, 0xFE, 0, 0, 0, 0] ! unat (a - 0x52C) else 0)"

definition demo_apic :: apic_state where
  "demo_apic = \<lparr>lapic_base = 0, cpu_list = [], iso_list = [], ioapic_list = [], nmi_list = [], vmm_maps = [],
     io_regs = (\<lambda>_. (\<lambda>_. 0)(1 := 0x170000)), lapic_regs = (\<lambda>_. 0), apic_base_msr = 0, apic_dev = demo_dev\<rparr>"

theorem parse_madt_correct_witness:
  "\<exists>s'. parse_madt madt_demo 0x500 demo_apic = Some (True, s') \<and> cpu_list s' = [0x52E] \<and> ioapic_list s' = [0x536] \<and>
     vmm_maps s' = [(0x500, 4), (0xFEC00000, 2), (0, 2)]"
proof -
  let ?es = "[(0, [0, 0, 1, 0, 0, 0]), (1, [1, 0, 0, 0, 0xC0, 0xFE, 0, 0, 0, 0])] :: (u8 \<times> u8 list) list"
  have l: "ld32 madt_demo 0x504 = 64" "ld32 madt_demo 0x524 = 0" "ioapic_addr madt_demo 0x536 = 0xFEC00000" by code_simp+
  have "bytes_at madt_demo 0x52C (madt_bytes ?es)" by (simp add: madt_bytes_def madt_demo_def)
  moreover have "vmm_maps demo_apic = []" by (simp add: demo_apic_def)
  ultimately show ?thesis
    using parse_madt_correct [of "0x500" madt_demo ?es demo_apic] l by (auto simp: madt_bytes_def)
qed

section \<open>Routing through one I/O APIC\<close>

text \<open>
  The entry of interrupt \<open>g\<close> in the redirection table of an I/O APIC that serves the interrupts from
  zero up. The register index is a byte, so 120 entries fit.
\<close>

definition redirection :: "mem \<Rightarrow> u32 \<Rightarrow> apic_state \<Rightarrow> nat \<Rightarrow> u64" where
  "redirection m p s g = apic_read_redirection_table m p (of_nat g) s"

definition serves :: "mem \<Rightarrow> u32 \<Rightarrow> nat \<Rightarrow> apic_state \<Rightarrow> bool" where
  "serves m p mx s \<longleftrightarrow> p \<noteq> 0 \<and> gsi_base m p = 0 \<and> unat (apic_get_gsi_max m p s) = mx \<and> mx < 120"

definition red_lo :: "nat \<Rightarrow> u8" where "red_lo g = of_nat (2 * g + 16)"

definition red_hi :: "nat \<Rightarrow> u8" where "red_hi g = of_nat (2 * g + 17)"

lemma ucast_of_nat_u32: "ucast (of_nat n :: u32) = (of_nat n :: u8)"
  by (intro word_unat_eq_iff [THEN iffD2]) (simp add: unsigned_ucast_eq unsigned_of_nat)

lemma reg_index:
  "ucast ((of_nat g * 2 + 16) :: u32) = red_lo g" "ucast ((of_nat g * 2 + 16 + 1) :: u32) = red_hi g"
  using ucast_of_nat_u32 [of "2 * g + 16"] ucast_of_nat_u32 [of "2 * g + 17"]
  by (simp_all add: red_lo_def red_hi_def algebra_simps)

lemma of_nat_u8_inj:
  assumes "i < 256" "j < 256"
  shows "(of_nat i :: u8) = of_nat j \<longleftrightarrow> i = j"
  using assms by (simp add: word_unat_eq_iff unsigned_of_nat take_bit_nat_eq_self)

lemma reg_distinct:
  assumes "g < 120"
  shows "red_lo g \<noteq> 1" "red_hi g \<noteq> 1" "h < 120 \<Longrightarrow> red_lo h = red_lo g \<longleftrightarrow> h = g"
    "h < 120 \<Longrightarrow> red_hi h = red_hi g \<longleftrightarrow> h = g" "h < 120 \<Longrightarrow> red_lo h \<noteq> red_hi g" "h < 120 \<Longrightarrow> red_hi h \<noteq> red_lo g"
proof -
  show "red_lo g \<noteq> 1" "red_hi g \<noteq> 1"
    using of_nat_u8_inj [of "2 * g + 16" 1] of_nat_u8_inj [of "2 * g + 17" 1] assms by (simp_all add: red_lo_def red_hi_def)
  assume h: "h < 120"
  show "red_lo h = red_lo g \<longleftrightarrow> h = g" "red_hi h = red_hi g \<longleftrightarrow> h = g" "red_lo h \<noteq> red_hi g" "red_hi h \<noteq> red_lo g"
    unfolding red_lo_def red_hi_def using assms h by (subst of_nat_u8_inj; simp; presburger)+
qed

lemma halves: "ucast (ucast d :: u32) OR push_bit 32 (ucast (ucast (drop_bit 32 d) :: u32)) = (d :: u64)"
  by (rule bit_word_eqI) (auto simp: bit_simps)

lemma write_redirection:
  fixes s :: apic_state and d :: u64
  assumes "serves m p mx s" "g < 120"
  defines "s' \<equiv> snd (apic_write_redirection_table m p (of_nat g) d s)"
  shows "h < 120 \<Longrightarrow> redirection m p s' h = (if h = g then d else redirection m p s h)"
    and "serves m p mx s'" "ioapic_list s' = ioapic_list s" "iso_list s' = iso_list s"
proof -
  let ?A = "ioapic_addr m p"
  have s': "s' = s\<lparr>io_regs := (io_regs s)(?A := (io_regs s ?A)(red_lo g := ucast d, red_hi g := ucast (drop_bit 32 d)))\<rparr>"
    using assms(1) reg_index [of g]
    by (simp add: s'_def apic_write_redirection_table_def serves_def Let_def redirection_reg_def ioapic_write_def)
  show "h < 120 \<Longrightarrow> redirection m p s' h = (if h = g then d else redirection m p s h)"
    using assms(1) reg_index [of h] reg_distinct(3-6) [OF assms(2), of h]
    by (simp add: redirection_def apic_read_redirection_table_def serves_def redirection_reg_def Let_def ioapic_read_def s' halves)
  have "io_regs s' ?A 1 = io_regs s ?A 1" using reg_distinct(1,2) [OF assms(2)] by (simp add: s')
  then show "serves m p mx s'" using assms(1) by (simp add: serves_def apic_get_gsi_max_def ioapic_read_def)
  show "ioapic_list s' = ioapic_list s" "iso_list s' = iso_list s" by (simp_all add: s')
qed

definition masked :: "u64 \<Rightarrow> u64" where
  "masked d = (if d = REDIRECT_TABLE_BAD_READ then d else d OR 0x10000)"

text \<open>What a step does to the controller: a new redirection table, and nothing else that matters here.\<close>

definition rerouted :: "mem \<Rightarrow> u32 \<Rightarrow> nat \<Rightarrow> apic_state \<Rightarrow> apic_state \<Rightarrow> (nat \<Rightarrow> u64) \<Rightarrow> bool" where
  "rerouted m p mx s s' t \<longleftrightarrow> serves m p mx s' \<and> ioapic_list s' = ioapic_list s \<and> iso_list s' = iso_list s \<and>
     (\<forall>h < 120. redirection m p s' h = t h)"

lemma rerouted_refl: "serves m p mx s \<Longrightarrow> rerouted m p mx s s (redirection m p s)"
  by (simp add: rerouted_def)

lemma rerouted_trans:
  "rerouted m p mx s s1 t1 \<Longrightarrow> rerouted m p mx s1 s2 t2 \<Longrightarrow> rerouted m p mx s s2 t2"
  by (simp add: rerouted_def)

lemma rerouted_write:
  assumes "serves m p mx s" "g < 120"
  shows "rerouted m p mx s (snd (apic_write_redirection_table m p (of_nat g) d s)) ((redirection m p s)(g := d))"
  using write_redirection [OF assms] by (simp add: rerouted_def)

lemma rerouted_mask_gsi:
  assumes "serves m p mx s" "g < 120"
  shows "rerouted m p mx s (mask_gsi m p (of_nat g) s) ((redirection m p s)(g := masked (redirection m p s g)))"
proof (cases "redirection m p s g = REDIRECT_TABLE_BAD_READ")
  case True
  then show ?thesis using assms by (simp add: mask_gsi_def redirection_def masked_def rerouted_def)
next
  case False
  then show ?thesis using rerouted_write [OF assms, of "redirection m p s g OR 0x10000"]
    by (simp add: mask_gsi_def redirection_def [symmetric] masked_def Let_def)
qed

lemma rerouted_mask_loop:
  assumes "serves m p mx s" "g \<le> mx"
  shows "rerouted m p mx s (mask_loop m p (of_nat g) s)
    (\<lambda>h. if g \<le> h \<and> h < mx then masked (redirection m p s h) else redirection m p s h)"
  using assms
proof (induction "mx - g" arbitrary: g s)
  case 0
  then have "\<not> (of_nat g :: u32) < ucast (apic_get_gsi_max m p s)"
    by (simp add: serves_def word_less_nat_alt unsigned_ucast_eq unat_of_nat take_bit_nat_eq_self)
  then have "mask_loop m p (of_nat g) s = s" by (subst mask_loop.simps) simp
  then show ?case using 0 by (auto simp: rerouted_def)
next
  case (Suc n)
  have g: "g < 120" "g < mx" using Suc by (auto simp: serves_def)
  then have "(of_nat g :: u32) < ucast (apic_get_gsi_max m p s)"
    using Suc.prems by (simp add: serves_def word_less_nat_alt unsigned_ucast_eq unat_of_nat take_bit_nat_eq_self)
  then have e: "mask_loop m p (of_nat g) s = mask_loop m p (of_nat (Suc g)) (mask_gsi m p (of_nat g) s)"
    by (subst mask_loop.simps) (simp add: add.commute)
  let ?s = "mask_gsi m p (of_nat g) s"
  have 1: "rerouted m p mx s ?s ((redirection m p s)(g := masked (redirection m p s g)))"
    using Suc.prems(1) g(1) by (rule rerouted_mask_gsi)
  then have r: "redirection m p ?s h = ((redirection m p s)(g := masked (redirection m p s g))) h" if "h < 120" for h
    using that by (simp add: rerouted_def)
  have "rerouted m p mx ?s (mask_loop m p (of_nat (Suc g)) ?s)
      (\<lambda>h. if Suc g \<le> h \<and> h < mx then masked (redirection m p ?s h) else redirection m p ?s h)"
    using Suc.hyps(2) g 1 by (intro Suc.hyps(1)) (auto simp: rerouted_def)
  then show ?case
    using 1 g r unfolding e rerouted_def by (auto simp: Suc_le_eq)
qed

text \<open>The entry an interrupt source override asks for, the last one in the table winning.\<close>

definition override :: "mem \<Rightarrow> u32 list \<Rightarrow> nat \<Rightarrow> u32 option" where
  "override m isos h = find (\<lambda>o'. iso_gsi m o' = of_nat h) (rev isos)"

definition override_data :: "mem \<Rightarrow> u32 \<Rightarrow> u64" where
  "override_data m o' = redirect_data (iso_irq_src m o') (iso_flags m o') 0"

lemma override_snoc: "override m (isos @ [x]) h = (if iso_gsi m x = of_nat h then Some x else override m isos h)"
  by (simp add: override_def)

lemma iso_steps:
  assumes "serves m p mx s" "15 \<le> mx"
  shows "\<exists>s'. fold (iso_step m p (of_nat mx)) isos (replicate 16 False, s) = (map (\<lambda>i. override m isos i \<noteq> None) [0 ..< 16], s') \<and>
    rerouted m p mx s s' (\<lambda>h. if h \<le> mx then (case override m isos h of Some x \<Rightarrow> override_data m x | None \<Rightarrow> redirection m p s h)
      else redirection m p s h)"
proof (induction isos rule: rev_induct)
  case Nil
  have "replicate 16 False = map (\<lambda>i. override m [] i \<noteq> None) [0 ..< 16]"
    by (simp add: override_def map_replicate_const)
  moreover have "rerouted m p mx s s (\<lambda>h. if h \<le> mx then (case override m [] h of Some x \<Rightarrow> override_data m x | None \<Rightarrow> redirection m p s h)
      else redirection m p s h)"
    using assms(1) by (simp add: rerouted_def override_def)
  ultimately show ?case by auto
next
  case (snoc x isos)
  let ?t = "\<lambda>isos h. if h \<le> mx then (case override m isos h of Some x \<Rightarrow> override_data m x | None \<Rightarrow> redirection m p s h) else redirection m p s h"
  obtain s1 where s1: "fold (iso_step m p (of_nat mx)) isos (replicate 16 False, s) = (map (\<lambda>i. override m isos i \<noteq> None) [0 ..< 16], s1)"
    "rerouted m p mx s s1 (?t isos)" using snoc by blast
  define g where "g = unat (iso_gsi m x)"
  have g: "iso_gsi m x = of_nat g" by (simp add: g_def)
  have mx: "mx < 120" using assms by (simp add: serves_def)
  have eq: "iso_gsi m x = of_nat h \<longleftrightarrow> h = g" if "h < 120" for h
    using that by (auto simp: g_def unat_of_nat)
  have base: "gsi_base m p = 0" using assms(1) by (simp add: serves_def)
  have le: "iso_gsi m x \<le> of_nat mx \<longleftrightarrow> g \<le> mx" using mx by (simp add: word_le_nat_alt g_def unat_of_nat)
  have lt: "iso_gsi m x < 16 \<longleftrightarrow> g < 16" by (simp add: word_less_nat_alt g_def)
  show ?case
  proof (cases "g \<le> mx")
    case True
    let ?s = "redirect_gsi m p (iso_irq_src m x) (of_nat g) (iso_flags m x) 0 s1"
    have "rerouted m p mx s1 ?s ((redirection m p s1)(g := override_data m x))"
      unfolding redirect_gsi_def override_data_def
      using s1(2) True mx by (intro rerouted_write) (auto simp: rerouted_def)
    then have "rerouted m p mx s ?s (?t (isos @ [x]))"
      using s1(2) True mx eq by (auto simp: rerouted_def override_snoc)
    moreover have "(if g < 16 then (map (\<lambda>i. override m isos i \<noteq> None) [0 ..< 16])[g := True] else map (\<lambda>i. override m isos i \<noteq> None) [0 ..< 16]) =
        map (\<lambda>i. override m (isos @ [x]) i \<noteq> None) [0 ..< 16]"
      using eq by (cases "g < 16"; intro nth_equalityI; simp add: nth_list_update override_snoc)
    moreover have "iso_step m p (of_nat mx) x (M, s1) = (if g < 16 then M[g := True] else M, ?s)" for M
      using True le lt by (simp add: iso_step_def base g) (simp add: g_def)
    ultimately show ?thesis using s1(1) by (simp only: fold_append comp_apply fold_simps) auto
  next
    case False
    have "rerouted m p mx s s1 (?t (isos @ [x]))"
      using s1(2) False mx eq by (auto simp: rerouted_def override_snoc)
    moreover have "map (\<lambda>i. override m isos i \<noteq> None) [0 ..< 16] = map (\<lambda>i. override m (isos @ [x]) i \<noteq> None) [0 ..< 16]"
      using eq False assms(2) by (intro nth_equalityI) (auto simp: override_snoc)
    moreover have "iso_step m p (of_nat mx) x (M, s1) = (M, s1)" for M using False le by (simp add: iso_step_def base)
    ultimately show ?thesis using s1(1) by (simp only: fold_append comp_apply fold_simps) auto
  qed
qed

lemma redirect_data_legacy: "h < 16 \<Longrightarrow> redirect_data (of_nat h) 0 0 = of_nat (h + 32)"
proof -
  assume h: "h < 16"
  have "(ucast (of_nat h :: u8) :: u64) = of_nat h"
    using h by (intro word_unat_eq_iff [THEN iffD2]) (simp add: unsigned_ucast_eq unsigned_of_nat take_bit_nat_eq_self)
  then show ?thesis by (simp add: redirect_data_def)
qed

lemma legacy_steps:
  assumes "serves m p mx s" "15 \<le> mx" "ioapic_list s = [p]" "n \<le> 16"
  shows "rerouted m p mx s (fold (legacy_step m mapped) [0 ..< n] s)
    (\<lambda>h. if h < n \<and> \<not> mapped ! h then of_nat (h + 32) else redirection m p s h)"
  using assms(4)
proof (induction n)
  case 0
  then show ?case using assms(1) by (simp add: rerouted_def)
next
  case (Suc n)
  let ?s = "fold (legacy_step m mapped) [0 ..< n] s"
  have r: "rerouted m p mx s ?s (\<lambda>h. if h < n \<and> \<not> mapped ! h then of_nat (h + 32) else redirection m p s h)"
    using Suc by simp
  then have sv: "serves m p mx ?s" "ioapic_list ?s = [p]" using assms(3) by (auto simp: rerouted_def)
  show ?case
  proof (cases "mapped ! n")
    case True
    then have "fold (legacy_step m mapped) [0 ..< Suc n] s = ?s" by (simp add: legacy_step_def)
    with r True show ?thesis by (auto simp: rerouted_def less_Suc_eq)
  next
    case False
    have "(of_nat n :: u32) \<le> ucast (apic_get_gsi_max m p ?s)"
      using sv(1) Suc.prems assms(2)
      by (simp add: serves_def word_le_nat_alt unsigned_ucast_eq unat_of_nat take_bit_nat_eq_self)
    then have f: "apic_find_valid_ioapic m (of_nat n) ?s = p"
      using sv by (simp add: apic_find_valid_ioapic_def serves_def)
    have "fold (legacy_step m mapped) [0 ..< Suc n] s = snd (apic_write_redirection_table m p (of_nat n) (of_nat (n + 32)) ?s)"
      using False f Suc.prems redirect_data_legacy [of n] by (simp add: legacy_step_def redirect_gsi_def)
    moreover have "rerouted m p mx ?s (snd (apic_write_redirection_table m p (of_nat n) (of_nat (n + 32)) ?s))
        ((redirection m p ?s)(n := of_nat (n + 32)))"
      using sv(1) Suc.prems by (intro rerouted_write) simp_all
    ultimately show ?thesis using r False Suc.prems by (auto simp: rerouted_def less_Suc_eq)
  qed
qed

lemma apic_route_rerouted:
  assumes "serves m p mx s" "15 \<le> mx" "ioapic_list s = [p]"
  shows "rerouted m p mx s (apic_route m s)
    (\<lambda>h. if h \<le> mx \<and> override m (iso_list s) h \<noteq> None then override_data m (the (override m (iso_list s) h))
         else if h < 16 then of_nat (h + 32)
         else if h < mx then masked (redirection m p s h) else redirection m p s h)"
proof -
  let ?s1 = "mask_loop m p 0 s"
  have base: "gsi_base m p = 0" and mx: "mx < 120" using assms(1) by (simp_all add: serves_def)
  have 1: "rerouted m p mx s ?s1 (\<lambda>h. if h < mx then masked (redirection m p s h) else redirection m p s h)"
    using rerouted_mask_loop [OF assms(1), of 0] by simp
  then have sv: "serves m p mx ?s1" "iso_list ?s1 = iso_list s" by (auto simp: rerouted_def)
  have g: "ucast (apic_get_gsi_max m p ?s1) = (of_nat mx :: u32)"
    using sv(1) by (intro word_unat_eq_iff [THEN iffD2]) (simp add: serves_def unsigned_ucast_eq unat_of_nat take_bit_nat_eq_self)
  let ?mapped = "map (\<lambda>i. override m (iso_list s) i \<noteq> None) [0 ..< 16]"
  obtain s2 where 2: "fold (iso_step m p (of_nat mx)) (iso_list s) (replicate 16 False, ?s1) = (?mapped, s2)"
    "rerouted m p mx ?s1 s2 (\<lambda>h. if h \<le> mx then (case override m (iso_list s) h of Some x \<Rightarrow> override_data m x
        | None \<Rightarrow> redirection m p ?s1 h) else redirection m p ?s1 h)"
    using iso_steps [OF sv(1) assms(2), of "iso_list s"] by blast
  have "apic_route m s = fold (legacy_step m ?mapped) [0 ..< 16] s2"
    using 2(1) by (simp only: apic_route_def assms(3) fold_simps ioapic_step_def Let_def snd_conv fst_conv base g add_0_right sv(2) prod.case)
  moreover have "rerouted m p mx s2 (fold (legacy_step m ?mapped) [0 ..< 16] s2)
      (\<lambda>h. if h < 16 \<and> \<not> ?mapped ! h then of_nat (h + 32) else redirection m p s2 h)"
    using 1 2(2) assms(2,3) by (intro legacy_steps) (auto simp: rerouted_def)
  ultimately show ?thesis
    using 1 2(2) assms(2) mx by (auto simp: rerouted_def split: option.splits)
qed

text \<open>C23: with one I/O APIC that serves the interrupts from zero up to \<open>mx\<close>, \<open>apic_configure\<close> returns and programs
  the redirection table so: an interrupt with a source override gets the vector, polarity and trigger
  mode of the last override for it; every other of the sixteen legacy interrupts \<open>h\<close> gets vector
  \<open>h + 32\<close>; of the rest, those below \<open>mx\<close> are masked. The last entry, \<open>mx\<close> itself, keeps what the
  firmware left in it: the masking loop stops one short.\<close>

theorem apic_configure_routes:
  assumes "pic_disable (apic_dev s) = Inr (x, d)" and "parse_madt m md (s\<lparr>apic_dev := d\<rparr>) = Some (True, s1)"
    and "ioapic_list s1 = [p]" and "serves m p mx s1" and "15 \<le> mx"
  shows "\<exists>s'. apic_configure m md s = Inr (0, s') \<and> (\<forall>h \<le> mx. redirection m p s' h =
    (case override m (iso_list s1) h of Some x \<Rightarrow> override_data m x
     | None \<Rightarrow> if h < 16 then of_nat (h + 32) else if h < mx then masked (redirection m p s1 h) else redirection m p s1 h))"
proof -
  let ?s = "apic_configure_ap s1"
  have r: "redirection m p ?s h = redirection m p s1 h" for h
    by (simp add: redirection_def apic_read_redirection_table_def ioapic_read_def apic_configure_ap_def)
  have sv: "serves m p mx ?s" "ioapic_list ?s = [p]" "iso_list ?s = iso_list s1"
    using assms(3,4) by (simp_all add: serves_def apic_get_gsi_max_def ioapic_read_def apic_configure_ap_def)
  have "apic_configure m md s = Inr (0, apic_route m ?s)" using assms(1,2) by (simp add: apic_configure_def)
  then show ?thesis
    using apic_route_rerouted [OF sv(1) assms(5) sv(2)] assms(4)
    by (auto simp: rerouted_def sv(3) r serves_def split: option.splits)
qed

theorem apic_configure_routes_witness:
  "\<exists>s'. apic_configure madt_demo 0x500 demo_apic = Inr (0, s') \<and> redirection madt_demo 0x536 s' 1 = 33 \<and>
     redirection madt_demo 0x536 s' 16 = 0x10000 \<and> redirection madt_demo 0x536 s' 23 = 0"
proof -
  obtain d where d: "pic_disable (apic_dev demo_apic) = Inr ((), d)"
    by (simp add: pic_disable_def port_outb_def emit_def sthen_def sbind_def)
  let ?es = "[(0, [0, 0, 1, 0, 0, 0]), (1, [1, 0, 0, 0, 0xC0, 0xFE, 0, 0, 0, 0])] :: (u8 \<times> u8 list) list"
  let ?t = "demo_apic\<lparr>apic_dev := d\<rparr>"
  have a: "ioapic_addr madt_demo 0x536 = 0xFEC00000" "gsi_base madt_demo 0x536 = 0" by code_simp+
  obtain s1 where s1: "parse_madt madt_demo 0x500 ?t = Some (True, s1)" "ioapic_list s1 = [0x536]" "iso_list s1 = []"
      "io_regs s1 = (\<lambda>_. (\<lambda>_. 0)(1 := 0x170000))"
  proof -
    have "ld32 madt_demo 0x504 = 64" by code_simp
    moreover have "bytes_at madt_demo 0x52C (madt_bytes ?es)" by (simp add: madt_bytes_def madt_demo_def)
    moreover have "io_regs ?t = (\<lambda>_. (\<lambda>_. 0)(1 := 0x170000))" by (simp add: demo_apic_def)
    ultimately show ?thesis using that parse_entries [of "0x500" madt_demo ?es ?t] by (auto simp: madt_bytes_def)
  qed
  have sv: "serves madt_demo 0x536 23 s1"
    by (simp add: serves_def a apic_get_gsi_max_def ioapic_read_def s1(4))
  have r: "redirection madt_demo 0x536 s1 h = 0" if "h \<in> {16, 23}" for h
    using that by (auto simp: redirection_def apic_read_redirection_table_def redirection_reg_def a ioapic_read_def s1(4))
  show ?thesis
    using apic_configure_routes [OF d s1(1,2) sv] r [of 16] r [of 23]
    by (auto simp: s1(3) override_def masked_def)
qed

end
