(* ===== verification/Stdio.thy ===== *)
theory Stdio
  imports Cstring Devices
begin

unbundle bit_operations_syntax

text \<open>
  Formatted output, \<^verbatim>\<open>src/klibc/stdio.c\<close>, with \<open>kprintf\<close> and \<open>ser_printf\<close>. The characters handed to
  \<open>putchar\<close> are a list; the variable arguments are the words of the caller's stack, as a function of
  their position. \<open>num\<close> is a signed \<open>char\<close>, kept at its eight bits. The number buffer is local, so it
  is a memory of its own. The scanner re-enters its \<open>switch\<close> by \<open>goto back\<close> and may do so for ever,
  so it is partial.
\<close>

section \<open>Definitions\<close>

abbreviation (input) PERCENT :: u8 where "PERCENT \<equiv> 0x25"
abbreviation (input) SPACE :: u8 where "SPACE \<equiv> 0x20"
abbreviation (input) MINUS :: u8 where "MINUS \<equiv> 0x2D"
abbreviation (input) DOT :: u8 where "DOT \<equiv> 0x2E"
abbreviation (input) ZERO :: u8 where "ZERO \<equiv> 0x30"
abbreviation (input) ONE :: u8 where "ONE \<equiv> 0x31"
abbreviation (input) NINE :: u8 where "NINE \<equiv> 0x39"
abbreviation (input) CONV_c :: u8 where "CONV_c \<equiv> 0x63"
abbreviation (input) CONV_d :: u8 where "CONV_d \<equiv> 0x64"
abbreviation (input) CONV_s :: u8 where "CONV_s \<equiv> 0x73"
abbreviation (input) CONV_u :: u8 where "CONV_u \<equiv> 0x75"
abbreviation (input) CONV_x :: u8 where "CONV_x \<equiv> 0x78"

text \<open>\<open>while (*p) putchar(*p++)\<close>\<close>

partial_function (option) put_text :: "mem \<Rightarrow> u32 \<Rightarrow> u8 list \<Rightarrow> u8 list option" where
  [code]: "put_text ms p out = (if ms p \<noteq> 0 then put_text ms (p + 1) (out @ [ms p]) else Some out)"

text \<open>The field width that is left after the text, a signed comparison of two bytes.\<close>

definition pad_left :: "u8 \<Rightarrow> u32 \<Rightarrow> u8" where
  "pad_left num len = num - (if sint (ucast len :: u8) > sint num then num else ucast len)"

text \<open>The part of the function from the label \<open>string\<close> on. \<open>while (num--)\<close> leaves \<open>num\<close> at minus one.\<close>

definition put_string :: "mem \<Rightarrow> u32 \<Rightarrow> u8 \<Rightarrow> u8 \<Rightarrow> bool \<Rightarrow> u8 list \<Rightarrow> u8 list option" where
  "put_string ms p num sm padRight out =
     Option.bind
       (if num \<noteq> 0 then
          Option.bind (strlen ms p) (\<lambda>len.
            let num = pad_left num len
            in Some (if \<not> padRight then (- 1, out @ replicate (unat num) sm) else (num, out)))
        else Some (num, out))
       (\<lambda>(num, out).
          map_option (\<lambda>out. if num \<noteq> 0 \<and> padRight then out @ replicate (unat num) sm else out) (put_text ms p out))"

definition number_buf :: "u8 \<Rightarrow> u32 \<Rightarrow> mem option" where
  "number_buf c v = (if c = CONV_x then htoa (\<lambda>_. 0) v 0 else itoa (\<lambda>_. 0) v 0)"

definition null_text :: mem where
  "null_text a = (if a < 6 then of_char (''(null)'' ! unat a) else 0)"

partial_function (option) width_loop :: "mem \<Rightarrow> u8 \<Rightarrow> u32 \<Rightarrow> u8 \<Rightarrow> (u8 \<times> u8 \<times> u32) option" where
  [code]: "width_loop m c format num =
     (if c \<ge> ONE \<and> c \<le> NINE then width_loop m (m format) (format + 1) (num * 10 + (c - ZERO)) else Some (num, c, format))"

text \<open>The \<open>switch\<close> at the label \<open>back\<close>, with the character \<open>c\<close> read and \<open>format\<close> behind it.\<close>

partial_function (option) directive ::
    "mem \<Rightarrow> (nat \<Rightarrow> u32) \<Rightarrow> u8 \<Rightarrow> u32 \<Rightarrow> u8 \<Rightarrow> u8 \<Rightarrow> bool \<Rightarrow> nat \<Rightarrow> u8 list \<Rightarrow> (u32 \<times> nat \<times> u8 list) option" where
  [code]: "directive m args c format num sm padRight k out =
     (if c = CONV_d \<or> c = CONV_u \<or> c = CONV_x then
        Option.bind (number_buf c (args k)) (\<lambda>buf.
        Option.bind (put_string buf 0 num sm padRight out) (\<lambda>out. Some (format, k + 1, out)))
      else if c = CONV_s then
        Option.bind (if args k = 0 then put_string null_text 0 num sm padRight out
                     else put_string m (args k) num sm padRight out) (\<lambda>out. Some (format, k + 1, out))
      else if c = CONV_c then Some (format, k + 1, out @ [ucast (args k)])
      else if m (format - 2) = PERCENT then
        (let (sm, c, format) = (if c = ZERO \<or> c = SPACE \<or> c = DOT then (c, m format, format + 1) else (sm, c, format));
             (padRight, c, format) = (if c = MINUS then (True, m format, format + 1) else (padRight, c, format))
         in Option.bind (width_loop m c format 0) (\<lambda>r.
              directive m args (fst (snd r)) (snd (snd r)) (fst r) sm padRight k out))
      else Some (format, k + 1, out @ [ucast (args k)]))"

partial_function (option) vprintf_loop :: "mem \<Rightarrow> (nat \<Rightarrow> u32) \<Rightarrow> u32 \<Rightarrow> nat \<Rightarrow> u8 list \<Rightarrow> u8 list option" where
  [code]: "vprintf_loop m args format k out =
     (let c = m format
      in if c \<noteq> 0 then
           (if c \<noteq> PERCENT then vprintf_loop m args (format + 1) k (out @ [c])
            else Option.bind (directive m args (m (format + 1)) (format + 2) 0 SPACE False k out) (\<lambda>r.
                   vprintf_loop m args (fst r) (fst (snd r)) (snd (snd r))))
         else Some out)"

text \<open>\<open>has_putchar\<close> is whether \<open>putchar\<close> is not null.\<close>

definition vprintf :: "bool \<Rightarrow> mem \<Rightarrow> u32 \<Rightarrow> (nat \<Rightarrow> u32) \<Rightarrow> u8 list option" where
  "vprintf has_putchar m format args = (if \<not> has_putchar then Some [] else vprintf_loop m args format 0 [])"

text \<open>
  The two callers. The locks around the calls are assembly; \<open>ser_printf\<close> takes one of two locks
  depending on the core, and prints the same in both cases.
\<close>

definition kprintf :: "(u8 \<Rightarrow> ('s, unit) op) option \<Rightarrow> mem \<Rightarrow> u32 \<Rightarrow> (nat \<Rightarrow> u32) \<Rightarrow> ('s, unit) op" where
  "kprintf global_putchar m format args =
     (case vprintf (global_putchar \<noteq> None) m format args of
        None \<Rightarrow> sfail Diverges
      | Some out \<Rightarrow> (case global_putchar of None \<Rightarrow> sret () | Some putchar \<Rightarrow> siter putchar out))"

definition ser_printf :: "mem \<Rightarrow> u32 \<Rightarrow> (nat \<Rightarrow> u32) \<Rightarrow> (dev_state, unit) op" where
  "ser_printf m format args =
     sbind (sget active_port) (\<lambda>port.
     if port = 0 then sret ()
     else (case vprintf True m format args of None \<Rightarrow> sfail Diverges | Some out \<Rightarrow> siter serial_writeChar out))"

section \<open>What a format means\<close>

text \<open>
  A format is a sequence of characters and directives. A directive has an optional fill character, the
  flag that the field is filled on the right, the digits of its width, none of them zero, and a conversion.
\<close>

datatype piece = Lit u8 | Dir "u8 option" bool "nat list" u8

definition width :: "nat list \<Rightarrow> nat" where
  "width w = foldl (\<lambda>n d. 10 * n + d) 0 w"

definition digits_text :: "nat list \<Rightarrow> u8 list" where
  "digits_text w = map (\<lambda>d. of_nat d + ZERO) w"

fun piece_text :: "piece \<Rightarrow> u8 list" where
  "piece_text (Lit c) = [c]"
| "piece_text (Dir f r w v) = PERCENT # (case f of None \<Rightarrow> [] | Some c \<Rightarrow> [c]) @ (if r then [MINUS] else []) @ digits_text w @ [v]"

definition conversion :: "u8 \<Rightarrow> bool" where
  "conversion v \<longleftrightarrow> v = CONV_d \<or> v = CONV_u \<or> v = CONV_x \<or> v = CONV_s \<or> v = CONV_c"

definition fill_char :: "u8 \<Rightarrow> bool" where
  "fill_char c \<longleftrightarrow> c = ZERO \<or> c = SPACE \<or> c = DOT"

fun piece_ok :: "piece \<Rightarrow> bool" where
  "piece_ok (Lit c) \<longleftrightarrow> c \<noteq> 0 \<and> c \<noteq> PERCENT"
| "piece_ok (Dir f r w v) \<longleftrightarrow> (\<forall>c. f = Some c \<longrightarrow> fill_char c) \<and> (\<forall>d \<in> set w. 1 \<le> d \<and> d \<le> 9) \<and> width w \<le> 127 \<and> conversion v"

definition field :: "u8 \<Rightarrow> bool \<Rightarrow> nat \<Rightarrow> u8 list \<Rightarrow> u8 list" where
  "field sm r n txt = (if r then txt @ replicate (n - length txt) sm else replicate (n - length txt) sm @ txt)"

text \<open>The text of an argument \<open>a\<close>; \<open>str\<close> is the string it points to.\<close>

definition arg_text :: "u8 \<Rightarrow> u32 \<Rightarrow> u8 list \<Rightarrow> u8 list" where
  "arg_text v a str = (if v = CONV_s then (if a = 0 then map of_char ''(null)'' else str)
     else utext (if v = CONV_x then 16 else 10) (unat a))"

fun piece_out :: "piece \<Rightarrow> u32 \<Rightarrow> u8 list \<Rightarrow> u8 list" where
  "piece_out (Lit c) a str = [c]"
| "piece_out (Dir f r w v) a str = (if v = CONV_c then [ucast a]
     else field (case f of None \<Rightarrow> SPACE | Some c \<Rightarrow> c) r (width w) (arg_text v a str))"

fun piece_args :: "piece \<Rightarrow> nat" where
  "piece_args (Lit c) = 0"
| "piece_args (Dir f r w v) = 1"

primrec render :: "(nat \<Rightarrow> u32) \<Rightarrow> (nat \<Rightarrow> u8 list) \<Rightarrow> nat \<Rightarrow> piece list \<Rightarrow> u8 list" where
  "render args strs k [] = []"
| "render args strs k (p # ps) = piece_out p (args k) (strs k) @ render args strs (k + piece_args p) ps"

text \<open>The string arguments point to C strings, short ones where the field has a width.\<close>

fun string_ok :: "mem \<Rightarrow> u32 \<Rightarrow> u8 list \<Rightarrow> piece \<Rightarrow> bool" where
  "string_ok m a str (Lit c) \<longleftrightarrow> True"
| "string_ok m a str (Dir f r w v) \<longleftrightarrow> (v = CONV_s \<and> a \<noteq> 0 \<longrightarrow> cstr m a str \<and> (width w \<noteq> 0 \<longrightarrow> length str < 128))"

primrec strings_ok :: "mem \<Rightarrow> (nat \<Rightarrow> u32) \<Rightarrow> (nat \<Rightarrow> u8 list) \<Rightarrow> nat \<Rightarrow> piece list \<Rightarrow> bool" where
  "strings_ok m args strs k [] \<longleftrightarrow> True"
| "strings_ok m args strs k (p # ps) \<longleftrightarrow> string_ok m (args k) (strs k) p \<and> strings_ok m args strs (k + piece_args p) ps"

section \<open>Fields\<close>

lemma put_text_cstr: "cstr ms p bs \<Longrightarrow> put_text ms p out = Some (out @ bs)"
proof (induction bs arbitrary: p out)
  case Nil
  then show ?case by (subst put_text.simps) (simp add: cstr_Nil)
next
  case (Cons b bs)
  from cstr_Cons [OF Cons.prems] Cons.IH [of "p + 1" "out @ [b]"] show ?case by (subst put_text.simps) simp
qed

lemma pad_left_small:
  assumes "n \<le> 127" "len < 128"
  shows "pad_left (of_nat n) (of_nat len) = of_nat (n - len)"
proof -
  have s: "sint (of_nat i :: u8) = int i" if "i < 128" for i
    using that by (simp add: signed_of_nat signed_take_bit_int_eq_self)
  have "ucast (of_nat len :: u32) = (of_nat len :: u8)"
    using assms(2) by (intro word_unat_eq_iff [THEN iffD2]) (simp add: unsigned_ucast_eq unsigned_of_nat)
  then show ?thesis using assms s [of n] s [of len] by (cases "len \<le> n") (simp_all add: pad_left_def of_nat_diff)
qed

lemma strlen_cstr: "cstr m p bs \<Longrightarrow> strlen m p = Some (of_nat (length bs))"
  using strlen_loop_cstr [of m p 0 bs] by (simp add: strlen_def)

lemma put_string_field:
  assumes "cstr ms p txt" "n \<le> 127" "n \<noteq> 0 \<Longrightarrow> length txt < 128"
  shows "put_string ms p (of_nat n) sm r out = Some (out @ field sm r n txt)"
proof (cases "n = 0")
  case True
  then show ?thesis using assms(1) by (simp add: put_string_def put_text_cstr field_def)
next
  case False
  have n: "(of_nat n :: u8) \<noteq> 0" using False assms(2) by (simp add: word_unat_eq_iff unsigned_of_nat take_bit_nat_eq_self)
  obtain q :: u8 where q: "pad_left (of_nat n) (of_nat (length txt)) = q" "unat q = n - length txt"
    using assms(2,3) False by (simp add: pad_left_small unsigned_of_nat take_bit_nat_eq_self)
  then have "q = 0 \<longleftrightarrow> n - length txt = 0" using unat_eq_zero [of q] by simp
  then show ?thesis
    using n q assms(1) by (simp add: put_string_def strlen_cstr put_text_cstr field_def Let_def)
qed

lemma number_buf_text:
  assumes "c = CONV_d \<or> c = CONV_u \<or> c = CONV_x"
  shows "\<exists>buf. number_buf c v = Some buf \<and> cstr buf 0 (utext (if c = CONV_x then 16 else 10) (unat v))"
  using assms vtoa_text [of 16 0 "\<lambda>_. 0" v] vtoa_text [of 10 0 "\<lambda>_. 0" v]
  by (auto simp: number_buf_def htoa_def itoa_def)

lemma length_utext: "length (utext b (unat (v :: u32))) < 128"
  using length_udigits [of "unat v" 32 b] by (simp add: utext_def)

lemma null_cstr: "cstr null_text 0 (map of_char ''(null)'')"
  by (simp add: cstr_def bytes_def null_text_def)

section \<open>Directives\<close>

lemma directive_conversion:
  assumes "conversion v" "n \<le> 127" "string_ok m (args k) str (Dir f r w v)" "n = width w"
  shows "directive m args v format (of_nat n) sm r k out =
    Some (format, k + 1, out @ (if v = CONV_c then [ucast (args k)] else field sm r n (arg_text v (args k) str)))"
proof (cases "v = CONV_c")
  case True
  then show ?thesis by (subst directive.simps) simp
next
  case False
  show ?thesis
  proof (cases "v = CONV_s")
    case True
    have "put_string null_text 0 (of_nat n) sm r out = Some (out @ field sm r n (map of_char ''(null)''))"
      using assms(2) by (intro put_string_field null_cstr) simp_all
    moreover have "args k \<noteq> 0 \<Longrightarrow> put_string m (args k) (of_nat n) sm r out = Some (out @ field sm r n str)"
      using assms True by (intro put_string_field) auto
    ultimately show ?thesis using True by (subst directive.simps) (simp add: arg_text_def)
  next
    case s: False
    then have v: "v = CONV_d \<or> v = CONV_u \<or> v = CONV_x" using assms(1) False by (auto simp: conversion_def)
    obtain buf where b: "number_buf v (args k) = Some buf" "cstr buf 0 (utext (if v = CONV_x then 16 else 10) (unat (args k)))"
      using number_buf_text [OF v] by blast
    have "put_string buf 0 (of_nat n) sm r out = Some (out @ field sm r n (arg_text v (args k) str))"
      using assms(2) b(2) s by (intro put_string_field) (auto simp: arg_text_def length_utext)
    then show ?thesis using v b(1) False by (subst directive.simps) simp
  qed
qed

lemma width_loop_digits:
  assumes "bytes_at m a (digits_text w @ [v])" "\<forall>d \<in> set w. 1 \<le> d \<and> d \<le> 9" "\<not> (v \<ge> ONE \<and> v \<le> NINE)"
  shows "width_loop m (m a) (a + 1) (of_nat n) =
    Some (of_nat (foldl (\<lambda>n d. 10 * n + d) n w), v, a + of_nat (length w) + 1)"
  using assms
proof (induction w arbitrary: a n)
  case Nil
  then show ?case by (subst width_loop.simps) (auto simp: digits_text_def)
next
  case (Cons d w)
  have d: "1 \<le> d" "d \<le> 9" using Cons.prems(2) by auto
  have u: "unat (of_nat d + ZERO :: u8) = d + 48"
    using d by (simp add: unat_word_ariths unsigned_of_nat take_bit_nat_eq_self)
  have c: "m a = of_nat d + ZERO" and b: "bytes_at m (a + 1) (digits_text w @ [v])"
    using Cons.prems(1) by (simp_all add: digits_text_def)
  have "width_loop m (m a) (a + 1) (of_nat n) = width_loop m (m (a + 1)) (a + 1 + 1) (of_nat (10 * n + d))"
    using u d by (subst width_loop.simps) (simp add: c word_le_nat_alt mult.commute)
  also have "\<dots> = Some (of_nat (foldl (\<lambda>n d. 10 * n + d) (10 * n + d) w), v, a + 1 + of_nat (length w) + 1)"
    using Cons.prems by (intro Cons.IH b) auto
  finally show ?case by (simp add: algebra_simps)
qed

lemma digit_char_classes:
  assumes "1 \<le> d" "d \<le> 9"
  shows "\<not> conversion (of_nat d + ZERO)" "\<not> fill_char (of_nat d + ZERO)" "of_nat d + ZERO \<noteq> (MINUS :: u8)"
proof -
  have "unat (of_nat d + ZERO :: u8) = d + 48"
    using assms by (simp add: unat_word_ariths unsigned_of_nat take_bit_nat_eq_self)
  then have "ONE \<le> (of_nat d + ZERO :: u8) \<and> (of_nat d + ZERO :: u8) \<le> NINE" using assms by (simp add: word_le_nat_alt)
  moreover have "ONE \<le> x \<and> x \<le> NINE \<Longrightarrow> \<not> conversion x \<and> \<not> fill_char x \<and> x \<noteq> MINUS" for x :: u8
    by (auto simp: conversion_def fill_char_def)
  ultimately show "\<not> conversion (of_nat d + ZERO)" "\<not> fill_char (of_nat d + ZERO)" "of_nat d + ZERO \<noteq> (MINUS :: u8)"
    by blast+
qed

lemma conversion_classes: "conversion v \<Longrightarrow> \<not> (v \<ge> ONE \<and> v \<le> NINE) \<and> \<not> fill_char v \<and> v \<noteq> MINUS \<and> v \<noteq> 0"
  by (auto simp: conversion_def fill_char_def)

lemma fill_classes: "fill_char c \<Longrightarrow> \<not> conversion c" "\<not> conversion MINUS" "\<not> fill_char MINUS"
  by (auto simp: conversion_def fill_char_def)

text \<open>One pass through the default case: the fill character, the flag and the width are read.\<close>

lemma directive_default:
  assumes "\<not> conversion c" "m (format - 2) = PERCENT"
  shows "directive m args c format num sm padRight k out =
    (let (sm, c, format) = (if fill_char c then (c, m format, format + 1) else (sm, c, format));
         (padRight, c, format) = (if c = MINUS then (True, m format, format + 1) else (padRight, c, format))
     in Option.bind (width_loop m c format 0) (\<lambda>r. directive m args (fst (snd r)) (snd (snd r)) (fst r) sm padRight k out))"
  using assms by (subst directive.simps) (auto simp: conversion_def fill_char_def)

lemma directive_piece:
  assumes "bytes_at m a (piece_text (Dir f r w v))" "piece_ok (Dir f r w v)" "string_ok m (args k) str (Dir f r w v)"
  shows "directive m args (m (a + 1)) (a + 2) 0 SPACE False k out =
    Some (a + of_nat (length (piece_text (Dir f r w v))), k + 1, out @ piece_out (Dir f r w v) (args k) str)"
proof -
  let ?sm = "case f of None \<Rightarrow> SPACE | Some c \<Rightarrow> c" and ?last = "a + of_nat (length (piece_text (Dir f r w v)))"
  have v: "conversion v" "\<not> (v \<ge> ONE \<and> v \<le> NINE)" and w: "\<forall>d \<in> set w. 1 \<le> d \<and> d \<le> 9" "width w \<le> 127"
    using assms(2) conversion_classes by auto
  have fin: "directive m args v ?last (of_nat (width w)) ?sm r k out = Some (?last, k + 1, out @ piece_out (Dir f r w v) (args k) str)"
    using directive_conversion [of v "width w" m args k str f r w ?last ?sm out] v(1) w(2) assms(3) by simp
  have W: "width_loop m (m b) (b + 1) 0 = Some (of_nat (width w), v, b + of_nat (length w) + 1)"
    if "bytes_at m b (digits_text w @ [v])" for b
    using width_loop_digits [OF that w(1) v(2), of 0] by (simp add: width_def)
  have hd: "m b \<noteq> MINUS \<and> \<not> fill_char (m b) \<and> (w \<noteq> [] \<longrightarrow> \<not> conversion (m b))" if "bytes_at m b (digits_text w @ [v])" for b
    using that w(1) conversion_classes [OF v(1)] digit_char_classes by (cases w) (auto simp: digits_text_def)
  have p: "m (a + 2 - 2) = PERCENT" using assms(1) by simp
  note D = directive_default [of "m (a + 1)" m "a + 2" args 0 SPACE False k out, OF _ p]
  show ?thesis
  proof (cases f)
    case (Some c)
    then have c: "fill_char c" "m (a + 1) = c" using assms by auto
    show ?thesis
    proof (cases r)
      case True
      then have b: "m (a + 2) = MINUS" "bytes_at m (a + 3) (digits_text w @ [v])" using assms(1) Some by (auto simp: add.assoc)
      show ?thesis using D c fill_classes(1) [OF c(1)] b W [OF b(2)] fin True Some
        by (simp add: Let_def add.assoc digits_text_def)
    next
      case False
      then have b: "bytes_at m (a + 2) (digits_text w @ [v])" using assms(1) Some by (auto simp: add.assoc)
      show ?thesis using D c fill_classes(1) [OF c(1)] hd [OF b] W [OF b] fin False Some
        by (simp add: Let_def add.assoc digits_text_def)
    qed
  next
    case None
    show ?thesis
    proof (cases r)
      case True
      then have b: "m (a + 1) = MINUS" "bytes_at m (a + 2) (digits_text w @ [v])" using assms(1) None by (auto simp: add.assoc)
      show ?thesis using D fill_classes b W [OF b(2)] fin True None
        by (simp add: Let_def add.assoc digits_text_def)
    next
      case False
      then have b: "bytes_at m (a + 1) (digits_text w @ [v])" using assms(1) None by auto
      show ?thesis
      proof (cases "w = []")
        case True
        then show ?thesis using fin b False None by (simp add: digits_text_def width_def add.assoc)
      next
        case w: False
        show ?thesis using D hd [OF b] w W [OF b] fin False None
          by (simp add: Let_def add.assoc digits_text_def)
      qed
    qed
  qed
qed

section \<open>Formats\<close>

lemma vprintf_pieces:
  assumes "bytes_at m a (concat (map piece_text ps))" "\<forall>p \<in> set ps. piece_ok p" "strings_ok m args strs k ps"
  shows "\<exists>k'. vprintf_loop m args a k out =
    vprintf_loop m args (a + of_nat (length (concat (map piece_text ps)))) k' (out @ render args strs k ps)"
  using assms
proof (induction ps arbitrary: a k out)
  case Nil
  show ?case by (intro exI [of _ k]) simp
next
  case (Cons p ps)
  have b: "bytes_at m a (piece_text p)" "bytes_at m (a + of_nat (length (piece_text p))) (concat (map piece_text ps))"
    using Cons.prems(1) by simp_all
  have "vprintf_loop m args a k out =
      vprintf_loop m args (a + of_nat (length (piece_text p))) (k + piece_args p) (out @ piece_out p (args k) (strs k))"
  proof (cases p)
    case (Lit c)
    then show ?thesis using b(1) Cons.prems(2) by (subst vprintf_loop.simps) simp
  next
    case (Dir f r w v)
    have "m a = PERCENT" using b(1) Dir by simp
    moreover have "directive m args (m (a + 1)) (a + 2) 0 SPACE False k out =
        Some (a + of_nat (length (piece_text p)), k + 1, out @ piece_out p (args k) (strs k))"
      using directive_piece [of m a f r w v args k "strs k" out] b(1) Cons.prems Dir by simp
    ultimately show ?thesis using Dir by (subst vprintf_loop.simps) simp
  qed
  moreover obtain k' where "vprintf_loop m args (a + of_nat (length (piece_text p))) (k + piece_args p) (out @ piece_out p (args k) (strs k)) =
      vprintf_loop m args (a + of_nat (length (piece_text p)) + of_nat (length (concat (map piece_text ps)))) k'
        ((out @ piece_out p (args k) (strs k)) @ render args strs (k + piece_args p) ps)"
    using Cons.IH [OF b(2), of "k + piece_args p" "out @ piece_out p (args k) (strs k)"] Cons.prems(2,3) by auto
  ultimately show ?case by (intro exI [of _ k']) (simp add: add.assoc)
qed

lemma bytes_at_cstr: "cstr m a bs \<Longrightarrow> bytes_at m a bs \<and> m (a + of_nat (length bs)) = 0"
  by (simp add: cstr_iff bytes_at_def)

lemma vprintf_text:
  assumes "cstr m format (concat (map piece_text ps))" "\<forall>p \<in> set ps. piece_ok p" "strings_ok m args strs 0 ps"
  shows "vprintf True m format args = Some (render args strs 0 ps)"
proof -
  let ?last = "format + of_nat (length (concat (map piece_text ps)))"
  obtain k' where "vprintf_loop m args format 0 [] = vprintf_loop m args ?last k' (render args strs 0 ps)"
    using vprintf_pieces [OF conjunct1 [OF bytes_at_cstr [OF assms(1)]] assms(2,3), of "[]"] by auto
  moreover have "vprintf_loop m args ?last k' (render args strs 0 ps) = Some (render args strs 0 ps)"
    using bytes_at_cstr [OF assms(1)] by (subst vprintf_loop.simps) (simp only: Let_def if_False simp_thms)
  ultimately show ?thesis by (simp add: vprintf_def)
qed

lemma siter_serial:
  assumes "drains env port" "line port env out d"
  shows "\<exists>d'. siter serial_writeChar bs d = Inr ((), d') \<and> line port env (out @ crlf bs) d'"
  using assms(2)
proof (induction bs arbitrary: out d)
  case Nil
  then show ?case by (simp add: crlf_def)
next
  case (Cons b bs)
  obtain d1 where d1: "serial_writeChar b d = Inr ((), d1)" "line port env (out @ crlf [b]) d1"
    using serial_writeChar_sends [OF assms(1) Cons.prems] by blast
  obtain d2 where "siter serial_writeChar bs d1 = Inr ((), d2)" "line port env ((out @ crlf [b]) @ crlf bs) d2"
    using Cons.IH [OF d1(2)] by blast
  moreover have "crlf (b # bs) = crlf [b] @ crlf bs" by (simp add: crlf_def)
  ultimately show ?case using d1(1) by (auto simp: sthen_apply)
qed

text \<open>C26: formatted output means what the format says. On a format made of characters and of directives
  \<open>%[fill][-][width]conversion\<close> with widths up to 127 without the digit zero, \<open>_vprintf\<close> returns and the
  characters are the literal ones and, for every directive, the next argument as an unsigned number,
  a string or a character in a field of the given width, filled on the given side. \<open>ser_printf\<close> sends
  exactly these characters, every newline followed by a carriage return, on a line that drains.\<close>

theorem printf_renders:
  assumes "cstr m format (concat (map piece_text ps))" and "\<forall>p \<in> set ps. piece_ok p" and "strings_ok m args strs 0 ps"
    and "drains (io_env d) (active_port d)" and "active_port d \<noteq> 0"
  shows "vprintf True m format args = Some (render args strs 0 ps) \<and>
    (\<exists>d'. ser_printf m format args d = Inr ((), d') \<and>
       sent (active_port d) (io_log d') = sent (active_port d) (io_log d) @ crlf (render args strs 0 ps))"
proof -
  have v: "vprintf True m format args = Some (render args strs 0 ps)" using assms(1-3) by (rule vprintf_text)
  have "line (active_port d) (io_env d) (sent (active_port d) (io_log d)) d" by (simp add: line_def)
  then obtain d' where "siter serial_writeChar (render args strs 0 ps) d = Inr ((), d')"
    "line (active_port d) (io_env d) (sent (active_port d) (io_log d) @ crlf (render args strs 0 ps)) d'"
    using siter_serial [OF assms(4)] by blast
  with v assms(5) show ?thesis by (auto simp: ser_printf_def sbind_def line_def)
qed

definition demo_format :: mem where
  "demo_format a = (if a < 4 then [0x25, 0x30, 0x34, 0x78] ! unat a else 0)"

theorem printf_renders_witness:
  "vprintf True demo_format 0 (\<lambda>_. 0x2A) = Some (map of_char ''002a'')"
proof -
  have "cstr demo_format 0 (concat (map piece_text [Dir (Some 0x30) False [4] 0x78]))"
    by (simp add: cstr_def bytes_def demo_format_def digits_text_def)
  moreover have "utext 16 42 = map of_char ''2a''"
    by (simp add: utext_def udigits_def ldigits_pos digit_char_def vtoa_digits_def)
  moreover have "active_port demo_dev \<noteq> 0" by (simp add: demo_dev_def)
  moreover have "replicate 2 (0x30 :: u8) = [0x30, 0x30]" by (simp add: numeral_2_eq_2)
  ultimately show ?thesis
    using printf_renders [of demo_format 0 "[Dir (Some 0x30) False [4] 0x78]" "\<lambda>_. 0x2A" "\<lambda>_. []" demo_dev] demo_drains
    by (simp add: fill_char_def conversion_def width_def arg_text_def field_def)
qed

section \<open>Directives that never end\<close>

text \<open>A character behind the percent sign that is no conversion, no fill character, no minus and no digit.\<close>

definition bad_char :: "u8 \<Rightarrow> bool" where
  "bad_char c \<longleftrightarrow> \<not> conversion c \<and> \<not> fill_char c \<and> c \<noteq> MINUS \<and> \<not> (c \<ge> ONE \<and> c \<le> NINE)"

lemma directive_stuck:
  assumes "bad_char c" "m (format - 2) = PERCENT"
  shows "directive m args c format num sm padRight k out = None"
proof (rule ccontr)
  assume "directive m args c format num sm padRight k out \<noteq> None"
  then obtain t where t: "directive m args c format num sm padRight k out = Some t" by blast
  have w: "width_loop m c format 0 = Some (0, c, format)"
    using assms(1) by (subst width_loop.simps) (auto simp: bad_char_def)
  have "\<not> (m' = m \<and> c' = c \<and> format' = format)"
    if "directive m' args' c' format' num' sm' padRight' k' out' = Some t'" for m' args' c' format' num' sm' padRight' k' out' t'
    using that
  proof (induction rule: directive.raw_induct [rotated -1, consumes 1])
    case (1 rec m' args' c' format' num' sm' padRight' k' out' t')
    from 1(2) assms w show ?case
      by (auto simp: bad_char_def conversion_def fill_char_def dest!: 1(1))
  qed
  with t show False by blast
qed

text \<open>C31: a percent sign followed by anything else than a fill character, a minus, a digit from one to nine or a
  conversion makes \<open>_vprintf\<close> loop for ever, whatever well-formed text comes before it: the scanner
  re-enters its switch with the same character. So neither \<open>%%\<close> nor a percent sign at the end of
  the format can be printed.\<close>

theorem printf_never_returns:
  assumes "bytes_at m format (concat (map piece_text ps) @ [0x25, c])" and "\<forall>p \<in> set ps. piece_ok p"
    and "strings_ok m args strs 0 ps" and "bad_char c"
  shows "vprintf True m format args = None"
proof -
  let ?a = "format + of_nat (length (concat (map piece_text ps)))"
  have b: "bytes_at m format (concat (map piece_text ps))" "m ?a = PERCENT" "m (?a + 1) = c"
    using assms(1) by simp_all
  obtain k' where "vprintf_loop m args format 0 [] = vprintf_loop m args ?a k' (render args strs 0 ps)"
    using vprintf_pieces [OF b(1) assms(2,3), of "[]"] by auto
  moreover have "directive m args c (?a + 2) 0 SPACE False k' (render args strs 0 ps) = None"
    using assms(4) b(2) by (intro directive_stuck) simp_all
  moreover have "vprintf_loop m args ?a k' (render args strs 0 ps) =
      Option.bind (directive m args c (?a + 2) 0 SPACE False k' (render args strs 0 ps)) (\<lambda>r. vprintf_loop m args (fst r) (fst (snd r)) (snd (snd r)))"
    using b(2,3) by (subst vprintf_loop.simps) (simp only: Let_def, simp)
  ultimately show ?thesis by (simp add: vprintf_def)
qed

theorem printf_never_returns_witness:
  "vprintf True (\<lambda>a. if a < 2 then 0x25 else 0) 0 (\<lambda>_. 0) = None"
  using printf_never_returns [of "\<lambda>a. if a < 2 then 0x25 else 0" 0 "[]" "0x25" "\<lambda>_. 0" "\<lambda>_. []"]
  by (simp add: bad_char_def conversion_def fill_char_def)

end
