(* ===== verification/Font.thy ===== *)
theory Font
  imports Prelude
begin

text \<open>
  The glyphs of \<^verbatim>\<open>src/drivers/font.c\<close>: eight rows of eight pixels for each of the 128 characters of the
  basic set, the least significant bit of a row on the left.
\<close>

record font =
  font_width :: u8
  font_height :: u8
  font_data :: "u8 list"

definition font8x8_table :: "u8 list list" where
  "font8x8_table = [
    [0, 0, 0, 0, 0, 0, 0, 0],
    [0, 0, 0, 0, 0, 0, 0, 0],
    [0, 0, 0, 0, 0, 0, 0, 0],
    [0, 0, 0, 0, 0, 0, 0, 0],
    [0, 0, 0, 0, 0, 0, 0, 0],
    [0, 0, 0, 0, 0, 0, 0, 0],
    [0, 0, 0, 0, 0, 0, 0, 0],
    [0, 0, 0, 0, 0, 0, 0, 0],
    [0, 0, 0, 0, 0, 0, 0, 0],
    [0, 0, 0, 0, 0, 0, 0, 0],
    [0, 0, 0, 0, 0, 0, 0, 0],
    [0, 0, 0, 0, 0, 0, 0, 0],
    [0, 0, 0, 0, 0, 0, 0, 0],
    [0, 0, 0, 0, 0, 0, 0, 0],
    [0, 0, 0, 0, 0, 0, 0, 0],
    [0, 0, 0, 0, 0, 0, 0, 0],
    [0, 0, 0, 0, 0, 0, 0, 0],
    [0, 0, 0, 0, 0, 0, 0, 0],
    [0, 0, 0, 0, 0, 0, 0, 0],
    [0, 0, 0, 0, 0, 0, 0, 0],
    [0, 0, 0, 0, 0, 0, 0, 0],
    [0, 0, 0, 0, 0, 0, 0, 0],
    [0, 0, 0, 0, 0, 0, 0, 0],
    [0, 0, 0, 0, 0, 0, 0, 0],
    [0, 0, 0, 0, 0, 0, 0, 0],
    [0, 0, 0, 0, 0, 0, 0, 0],
    [0, 0, 0, 0, 0, 0, 0, 0],
    [0, 0, 0, 0, 0, 0, 0, 0],
    [0, 0, 0, 0, 0, 0, 0, 0],
    [0, 0, 0, 0, 0, 0, 0, 0],
    [0, 0, 0, 0, 0, 0, 0, 0],
    [0, 0, 0, 0, 0, 0, 0, 0],
    [0, 0, 0, 0, 0, 0, 0, 0],
    [0x18, 0x3C, 0x3C, 0x18, 0x18, 0, 0x18, 0],
    [0x36, 0x36, 0, 0, 0, 0, 0, 0],
    [0x36, 0x36, 0x7F, 0x36, 0x7F, 0x36, 0x36, 0],
    [0x0C, 0x3E, 3, 0x1E, 0x30, 0x1F, 0x0C, 0],
    [0, 0x63, 0x33, 0x18, 0x0C, 0x66, 0x63, 0],
    [0x1C, 0x36, 0x1C, 0x6E, 0x3B, 0x33, 0x6E, 0],
    [6, 6, 3, 0, 0, 0, 0, 0],
    [0x18, 0x0C, 6, 6, 6, 0x0C, 0x18, 0],
    [6, 0x0C, 0x18, 0x18, 0x18, 0x0C, 6, 0],
    [0, 0x66, 0x3C, 0xFF, 0x3C, 0x66, 0, 0],
    [0, 0x0C, 0x0C, 0x3F, 0x0C, 0x0C, 0, 0],
    [0, 0, 0, 0, 0, 0x0C, 0x0C, 6],
    [0, 0, 0, 0x3F, 0, 0, 0, 0],
    [0, 0, 0, 0, 0, 0x0C, 0x0C, 0],
    [0x60, 0x30, 0x18, 0x0C, 6, 3, 1, 0],
    [0x3E, 0x63, 0x73, 0x7B, 0x6F, 0x67, 0x3E, 0],
    [0x0C, 0x0E, 0x0C, 0x0C, 0x0C, 0x0C, 0x3F, 0],
    [0x1E, 0x33, 0x30, 0x1C, 6, 0x33, 0x3F, 0],
    [0x1E, 0x33, 0x30, 0x1C, 0x30, 0x33, 0x1E, 0],
    [0x38, 0x3C, 0x36, 0x33, 0x7F, 0x30, 0x78, 0],
    [0x3F, 3, 0x1F, 0x30, 0x30, 0x33, 0x1E, 0],
    [0x1C, 6, 3, 0x1F, 0x33, 0x33, 0x1E, 0],
    [0x3F, 0x33, 0x30, 0x18, 0x0C, 0x0C, 0x0C, 0],
    [0x1E, 0x33, 0x33, 0x1E, 0x33, 0x33, 0x1E, 0],
    [0x1E, 0x33, 0x33, 0x3E, 0x30, 0x18, 0x0E, 0],
    [0, 0x0C, 0x0C, 0, 0, 0x0C, 0x0C, 0],
    [0, 0x0C, 0x0C, 0, 0, 0x0C, 0x0C, 6],
    [0x18, 0x0C, 6, 3, 6, 0x0C, 0x18, 0],
    [0, 0, 0x3F, 0, 0, 0x3F, 0, 0],
    [6, 0x0C, 0x18, 0x30, 0x18, 0x0C, 6, 0],
    [0x1E, 0x33, 0x30, 0x18, 0x0C, 0, 0x0C, 0],
    [0x3E, 0x63, 0x7B, 0x7B, 0x7B, 3, 0x1E, 0],
    [0x0C, 0x1E, 0x33, 0x33, 0x3F, 0x33, 0x33, 0],
    [0x3F, 0x66, 0x66, 0x3E, 0x66, 0x66, 0x3F, 0],
    [0x3C, 0x66, 3, 3, 3, 0x66, 0x3C, 0],
    [0x1F, 0x36, 0x66, 0x66, 0x66, 0x36, 0x1F, 0],
    [0x7F, 0x46, 0x16, 0x1E, 0x16, 0x46, 0x7F, 0],
    [0x7F, 0x46, 0x16, 0x1E, 0x16, 6, 0x0F, 0],
    [0x3C, 0x66, 3, 3, 0x73, 0x66, 0x7C, 0],
    [0x33, 0x33, 0x33, 0x3F, 0x33, 0x33, 0x33, 0],
    [0x1E, 0x0C, 0x0C, 0x0C, 0x0C, 0x0C, 0x1E, 0],
    [0x78, 0x30, 0x30, 0x30, 0x33, 0x33, 0x1E, 0],
    [0x67, 0x66, 0x36, 0x1E, 0x36, 0x66, 0x67, 0],
    [0x0F, 6, 6, 6, 0x46, 0x66, 0x7F, 0],
    [0x63, 0x77, 0x7F, 0x7F, 0x6B, 0x63, 0x63, 0],
    [0x63, 0x67, 0x6F, 0x7B, 0x73, 0x63, 0x63, 0],
    [0x1C, 0x36, 0x63, 0x63, 0x63, 0x36, 0x1C, 0],
    [0x3F, 0x66, 0x66, 0x3E, 6, 6, 0x0F, 0],
    [0x1E, 0x33, 0x33, 0x33, 0x3B, 0x1E, 0x38, 0],
    [0x3F, 0x66, 0x66, 0x3E, 0x36, 0x66, 0x67, 0],
    [0x1E, 0x33, 7, 0x0E, 0x38, 0x33, 0x1E, 0],
    [0x3F, 0x2D, 0x0C, 0x0C, 0x0C, 0x0C, 0x1E, 0],
    [0x33, 0x33, 0x33, 0x33, 0x33, 0x33, 0x3F, 0],
    [0x33, 0x33, 0x33, 0x33, 0x33, 0x1E, 0x0C, 0],
    [0x63, 0x63, 0x63, 0x6B, 0x7F, 0x77, 0x63, 0],
    [0x63, 0x63, 0x36, 0x1C, 0x1C, 0x36, 0x63, 0],
    [0x33, 0x33, 0x33, 0x1E, 0x0C, 0x0C, 0x1E, 0],
    [0x7F, 0x63, 0x31, 0x18, 0x4C, 0x66, 0x7F, 0],
    [0x1E, 6, 6, 6, 6, 6, 0x1E, 0],
    [3, 6, 0x0C, 0x18, 0x30, 0x60, 0x40, 0],
    [0x1E, 0x18, 0x18, 0x18, 0x18, 0x18, 0x1E, 0],
    [8, 0x1C, 0x36, 0x63, 0, 0, 0, 0],
    [0, 0, 0, 0, 0, 0, 0, 0xFF],
    [0x0C, 0x0C, 0x18, 0, 0, 0, 0, 0],
    [0, 0, 0x1E, 0x30, 0x3E, 0x33, 0x6E, 0],
    [7, 6, 6, 0x3E, 0x66, 0x66, 0x3B, 0],
    [0, 0, 0x1E, 0x33, 3, 0x33, 0x1E, 0],
    [0x38, 0x30, 0x30, 0x3E, 0x33, 0x33, 0x6E, 0],
    [0, 0, 0x1E, 0x33, 0x3F, 3, 0x1E, 0],
    [0x1C, 0x36, 6, 0x0F, 6, 6, 0x0F, 0],
    [0, 0, 0x6E, 0x33, 0x33, 0x3E, 0x30, 0x1F],
    [7, 6, 0x36, 0x6E, 0x66, 0x66, 0x67, 0],
    [0x0C, 0, 0x0E, 0x0C, 0x0C, 0x0C, 0x1E, 0],
    [0x30, 0, 0x30, 0x30, 0x30, 0x33, 0x33, 0x1E],
    [7, 6, 0x66, 0x36, 0x1E, 0x36, 0x67, 0],
    [0x0E, 0x0C, 0x0C, 0x0C, 0x0C, 0x0C, 0x1E, 0],
    [0, 0, 0x33, 0x7F, 0x7F, 0x6B, 0x63, 0],
    [0, 0, 0x1F, 0x33, 0x33, 0x33, 0x33, 0],
    [0, 0, 0x1E, 0x33, 0x33, 0x33, 0x1E, 0],
    [0, 0, 0x3B, 0x66, 0x66, 0x3E, 6, 0x0F],
    [0, 0, 0x6E, 0x33, 0x33, 0x3E, 0x30, 0x78],
    [0, 0, 0x3B, 0x6E, 0x66, 6, 0x0F, 0],
    [0, 0, 0x3E, 3, 0x1E, 0x30, 0x1F, 0],
    [8, 0x0C, 0x3E, 0x0C, 0x0C, 0x2C, 0x18, 0],
    [0, 0, 0x33, 0x33, 0x33, 0x33, 0x6E, 0],
    [0, 0, 0x33, 0x33, 0x33, 0x1E, 0x0C, 0],
    [0, 0, 0x63, 0x6B, 0x7F, 0x7F, 0x36, 0],
    [0, 0, 0x63, 0x36, 0x1C, 0x36, 0x63, 0],
    [0, 0, 0x33, 0x33, 0x33, 0x3E, 0x30, 0x1F],
    [0, 0, 0x3F, 0x19, 0x0C, 0x26, 0x3F, 0],
    [0x38, 0x0C, 0x0C, 7, 0x0C, 0x0C, 0x38, 0],
    [0x18, 0x18, 0x18, 0, 0x18, 0x18, 0x18, 0],
    [7, 0x0C, 0x0C, 0x38, 0x0C, 0x0C, 7, 0],
    [0x6E, 0x3B, 0, 0, 0, 0, 0, 0],
    [0, 0, 0, 0, 0, 0, 0, 0]]"

definition font8x8_basic :: font where
  "font8x8_basic = \<lparr>font_width = 8, font_height = 8, font_data = concat font8x8_table\<rparr>"

lemma length_font8x8: "length (font_data font8x8_basic) = 1024"
  by (simp add: font8x8_basic_def font8x8_table_def)

end
