(* ===== verification/Vesa.thy ===== *)
theory Vesa
  imports Cstring Font V86
begin

unbundle bit_operations_syntax

text \<open>
  The display driver, \<^verbatim>\<open>src/drivers/vesa.c\<close>: the list of modes the firmware offers and the drawing into
  the frame buffer, which is memory. The firmware's interrupt \<open>0x10\<close>, which the code calls through the
  virtual-8086 monitor, is the parameter \<open>bios\<close>: given \<open>ax\<close>, \<open>bx\<close>, \<open>cx\<close> and \<open>di\<close> and the memory it gives
  the answer in \<open>ax\<close> and the new memory. The linked list of modes is the sequence of its records, and
  the calls of \<open>vmm_map\<close> are recorded in order.
\<close>

section \<open>Modes and colours\<close>

datatype vesa_mode = VESA_MODE_TEXT | VESA_MODE_GRAPHIC

record vesa_vector2 =
  vx :: u32
  vy :: u32

record vesa_color =
  craw :: u32
  cb :: u8
  cg :: u8
  cr :: u8
  ca :: u8

definition VESA_TEXT_COLOR :: "u32 \<Rightarrow> vesa_color" where
  "VESA_TEXT_COLOR color = \<lparr>craw = color, cb = 0, cg = 0, cr = 0, ca = 0\<rparr>"

definition VESA_GRAPHICS_COLOR :: "u8 \<Rightarrow> u8 \<Rightarrow> u8 \<Rightarrow> u8 \<Rightarrow> vesa_color" where
  "VESA_GRAPHICS_COLOR r g b a = \<lparr>craw = 0, cb = b, cg = g, cr = r, ca = a\<rparr>"

record vesa_video_mode =
  vmode :: u16
  fb :: u32
  fb_type :: vesa_mode
  fb_size :: u32
  mwidth :: u32
  mheight :: u32
  pitch :: u32
  bpp :: u8
  r_mask :: u8
  r_pos :: u8
  g_mask :: u8
  g_pos :: u8
  b_mask :: u8
  b_pos :: u8
  a_mask :: u8
  a_pos :: u8

definition zero_mode :: vesa_video_mode where
  "zero_mode = \<lparr>vmode = 0, fb = 0, fb_type = VESA_MODE_TEXT, fb_size = 0, mwidth = 0, mheight = 0, pitch = 0, bpp = 0,
     r_mask = 0, r_pos = 0, g_mask = 0, g_pos = 0, b_mask = 0, b_pos = 0, a_mask = 0, a_pos = 0\<rparr>"

record vesa_state =
  vmem :: mem
  vesa_modes :: "vesa_video_mode list"
  current_mode :: "vesa_video_mode option"
  vesa_maps :: "(u32 \<times> u32) list"

text \<open>\<open>(1 << n) - 1\<close>, stored in a byte.\<close>

definition mask_of :: "u8 \<Rightarrow> u8" where
  "mask_of n = ucast (push_bit (unat n) 1 - 1 :: u32)"

section \<open>The mode the loader set\<close>

text \<open>The fields of \<open>multiboot_info_t\<close> that describe the frame buffer.\<close>

record fb_info =
  framebuffer_addr :: u64
  framebuffer_pitch :: u32
  framebuffer_width :: u32
  framebuffer_height :: u32
  framebuffer_bpp :: u8
  framebuffer_type :: u8
  red_field_position :: u8
  red_mask_size :: u8
  green_field_position :: u8
  green_mask_size :: u8
  blue_field_position :: u8
  blue_mask_size :: u8

definition map_framebuffer :: "vesa_video_mode \<Rightarrow> vesa_state \<Rightarrow> vesa_state" where
  "map_framebuffer md s = s\<lparr>vesa_maps := vesa_maps s @ [(fb md, ALIGN (fb_size md) div PAGE_SIZE)]\<rparr>"

definition vesa_init_early :: "fb_info \<Rightarrow> (vesa_state, unit) op" where
  "vesa_init_early mboot =
     (let md = zero_mode\<lparr>mwidth := framebuffer_width mboot, mheight := framebuffer_height mboot, pitch := framebuffer_pitch mboot,
            bpp := framebuffer_bpp mboot, fb_size := framebuffer_height mboot * framebuffer_pitch mboot,
            fb := ucast (framebuffer_addr mboot)\<rparr>
      in if framebuffer_type mboot = 2 then
           smod (\<lambda>s. let md = md\<lparr>fb_type := VESA_MODE_TEXT\<rparr> in map_framebuffer md (s\<lparr>current_mode := Some md\<rparr>))
         else if framebuffer_type mboot = 1 then
           smod (\<lambda>s. let md = md\<lparr>fb_type := VESA_MODE_GRAPHIC, r_mask := mask_of (red_mask_size mboot),
                   g_mask := mask_of (green_mask_size mboot), b_mask := mask_of (blue_mask_size mboot), a_mask := 0,
                   r_pos := red_field_position mboot, g_pos := green_field_position mboot,
                   b_pos := blue_field_position mboot, a_pos := 0\<rparr>
                 in map_framebuffer md (s\<lparr>current_mode := Some md\<rparr>))
         else sfail (Panic ''Unknown framebuffer type''))"

section \<open>The modes of the firmware\<close>

type_synonym vbe = "u16 \<Rightarrow> u16 \<Rightarrow> u16 \<Rightarrow> u16 \<Rightarrow> mem \<Rightarrow> u16 \<times> mem"

definition bios_call :: "vbe \<Rightarrow> u16 \<Rightarrow> u16 \<Rightarrow> u16 \<Rightarrow> u16 \<Rightarrow> (vesa_state, bool) op" where
  "bios_call bios ax bx cx di s = (let (r, m) = bios ax bx cx di (vmem s) in Inr (r = 0x004F, s\<lparr>vmem := m\<rparr>))"

definition vesa_get_info :: "vbe \<Rightarrow> (vesa_state, bool) op" where
  "vesa_get_info bios = bios_call bios 0x4F00 0 0 0xD000"

definition vesa_get_mode_info :: "vbe \<Rightarrow> u16 \<Rightarrow> (vesa_state, bool) op" where
  "vesa_get_mode_info bios mode = bios_call bios 0x4F01 0 mode 0xE000"

definition vesa_call_set_mode :: "vbe \<Rightarrow> u16 \<Rightarrow> (vesa_state, bool) op" where
  "vesa_call_set_mode bios mode = bios_call bios 0x4F02 (mode AND NOT 0x800) 0 0"

abbreviation (input) VBE_INFO :: u32 where "VBE_INFO \<equiv> 0xD000"
abbreviation (input) VBE_MODE_INFO :: u32 where "VBE_MODE_INFO \<equiv> 0xE000"

text \<open>The mode record that is built from \<open>vbe_mode_info_t\<close>.\<close>

definition read_mode :: "mem \<Rightarrow> u16 \<Rightarrow> vesa_video_mode" where
  "read_mode m mode =
     (let md = zero_mode\<lparr>vmode := mode, mwidth := ucast (ld16 m (VBE_MODE_INFO + 18)), mheight := ucast (ld16 m (VBE_MODE_INFO + 20)),
            pitch := ucast (ld16 m (VBE_MODE_INFO + 16)), bpp := m (VBE_MODE_INFO + 25),
            fb_size := ucast (ld16 m (VBE_MODE_INFO + 16)) * ucast (ld16 m (VBE_MODE_INFO + 20)),
            fb := ld32 m (VBE_MODE_INFO + 40)\<rparr>
      in if m (VBE_MODE_INFO + 27) \<noteq> 0 then
           md\<lparr>fb_type := VESA_MODE_GRAPHIC, r_mask := mask_of (m (VBE_MODE_INFO + 31)), g_mask := mask_of (m (VBE_MODE_INFO + 33)),
             b_mask := mask_of (m (VBE_MODE_INFO + 35)), a_mask := mask_of (m (VBE_MODE_INFO + 37)),
             r_pos := m (VBE_MODE_INFO + 32), g_pos := m (VBE_MODE_INFO + 34), b_pos := m (VBE_MODE_INFO + 36),
             a_pos := m (VBE_MODE_INFO + 38)\<rparr>
         else md\<lparr>fb_type := VESA_MODE_TEXT\<rparr>)"

definition usable_mode :: "mem \<Rightarrow> bool" where
  "usable_mode m \<longleftrightarrow> ld16 m VBE_MODE_INFO AND 0x90 = 0x90 \<and> (m (VBE_MODE_INFO + 27) = 4 \<or> m (VBE_MODE_INFO + 27) = 6)"

definition mode_step :: "vbe \<Rightarrow> u32 \<Rightarrow> u32 \<Rightarrow> (vesa_state, unit + u32) op" where
  "mode_step bios modes i =
     sbind (sget (\<lambda>s. ld16 (vmem s) (modes + 2 * i))) (\<lambda>mode.
     if mode = 0xFFFF then sret (Inl ())
     else sbind (vesa_get_mode_info bios mode) (\<lambda>ok.
          sthen (smod (\<lambda>s. if ok \<and> usable_mode (vmem s)
                   then s\<lparr>vesa_modes := read_mode (vmem s) (ld16 (vmem s) (modes + 2 * i)) # vesa_modes s\<rparr> else s))
                (sret (Inr (i + 1)))))"

definition vesa_init :: "vbe \<Rightarrow> (vesa_state, unit) op" where
  "vesa_init bios =
     sthen (smod (\<lambda>s. s\<lparr>vmem := memset (vmem s) VBE_INFO 0 512\<rparr>))
    (sthen (smod (\<lambda>s. s\<lparr>vmem := (vmem s)(VBE_INFO := 0x56, VBE_INFO + 1 := 0x42, VBE_INFO + 2 := 0x45, VBE_INFO + 3 := 0x32)\<rparr>))
    (sbind (vesa_get_info bios) (\<lambda>ok.
     if \<not> ok then sret ()
     else sbind (sget (\<lambda>s. ld32 (vmem s) (VBE_INFO + 14))) (\<lambda>fp.
          sloop (mode_step bios (v86_farptr2linear fp)) 0))))"

definition vesa_find_mode :: "u32 \<Rightarrow> u32 \<Rightarrow> u8 \<Rightarrow> vesa_state \<Rightarrow> vesa_video_mode option" where
  "vesa_find_mode w h b s = find (\<lambda>md. mwidth md = w \<and> mheight md = h \<and> bpp md = b) (vesa_modes s)"

definition vesa_set_mode :: "vbe \<Rightarrow> vesa_video_mode option \<Rightarrow> (vesa_state, unit) op" where
  "vesa_set_mode bios mode =
     (case mode of None \<Rightarrow> sret ()
      | Some md \<Rightarrow> sbind (vesa_call_set_mode bios (vmode md OR 0x4000)) (\<lambda>ok.
          if \<not> ok then sret () else smod (\<lambda>s. map_framebuffer md (s\<lparr>current_mode := Some md\<rparr>))))"

definition better :: "vesa_video_mode \<Rightarrow> vesa_video_mode \<Rightarrow> bool" where
  "better md best \<longleftrightarrow> mwidth md > mwidth best \<or> (mwidth md = mwidth best \<and> mheight md > mheight best) \<or>
     (mwidth md = mwidth best \<and> mheight md = mheight best \<and> bpp md > bpp best)"

definition best_mode :: "vesa_video_mode list \<Rightarrow> vesa_video_mode option" where
  "best_mode mds = (case mds of [] \<Rightarrow> None | b # _ \<Rightarrow> Some (fold (\<lambda>md best. if better md best then md else best) mds b))"

definition vesa_switch_to_best_mode :: "vbe \<Rightarrow> (vesa_state, unit) op" where
  "vesa_switch_to_best_mode bios = sbind (sget (\<lambda>s. best_mode (vesa_modes s))) (vesa_set_mode bios)"

section \<open>Drawing\<close>

text \<open>The address of a pixel or a character cell.\<close>

definition fb_entry :: "vesa_video_mode \<Rightarrow> u32 \<Rightarrow> u32 \<Rightarrow> u32" where
  "fb_entry md x y = fb md + (y * pitch md + x * (ucast (bpp md div 8)))"

definition vesa_put_symbol :: "vesa_video_mode \<Rightarrow> vesa_vector2 \<Rightarrow> u8 \<Rightarrow> vesa_color \<Rightarrow> vesa_color \<Rightarrow> (mem, unit) op" where
  "vesa_put_symbol md pos c bg fg =
     (let e = fb_entry md (vx pos) (vy pos)
      in smod (\<lambda>m. m(e := c, e + 1 := ucast (push_bit 4 (craw bg) OR craw fg))))"

definition channel :: "u8 \<Rightarrow> u8 \<Rightarrow> u8 \<Rightarrow> u32" where
  "channel v msk pos = push_bit (unat pos) (ucast (v AND msk))"

definition full_color :: "vesa_video_mode \<Rightarrow> vesa_color \<Rightarrow> u32" where
  "full_color md color =
     channel (cr color) (r_mask md) (r_pos md) OR channel (cg color) (g_mask md) (g_pos md) OR
     channel (cb color) (b_mask md) (b_pos md) OR channel (ca color) (a_mask md) (a_pos md)"

text \<open>The copy reads the bytes of a 32-bit variable; a fifth byte would be read from behind it.\<close>

definition vesa_color2entry :: "vesa_video_mode \<Rightarrow> u32 \<Rightarrow> vesa_color \<Rightarrow> (mem, unit) op" where
  "vesa_color2entry md entry color =
     (if fb_type md = VESA_MODE_TEXT then
        smod (\<lambda>m. m(entry := 0x20, entry + 1 := ucast (push_bit 4 (craw color) OR craw color)))
      else sfor 0 (unat (bpp md div 8)) (\<lambda>i.
             if i < 4 then smod (\<lambda>m. m(entry + of_nat i := ucast (drop_bit (8 * i) (full_color md color)))) else sfail (OutOfBounds i)))"

definition vesa_render_symbol :: "vesa_video_mode \<Rightarrow> vesa_vector2 \<Rightarrow> u8 \<Rightarrow> font \<Rightarrow> vesa_color \<Rightarrow> vesa_color \<Rightarrow> (mem, unit) op" where
  "vesa_render_symbol md pos c f bg fg =
     sfor 0 (unat (font_height f)) (\<lambda>iy. sfor 0 (unat (font_width f)) (\<lambda>ix.
       let n = unat c * unat (font_height f) + iy
       in if n < length (font_data f) then
            vesa_color2entry md (fb_entry md (vx pos + of_nat ix) (vy pos + of_nat iy))
              (if drop_bit ix (font_data f ! n) AND 1 \<noteq> 0 then fg else bg)
          else sfail (OutOfBounds n)))"

definition vesa_putc :: "vesa_video_mode \<Rightarrow> vesa_vector2 \<Rightarrow> u8 \<Rightarrow> font \<Rightarrow> vesa_color \<Rightarrow> vesa_color \<Rightarrow> (mem, unit) op" where
  "vesa_putc md pos c f bg fg =
     (case fb_type md of VESA_MODE_TEXT \<Rightarrow> vesa_put_symbol md pos c bg fg
      | VESA_MODE_GRAPHIC \<Rightarrow> vesa_render_symbol md pos c f bg fg)"

definition fill_step :: "vesa_video_mode \<Rightarrow> vesa_color \<Rightarrow> u32 \<Rightarrow> (mem, unit + u32) op" where
  "fill_step md bg i =
     (if i < fb_size md then sthen (vesa_color2entry md (fb md + i) bg) (sret (Inr (i + ucast (bpp md)))) else sret (Inl ()))"

definition vesa_scroll :: "vesa_video_mode \<Rightarrow> u32 \<Rightarrow> vesa_color \<Rightarrow> (mem, unit) op" where
  "vesa_scroll md rows bg =
     (let rows_shift = rows * pitch md; delta = fb_size md - rows_shift
      in sthen (sloop (fill_step md bg) delta) (smod (\<lambda>m. memcpy m (fb md + rows_shift) (fb md) delta)))"

definition vesa_draw_picture :: "vesa_video_mode \<Rightarrow> vesa_vector2 \<Rightarrow> u32 \<Rightarrow> u32 \<Rightarrow> u32 \<Rightarrow> (mem, unit) op" where
  "vesa_draw_picture md pos w h data =
     sfor 0 (unat h) (\<lambda>iy. sfor 0 (unat w) (\<lambda>ix.
       let pixel = data + 3 * (of_nat iy * w + of_nat ix)
       in sbind (sget (\<lambda>m. (VESA_GRAPHICS_COLOR (m pixel) (m (pixel + 1)) (m (pixel + 2)) 0)))
            (vesa_color2entry md (fb_entry md (vx pos + of_nat ix) (vy pos + of_nat iy)))))"

section \<open>The best mode\<close>

text \<open>\<open>vesa_switch_to_best_mode\<close> asks for a mode of the list than which no other is better, where a mode is better if it is
  wider, or as wide and higher, or of the same size and deeper.\<close>

lemma fold_best:
  "let b = fold (\<lambda>md best. if better md best then md else best) mds b0
   in (b = b0 \<or> b \<in> set mds) \<and> (\<forall>x \<in> insert b0 (set mds). \<not> better x b)"
proof (induction mds arbitrary: b0)
  case Nil
  show ?case by (simp add: better_def)
next
  case (Cons a mds)
  let ?b1 = "if better a b0 then a else b0"
  let ?b = "fold (\<lambda>md best. if better md best then md else best) mds ?b1"
  have I: "?b = ?b1 \<or> ?b \<in> set mds" "\<forall>x \<in> insert ?b1 (set mds). \<not> better x ?b" using Cons.IH [of ?b1] by (auto simp: Let_def)
  have "\<not> better a ?b" "\<not> better b0 ?b" using I(2) by (auto simp: better_def split: if_splits)
  then show ?case using I by (auto simp: Let_def split: if_splits)
qed

lemma best_mode_best: "mds \<noteq> [] \<Longrightarrow> \<exists>b \<in> set mds. best_mode mds = Some b \<and> (\<forall>x \<in> set mds. \<not> better x b)"
  using fold_best [of mds "hd mds"] by (cases mds) (auto simp: best_mode_def Let_def)

end
