(* ===== verification/Screen.thy ===== *)
theory Screen
  imports Vesa Stdio
begin

unbundle bit_operations_syntax

text \<open>
  The console of \<^verbatim>\<open>src/drivers/early_screen.c\<close> on top of the display driver: a cursor, the characters it
  interprets, scrolling at the bottom, and the hardware cursor of the text mode, set through ports. The
  current mode is a constant of the operations, because none of them changes it. \<open>char\<close> is signed.
\<close>

section \<open>Definitions\<close>

record screen_state =
  smem :: mem
  cursor :: vesa_vector2
  sdev :: dev_state

definition fg_color_graphic :: vesa_color where "fg_color_graphic = VESA_GRAPHICS_COLOR 255 255 255 0"

definition bg_color_graphic :: vesa_color where "bg_color_graphic = VESA_GRAPHICS_COLOR 0 0 0 0"

definition fg_color_text :: vesa_color where "fg_color_text = VESA_TEXT_COLOR 15"

definition bg_color_text :: vesa_color where "bg_color_text = VESA_TEXT_COLOR 0"

definition mem_op :: "(mem, 'a) op \<Rightarrow> (screen_state, 'a) op" where
  "mem_op f s = (case f (smem s) of Inl e \<Rightarrow> Inl e | Inr (x, m) \<Rightarrow> Inr (x, s\<lparr>smem := m\<rparr>))"

definition port_op :: "(dev_state, 'a) op \<Rightarrow> (screen_state, 'a) op" where
  "port_op f s = (case f (sdev s) of Inl e \<Rightarrow> Inl e | Inr (x, d) \<Rightarrow> Inr (x, s\<lparr>sdev := d\<rparr>))"

definition get_symbol_size :: "vesa_video_mode \<Rightarrow> vesa_vector2" where
  "get_symbol_size md =
     (if fb_type md = VESA_MODE_TEXT then \<lparr>vx = 1, vy = 1\<rparr>
      else \<lparr>vx = ucast (font_width font8x8_basic) + 2, vy = ucast (font_height font8x8_basic) + 2\<rparr>)"

definition get_color :: "vesa_video_mode \<Rightarrow> bool \<Rightarrow> vesa_color" where
  "get_color md fg =
     (if fb_type md = VESA_MODE_TEXT then (if fg then fg_color_text else bg_color_text)
      else if fg then fg_color_graphic else bg_color_graphic)"

definition screen_move_cursor :: "vesa_video_mode \<Rightarrow> (screen_state, unit) op" where
  "screen_move_cursor md =
     (if fb_type md \<noteq> VESA_MODE_TEXT then sret ()
      else sbind (sget cursor) (\<lambda>cur.
        let loc = ucast (vy cur * mwidth md + vx cur) :: u16
        in port_op (sthen (port_outb 0x3D4 14) (sthen (port_outb 0x3D5 (ucast (drop_bit 8 loc)))
             (sthen (port_outb 0x3D4 15) (port_outb 0x3D5 (ucast loc)))))))"

definition screen_scroll :: "vesa_video_mode \<Rightarrow> (screen_state, unit) op" where
  "screen_scroll md =
     sbind (sget cursor) (\<lambda>cur.
     if vy cur \<ge> mheight md - vy (get_symbol_size md) then
       sthen (mem_op (vesa_scroll md (vy (get_symbol_size md)) (get_color md False)))
             (smod (\<lambda>s. s\<lparr>cursor := cur\<lparr>vy := vy cur - vy (get_symbol_size md)\<rparr>\<rparr>))
     else sret ())"

text \<open>The \<open>switch\<close> of \<open>screen_putc\<close>, which draws and moves the cursor.\<close>

definition putc_switch :: "vesa_video_mode \<Rightarrow> u8 \<Rightarrow> (screen_state, unit) op" where
  "putc_switch md c =
     (let sz = get_symbol_size md
      in sbind (sget cursor) (\<lambda>cur.
         if c = 0x08 then
           (if vx cur \<noteq> 0 then
              (let cur = cur\<lparr>vx := vx cur - vx sz\<rparr>
               in sthen (smod (\<lambda>s. s\<lparr>cursor := cur\<rparr>))
                        (mem_op (vesa_putc md cur 0x20 font8x8_basic (get_color md False) (get_color md True))))
            else sret ())
         else if c = 0x09 then smod (\<lambda>s. s\<lparr>cursor := cur\<lparr>vx := vx cur + (4 - (vx cur mod 4))\<rparr>\<rparr>)
         else if c = 0x0A then smod (\<lambda>s. s\<lparr>cursor := \<lparr>vx = 0, vy = vy cur + vy sz\<rparr>\<rparr>)
         else if c = 0x0D then smod (\<lambda>s. s\<lparr>cursor := cur\<lparr>vx := 0\<rparr>\<rparr>)
         else if sint c \<ge> 0x20 then
           sthen (mem_op (vesa_putc md cur c font8x8_basic (get_color md False) (get_color md True)))
                 (smod (\<lambda>s. s\<lparr>cursor := cur\<lparr>vx := vx cur + vx sz\<rparr>\<rparr>))
         else sret ()))"

definition wrap_line :: "vesa_video_mode \<Rightarrow> (screen_state, unit) op" where
  "wrap_line md = smod (\<lambda>s. if vx (cursor s) \<ge> mwidth md
     then s\<lparr>cursor := \<lparr>vx = 0, vy = vy (cursor s) + vy (get_symbol_size md)\<rparr>\<rparr> else s)"

definition screen_putc :: "vesa_video_mode \<Rightarrow> u8 \<Rightarrow> (screen_state, unit) op" where
  "screen_putc md c =
     sthen (putc_switch md c) (sthen (wrap_line md) (sthen (screen_scroll md) (screen_move_cursor md)))"

definition screen_clear :: "vesa_video_mode \<Rightarrow> (screen_state, unit) op" where
  "screen_clear md = sthen (smod (\<lambda>s. s\<lparr>cursor := \<lparr>vx = 0, vy = 0\<rparr>\<rparr>)) (screen_move_cursor md)"

definition puts_step :: "vesa_video_mode \<Rightarrow> u32 \<Rightarrow> (screen_state, unit + u32) op" where
  "puts_step md c =
     sbind (sget (\<lambda>s. smem s c)) (\<lambda>ch. if ch \<noteq> 0 then sthen (screen_putc md ch) (sret (Inr (c + 1))) else sret (Inl ()))"

definition screen_puts :: "vesa_video_mode \<Rightarrow> u32 \<Rightarrow> (screen_state, unit) op" where
  "screen_puts md c = sloop (puts_step md) c"

text \<open>\<open>screen_init\<close> makes \<open>screen_putc\<close> the output of \<open>kprintf\<close>.\<close>

definition screen_init :: "vesa_video_mode \<Rightarrow> (screen_state, (u8 \<Rightarrow> (screen_state, unit) op) option) op" where
  "screen_init md = sthen (screen_clear md) (sret (Some (screen_putc md)))"

section \<open>Text mode\<close>

text \<open>A text mode of \<open>W\<close> columns and \<open>H\<close> rows, two bytes a cell, without padding.\<close>

definition text_mode :: "vesa_video_mode \<Rightarrow> nat \<Rightarrow> nat \<Rightarrow> bool" where
  "text_mode md W H \<longleftrightarrow> fb_type md = VESA_MODE_TEXT \<and> bpp md = 16 \<and> mwidth md = of_nat W \<and> mheight md = of_nat H \<and>
     pitch md = of_nat (2 * W) \<and> fb_size md = of_nat (2 * W * H) \<and> 0 < W \<and> 2 \<le> H \<and> 2 * W * H < 2 ^ 31"

lemma fb_inj: "j < 2 ^ 31 \<Longrightarrow> k < 2 ^ 31 \<Longrightarrow> (a + of_nat j :: u32) = a + of_nat k \<longleftrightarrow> j = k"
  by simp

definition filled :: "vesa_color \<Rightarrow> nat \<Rightarrow> u8 \<Rightarrow> u8" where
  "filled bg k v = (if k mod 16 = 0 then 0x20 else if k mod 16 = 1 then ucast (push_bit 4 (craw bg) OR craw bg) else v)"

lemma fill_loop:
  assumes t: "fb_type md = VESA_MODE_TEXT" "fb_size md = of_nat n" "bpp md = 16" and n: "n < 2 ^ 31" "even n" and "even i" "i \<le> n"
  shows "\<exists>m'. sloop (fill_step md bg) (of_nat i) m = Inr ((), m') \<and>
    (\<forall>j. i \<le> j \<and> j < n \<longrightarrow> m' (fb md + of_nat j) = filled bg (j - i) (m (fb md + of_nat j))) \<and>
    (\<forall>a. (\<forall>j. i \<le> j \<and> j < n \<longrightarrow> a \<noteq> fb md + of_nat j) \<longrightarrow> m' a = m a)"
  using assms(6,7)
proof (induction "n - i" arbitrary: i m rule: less_induct)
  case less
  show ?case
  proof (cases "i < n")
    case False
    then have "i = n" using less.prems by simp
    then have "sloop (fill_step md bg) (of_nat i) m = Inr ((), m)"
      by (subst sloop_unfold) (simp add: fill_step_def t sbind_def)
    with False show ?thesis by auto
  next
    case True
    let ?m1 = "m(fb md + of_nat i := 0x20, fb md + of_nat i + 1 := ucast (push_bit 4 (craw bg) OR craw bg))"
    have i1: "fb md + of_nat i + 1 = fb md + of_nat (i + 1)" by simp
    have lt: "i + 1 < n" using less.prems(1) True n(2) by presburger
    have "(of_nat i :: u32) < of_nat n" using True n by (intro of_nat_less_iff_u32 [THEN iffD2]) simp_all
    then have s: "sloop (fill_step md bg) (of_nat i) m = sloop (fill_step md bg) (of_nat (i + 16)) ?m1"
      by (subst sloop_unfold) (simp add: fill_step_def t sbind_def sthen_apply vesa_color2entry_def)
    have at1: "?m1 (fb md + of_nat j) = (if j = i then 0x20 else if j = i + 1 then ucast (push_bit 4 (craw bg) OR craw bg) else m (fb md + of_nat j))"
      if "j < n" for j
      unfolding i1 using that n lt fb_inj [of j i] fb_inj [of j "i + 1"] by (simp del: of_nat_add of_nat_Suc)
    have out1: "?m1 a = m a" if "\<forall>j. i \<le> j \<and> j < n \<longrightarrow> a \<noteq> fb md + of_nat j" for a
      unfolding i1 using that lt True by (simp del: of_nat_add of_nat_Suc)
    show ?thesis
    proof (cases "i + 16 \<le> n")
      case le: True
      obtain m' where m': "sloop (fill_step md bg) (of_nat (i + 16)) ?m1 = Inr ((), m')"
        "\<forall>j. i + 16 \<le> j \<and> j < n \<longrightarrow> m' (fb md + of_nat j) = filled bg (j - (i + 16)) (?m1 (fb md + of_nat j))"
        "\<forall>a. (\<forall>j. i + 16 \<le> j \<and> j < n \<longrightarrow> a \<noteq> fb md + of_nat j) \<longrightarrow> m' a = ?m1 a"
        using less.hyps [of "i + 16" ?m1] True le less.prems by fastforce
      have "m' (fb md + of_nat j) = filled bg (j - i) (m (fb md + of_nat j))" if "i \<le> j" "j < n" for j
      proof (cases "i + 16 \<le> j")
        case True
        then have "j - i = (j - (i + 16)) + 16" by simp
        then have "(j - i) mod 16 = (j - (i + 16)) mod 16" by (metis mod_add_self2)
        then show ?thesis using m'(2) at1 [of j] True that by (simp add: filled_def)
      next
        case False
        have "fb md + of_nat j \<noteq> fb md + (of_nat j' :: u32)" if "i + 16 \<le> j'" "j' < n" for j'
          using fb_inj [of j j'] n False that \<open>j < n\<close> by simp
        then have "m' (fb md + of_nat j) = ?m1 (fb md + of_nat j)" using m'(3) by blast
        then show ?thesis using at1 [of j] that False by (auto simp: filled_def)
      qed
      then show ?thesis using s m' out1 by (intro exI [of _ m']) auto
    next
      case False
      have "\<not> (of_nat (i + 16) :: u32) < of_nat n"
        using False n True of_nat_less_iff_u32 [of "i + 16" n] by (simp del: of_nat_add)
      then have "sloop (fill_step md bg) (of_nat (i + 16)) ?m1 = Inr ((), ?m1)"
        by (subst sloop_unfold) (simp add: fill_step_def t sbind_def del: of_nat_add)
      moreover have "?m1 (fb md + of_nat j) = filled bg (j - i) (m (fb md + of_nat j))" if "i \<le> j" "j < n" for j
        using at1 [of j] that False by (auto simp: filled_def)
      ultimately show ?thesis using s out1 by (intro exI [of _ ?m1]) auto
    qed
  qed
qed

lemma scroll_text:
  fixes m :: mem
  assumes T: "text_mode md W H"
  defines "n \<equiv> 2 * W * H" and "del \<equiv> 2 * W * (H - 1)"
  shows "\<exists>m'. vesa_scroll md 1 bg m = Inr ((), m') \<and> same_outside m m' (fb md) n \<and>
    (\<forall>j < del. m' (fb md + of_nat j) =
       (if j + 2 * W < del then m (fb md + of_nat (j + 2 * W)) else filled bg (j + 2 * W - del) (m (fb md + of_nat (j + 2 * W))))) \<and>
    (\<forall>j. del \<le> j \<and> j < n \<longrightarrow> m' (fb md + of_nat j) = filled bg (j - del) (m (fb md + of_nat j)))"
proof -
  have n: "n < 2 ^ 31" "even n" "0 < W" and t: "fb_type md = VESA_MODE_TEXT" "fb_size md = of_nat n" "bpp md = 16" "pitch md = of_nat (2 * W)"
    using T by (auto simp: text_mode_def n_def)
  obtain K where K: "H = Suc K" using T by (cases H) (auto simp: text_mode_def)
  have d: "del + 2 * W = n" "even del" by (simp_all add: n_def del_def K)
  have delta: "fb_size md - 1 * pitch md = of_nat del" unfolding t d(1) [symmetric] by simp
  obtain m1 where m1: "sloop (fill_step md bg) (of_nat del) m = Inr ((), m1)"
    "\<forall>j. del \<le> j \<and> j < n \<longrightarrow> m1 (fb md + of_nat j) = filled bg (j - del) (m (fb md + of_nat j))"
    "\<forall>a. (\<forall>j. del \<le> j \<and> j < n \<longrightarrow> a \<noteq> fb md + of_nat j) \<longrightarrow> m1 a = m a"
    using fill_loop [OF t(1-3) n(1,2) d(2), of bg m] d(1) by auto
  let ?m2 = "memcpy m1 (fb md + 1 * pitch md) (fb md) (of_nat del)"
  have r: "vesa_scroll md 1 bg m = Inr ((), ?m2)"
    using m1(1) by (simp only: vesa_scroll_def Let_def delta) (simp add: sthen_apply)
  have u: "unat (of_nat del :: u32) = del" using d(1) n(1) by (intro unat_of_nat_small) simp
  have keep: "m1 (fb md + of_nat j) = m (fb md + of_nat j)" if "j < del" for j
  proof -
    have "fb md + of_nat j \<noteq> fb md + (of_nat k :: u32)" if "del \<le> k" "k < n" for k
      using fb_inj [of j k] n(1) \<open>j < del\<close> that by simp
    then show ?thesis using m1(3) by blast
  qed
  have low: "?m2 (fb md + of_nat j) = m1 (fb md + of_nat (j + 2 * W))" if "j < del" for j
  proof -
    have "fb md \<noteq> fb md + of_nat (2 * W) + of_nat i" if "i < del" for i
      using fb_inj [of 0 "2 * W + i" "fb md"] n d(1) that by (simp add: add.assoc)
    then have "fst (copy_loop del m1 (fb md + of_nat (2 * W)) (fb md)) (fb md + of_nat j) = m1 (fb md + of_nat (2 * W) + of_nat j)"
      using n(1) d(1) \<open>j < del\<close> by (intro copy_loop_in) auto
    then show ?thesis by (simp add: memcpy_def u t(4) algebra_simps)
  qed
  have frame: "?m2 a = m1 a" if "\<forall>j < del. a \<noteq> fb md + of_nat j" for a
    using copy_loop_frame [of m1 del "fb md + 1 * pitch md" "fb md"] that unfolding same_outside_def memcpy_def u by blast
  have high: "?m2 (fb md + of_nat j) = m1 (fb md + of_nat j)" if "del \<le> j" "j < n" for j
  proof (rule frame, intro allI impI)
    fix k assume "k < del"
    then show "fb md + of_nat j \<noteq> fb md + (of_nat k :: u32)" using fb_inj [of j k] n(1) that by simp
  qed
  have "same_outside m ?m2 (fb md) n"
    using frame m1(3) d(1) by (auto simp: same_outside_def)
  moreover have "?m2 (fb md + of_nat j) =
       (if j + 2 * W < del then m (fb md + of_nat (j + 2 * W)) else filled bg (j + 2 * W - del) (m (fb md + of_nat (j + 2 * W))))"
    if "j < del" for j
    using low [OF that] keep [of "j + 2 * W"] m1(2) that d(1) by (auto simp del: of_nat_add)
  ultimately show ?thesis using r high m1(2) by auto
qed

section \<open>The cursor\<close>

definition cursor_ok :: "nat \<Rightarrow> nat \<Rightarrow> vesa_vector2 \<Rightarrow> bool" where
  "cursor_ok W H cur \<longleftrightarrow> unat (vx cur) < W \<and> unat (vy cur) < H - 1"

text \<open>The offset of a cell.\<close>

lemma cell_offset:
  assumes T: "text_mode md W H" and "unat (vx cur) < W" "unat (vy cur) < H"
  shows "fb_entry md (vx cur) (vy cur) = fb md + of_nat (2 * W * unat (vy cur) + 2 * unat (vx cur))"
    and "2 * W * unat (vy cur) + 2 * unat (vx cur) + 1 < 2 * W * H"
proof -
  show "fb_entry md (vx cur) (vy cur) = fb md + of_nat (2 * W * unat (vy cur) + 2 * unat (vx cur))"
  proof -
    have "ucast (bpp md div 8) = (2 :: u32)" "pitch md = of_nat (2 * W)" using T by (simp_all add: text_mode_def)
    then show ?thesis by (simp add: fb_entry_def mult.commute mult.left_commute)
  qed
  have "2 * W * unat (vy cur) + 2 * W \<le> 2 * W * H"
    using assms(3) by (metis Suc_leI mult_Suc_right mult_le_mono2 add.commute)
  then show "2 * W * unat (vy cur) + 2 * unat (vx cur) + 1 < 2 * W * H" using assms(2) by linarith
qed

lemma put_symbol_text:
  assumes T: "text_mode md W H" and c: "unat (vx cur) < W" "unat (vy cur) < H"
  shows "\<exists>m'. vesa_putc md cur ch f bg fg m = Inr ((), m') \<and> same_outside m m' (fb md) (2 * W * H) \<and>
    m' (fb_entry md (vx cur) (vy cur)) = ch"
proof -
  let ?e = "fb_entry md (vx cur) (vy cur)"
  let ?m = "m(?e := ch, ?e + 1 := ucast (push_bit 4 (craw bg) OR craw fg))"
  have "vesa_putc md cur ch f bg fg m = Inr ((), ?m)"
    using T by (simp add: vesa_putc_def text_mode_def vesa_put_symbol_def Let_def)
  moreover have "same_outside m ?m (fb md) (2 * W * H)"
    unfolding same_outside_def
  proof (intro allI impI)
    fix a assume a: "\<forall>j < 2 * W * H. a \<noteq> fb md + of_nat j"
    let ?o = "2 * W * unat (vy cur) + 2 * unat (vx cur)"
    have l: "?o < 2 * W * H" "?o + 1 < 2 * W * H" using cell_offset(2) [OF T c] by linarith+
    have "a \<noteq> fb md + of_nat ?o" "a \<noteq> fb md + of_nat (?o + 1)" by (rule a [rule_format, OF l(1)], rule a [rule_format, OF l(2)])
    then show "?m a = m a" unfolding cell_offset(1) [OF T c] by (simp add: ac_simps)
  qed
  ultimately show ?thesis by auto
qed

lemma text_word_bounds:
  assumes "text_mode md W H"
  shows "W < 2 ^ 31" "H < 2 ^ 31" "unat (mwidth md) = W" "unat (mheight md - 1) = H - 1" "get_symbol_size md = \<lparr>vx = 1, vy = 1\<rparr>"
proof -
  have p: "0 < W" "2 \<le> H" "2 * W * H < 2 ^ 31" and md: "mwidth md = of_nat W" "mheight md = of_nat H" "fb_type md = VESA_MODE_TEXT"
    using assms by (auto simp: text_mode_def)
  have "W * 1 \<le> W * H" "1 * H \<le> W * H" using p by (intro mult_le_mono; simp)+
  then show w: "W < 2 ^ 31" and h: "H < 2 ^ 31" using p(3) by linarith+
  show "unat (mwidth md) = W" using w md(1) by (simp add: unat_of_nat)
  have "mheight md - 1 = of_nat (H - 1)" using p(2) md(2) by (simp add: of_nat_diff)
  then show "unat (mheight md - 1) = H - 1" using h by (simp add: unat_of_nat del: of_nat_diff)
  show "get_symbol_size md = \<lparr>vx = 1, vy = 1\<rparr>" using md(3) by (simp add: get_symbol_size_def)
qed

lemma unat_plus_1: "unat x < 2 ^ 31 \<Longrightarrow> unat (x + 1 :: u32) = unat x + 1"
  using unat_add_small [of x 1] by simp

lemma screen_move_cursor_frame: "\<exists>d. screen_move_cursor md s = Inr ((), s\<lparr>sdev := d\<rparr>)"
proof (cases "fb_type md")
  case VESA_MODE_TEXT
  then show ?thesis
    by (simp add: screen_move_cursor_def sbind_def port_op_def sthen_apply port_outb_def emit_def Let_def) (rule exI, rule refl)
next
  case VESA_MODE_GRAPHIC
  then show ?thesis by (intro exI [of _ "sdev s"]) (simp add: screen_move_cursor_def)
qed

text \<open>What the switch leaves: on the same row, at most four columns further, or at the start of the next row.\<close>

definition advanced :: "nat \<Rightarrow> vesa_vector2 \<Rightarrow> vesa_vector2 \<Rightarrow> bool" where
  "advanced W cur cur' \<longleftrightarrow> (vy cur' = vy cur \<and> unat (vx cur') < W + 4) \<or> (vx cur' = 0 \<and> vy cur' = vy cur + 1)"

lemma putc_switch_text:
  assumes T: "text_mode md W H" and c: "cursor_ok W H (cursor s)"
  shows "\<exists>s'. putc_switch md ch s = Inr ((), s') \<and> same_outside (smem s) (smem s') (fb md) (2 * W * H) \<and>
    advanced W (cursor s) (cursor s') \<and>
    (sint ch \<ge> 0x20 \<longrightarrow> smem s' (fb_entry md (vx (cursor s)) (vy (cursor s))) = ch \<and> cursor s' = (cursor s)\<lparr>vx := vx (cursor s) + 1\<rparr>)"
proof -
  let ?cur = "cursor s"
  have w: "W < 2 ^ 31" and sz: "get_symbol_size md = \<lparr>vx = 1, vy = 1\<rparr>" using text_word_bounds [OF T] by auto
  have x: "unat (vx ?cur) < W" "unat (vy ?cur) < H" using c by (auto simp: cursor_ok_def)
  have neg: "sint ch \<ge> 0x20 \<Longrightarrow> ch \<noteq> 8 \<and> ch \<noteq> 9 \<and> ch \<noteq> 10 \<and> ch \<noteq> 13" by auto
  have x1: "unat (vx ?cur + 1) = unat (vx ?cur) + 1" using x(1) w by (intro unat_plus_1) simp
  consider "ch = 8" "vx ?cur \<noteq> 0" | "ch = 8" "vx ?cur = 0" | "ch = 9" | "ch = 10" | "ch = 13"
    | "ch \<notin> {8, 9, 10, 13}" "sint ch \<ge> 0x20" | "ch \<notin> {8, 9, 10, 13}" "\<not> sint ch \<ge> 0x20" by auto
  then show ?thesis
  proof cases
    case 1
    have u: "unat (vx ?cur - 1) = unat (vx ?cur) - 1" using 1(2) by (simp add: unat_minus_one)
    obtain m' where "vesa_putc md (?cur\<lparr>vx := vx ?cur - 1\<rparr>) 0x20 font8x8_basic (get_color md False) (get_color md True) (smem s) = Inr ((), m')"
        "same_outside (smem s) m' (fb md) (2 * W * H)"
      using put_symbol_text [OF T, of "?cur\<lparr>vx := vx ?cur - 1\<rparr>" "0x20" font8x8_basic "get_color md False" "get_color md True" "smem s"] x u
      by (auto simp: less_imp_diff_less)
    then show ?thesis using 1 x u by (simp add: putc_switch_def Let_def sz sbind_def sthen_apply mem_op_def advanced_def)
  next
    case 3
    have "unat (4 - vx ?cur mod 4) \<le> 4"
    proof -
      have "unat (vx ?cur mod 4) < 4" by (simp add: unat_mod)
      then have "unat (4 - vx ?cur mod 4) = 4 - unat (vx ?cur mod 4)" using unat_sub [of "vx ?cur mod 4" 4] by (simp add: word_le_nat_alt)
      then show ?thesis by simp
    qed
    moreover from this have "unat (vx ?cur + (4 - vx ?cur mod 4)) = unat (vx ?cur) + unat (4 - vx ?cur mod 4)"
      using x(1) w by (intro unat_add_small) simp
    ultimately show ?thesis using 3 x by (simp add: putc_switch_def Let_def sbind_def advanced_def)
  next
    case 6
    obtain m' where "vesa_putc md ?cur ch font8x8_basic (get_color md False) (get_color md True) (smem s) = Inr ((), m')"
        "same_outside (smem s) m' (fb md) (2 * W * H)" "m' (fb_entry md (vx ?cur) (vy ?cur)) = ch"
      using put_symbol_text [OF T, of ?cur] x by blast
    then show ?thesis using 6 x x1 by (simp add: putc_switch_def Let_def sz sbind_def sthen_apply mem_op_def advanced_def)
  qed (use x sz in \<open>simp_all add: putc_switch_def Let_def sbind_def advanced_def\<close>)
qed

lemma screen_putc_text:
  assumes T: "text_mode md W H" and c: "cursor_ok W H (cursor s)"
  shows "\<exists>s'. screen_putc md ch s = Inr ((), s') \<and> cursor_ok W H (cursor s') \<and>
    same_outside (smem s) (smem s') (fb md) (2 * W * H) \<and>
    (sint ch \<ge> 0x20 \<and> Suc (unat (vx (cursor s))) < W \<longrightarrow>
      smem s' (fb_entry md (vx (cursor s)) (vy (cursor s))) = ch \<and> cursor s' = (cursor s)\<lparr>vx := vx (cursor s) + 1\<rparr>)"
proof -
  note B = text_word_bounds [OF T]
  obtain s1 where s1: "putc_switch md ch s = Inr ((), s1)" "same_outside (smem s) (smem s1) (fb md) (2 * W * H)"
      "advanced W (cursor s) (cursor s1)"
      "sint ch \<ge> 0x20 \<longrightarrow> smem s1 (fb_entry md (vx (cursor s)) (vy (cursor s))) = ch \<and> cursor s1 = (cursor s)\<lparr>vx := vx (cursor s) + 1\<rparr>"
    using putc_switch_text [OF T c] by blast
  define s2 where "s2 = (if vx (cursor s1) \<ge> mwidth md then s1\<lparr>cursor := \<lparr>vx = 0, vy = vy (cursor s1) + 1\<rparr>\<rparr> else s1)"
  have w: "wrap_line md s1 = Inr ((), s2)" by (simp add: wrap_line_def s2_def B(5))
  have y0: "unat (vy (cursor s)) < H - 1" and W: "0 < W" using c by (auto simp: cursor_ok_def)
  then have y1: "unat (vy (cursor s) + 1) = unat (vy (cursor s)) + 1" using B(2) by (intro unat_plus_1) simp
  have c2: "unat (vx (cursor s2)) < W" "unat (vy (cursor s2)) \<le> H - 1"
    using s1(3) y0 y1 W by (auto simp: s2_def advanced_def word_le_nat_alt B(3))
  have m2: "smem s2 = smem s1" by (simp add: s2_def)
  have x1: "unat (vx (cursor s) + 1) = unat (vx (cursor s)) + 1" using c B(1) by (intro unat_plus_1) (simp add: cursor_ok_def)
  have stay: "s2 = s1" if "sint ch \<ge> 0x20" "Suc (unat (vx (cursor s))) < W"
    using that s1(4) x1 by (simp add: s2_def word_le_nat_alt B(3))
  show ?thesis
  proof (cases "vy (cursor s2) \<ge> mheight md - 1")
    case True
    then have y: "unat (vy (cursor s2)) = H - 1" using c2(2) by (simp add: word_le_nat_alt B(4))
    obtain m' where m': "vesa_scroll md 1 (get_color md False) (smem s2) = Inr ((), m')" "same_outside (smem s2) m' (fb md) (2 * W * H)"
      using scroll_text [OF T] by blast
    let ?s3 = "s2\<lparr>smem := m', cursor := (cursor s2)\<lparr>vy := vy (cursor s2) - 1\<rparr>\<rparr>"
    have "screen_scroll md s2 = Inr ((), ?s3)"
      using True m'(1) by (simp add: screen_scroll_def B(5) sbind_def sthen_apply mem_op_def)
    moreover have "vy (cursor s2) \<noteq> 0" using y y0 by auto
    then have "cursor_ok W H (cursor ?s3)" using c2 y y0 by (simp add: cursor_ok_def unat_minus_one)
    moreover have "\<not> (sint ch \<ge> 0x20 \<and> Suc (unat (vx (cursor s))) < W)" using stay s1(4) y y0 by auto
    moreover obtain d where "screen_move_cursor md ?s3 = Inr ((), ?s3\<lparr>sdev := d\<rparr>)" using screen_move_cursor_frame by blast
    ultimately show ?thesis
      using s1(1,2) w m2 m'(2) by (auto simp: screen_putc_def sthen_apply same_outside_def)
  next
    case False
    then have "screen_scroll md s2 = Inr ((), s2)" by (simp add: screen_scroll_def B(5) sbind_def)
    moreover have "cursor_ok W H (cursor s2)" using c2 False by (simp add: cursor_ok_def word_le_nat_alt B(4))
    moreover obtain d where "screen_move_cursor md s2 = Inr ((), s2\<lparr>sdev := d\<rparr>)" using screen_move_cursor_frame by blast
    ultimately show ?thesis
      using s1(1,2,4) w m2 stay by (auto simp: screen_putc_def sthen_apply)
  qed
qed

lemma screen_text_all:
  assumes T: "text_mode md W H" and c: "cursor_ok W H (cursor s)"
  shows "\<exists>s'. siter (screen_putc md) bs s = Inr ((), s') \<and> cursor_ok W H (cursor s') \<and>
    same_outside (smem s) (smem s') (fb md) (2 * W * H)"
  using c
proof (induction bs arbitrary: s)
  case Nil
  then show ?case by (auto simp: same_outside_def)
next
  case (Cons b bs)
  obtain s1 where s1: "screen_putc md b s = Inr ((), s1)" "cursor_ok W H (cursor s1)" "same_outside (smem s) (smem s1) (fb md) (2 * W * H)"
    using screen_putc_text [OF T Cons.prems, of b] by blast
  obtain s2 where "siter (screen_putc md) bs s1 = Inr ((), s2)" "cursor_ok W H (cursor s2)" "same_outside (smem s1) (smem s2) (fb md) (2 * W * H)"
    using Cons.IH [OF s1(2)] by blast
  with s1 show ?case by (auto simp: sthen_apply same_outside_def)
qed

section \<open>Properties\<close>

text \<open>C27: on a text screen the console is safe: \<open>kprintf\<close> of a format and arguments on which the scanner returns
  ends for any text, control characters included, leaves the cursor within the screen and above its last row, and
  writes nothing outside the frame buffer. A printable character that does not end the row is
  stored in the cell at the cursor, which moves one column on.\<close>

theorem screen_text_safe:
  assumes "text_mode md W H" and "cursor_ok W H (cursor s)" and "vprintf True m format args = Some out"
  shows "(\<exists>s'. kprintf (Some (screen_putc md)) m format args s = Inr ((), s') \<and> cursor_ok W H (cursor s') \<and>
      same_outside (smem s) (smem s') (fb md) (2 * W * H)) \<and>
    (\<forall>c. sint c \<ge> 0x20 \<and> Suc (unat (vx (cursor s))) < W \<longrightarrow> (\<exists>s'. screen_putc md c s = Inr ((), s') \<and>
      smem s' (fb_entry md (vx (cursor s)) (vy (cursor s))) = c \<and> cursor s' = (cursor s)\<lparr>vx := vx (cursor s) + 1\<rparr>))"
proof (intro conjI allI impI)
  show "\<exists>s'. kprintf (Some (screen_putc md)) m format args s = Inr ((), s') \<and> cursor_ok W H (cursor s') \<and>
      same_outside (smem s) (smem s') (fb md) (2 * W * H)"
    using screen_text_all [OF assms(1,2), of out] assms(3) by (simp add: kprintf_def)
  fix c :: u8 assume "sint c \<ge> 0x20 \<and> Suc (unat (vx (cursor s))) < W"
  then show "\<exists>s'. screen_putc md c s = Inr ((), s') \<and>
      smem s' (fb_entry md (vx (cursor s)) (vy (cursor s))) = c \<and> cursor s' = (cursor s)\<lparr>vx := vx (cursor s) + 1\<rparr>"
    using screen_putc_text [OF assms(1,2), of c] by blast
qed

definition demo_mode :: vesa_video_mode where
  "demo_mode = zero_mode\<lparr>fb := 0xB8000, fb_size := 4000, mwidth := 80, mheight := 25, pitch := 160, bpp := 16\<rparr>"

definition demo_screen :: screen_state where
  "demo_screen = \<lparr>smem = (\<lambda>_. 0), cursor = \<lparr>vx = 0, vy = 0\<rparr>, sdev = demo_dev\<rparr>"

theorem screen_text_safe_witness:
  "\<exists>s'. screen_putc demo_mode 0x41 demo_screen = Inr ((), s') \<and> smem s' 0xB8000 = 0x41"
proof -
  have T: "text_mode demo_mode 80 25" and c: "cursor_ok 80 25 (cursor demo_screen)"
    by (simp_all add: text_mode_def demo_mode_def zero_mode_def cursor_ok_def demo_screen_def)
  have v: "vprintf True (\<lambda>_. 0) 0 (\<lambda>_. 0) = Some []" by (simp add: vprintf_def vprintf_loop.simps)
  have "fb_entry demo_mode 0 0 = 0xB8000" by (simp add: fb_entry_def demo_mode_def)
  then show ?thesis
    using screen_text_safe [OF T c v, THEN conjunct2, THEN spec, of "0x41"] by (auto simp: demo_screen_def)
qed

text \<open>C30: scrolling a text screen by one row moves every row but the last two up unchanged. The row that appears
  above the last one is the old last row, and the last row itself is not cleared: the loop that
  should blank it runs before the copy and steps by the number of bits of a cell instead of its
  bytes, so only every eighth cell becomes blank. Nothing outside the frame buffer changes.\<close>

theorem vesa_scroll_rows:
  assumes "text_mode md W H"
  shows "\<exists>m'. vesa_scroll md 1 bg m = Inr ((), m') \<and> same_outside m m' (fb md) (2 * W * H) \<and>
    (\<forall>r x. r + 2 < H \<and> x < 2 * W \<longrightarrow> m' (fb md + of_nat (2 * W * r + x)) = m (fb md + of_nat (2 * W * (r + 1) + x))) \<and>
    (\<forall>x < 2 * W. m' (fb md + of_nat (2 * W * (H - 2) + x)) = filled bg x (m (fb md + of_nat (2 * W * (H - 1) + x))) \<and>
       m' (fb md + of_nat (2 * W * (H - 1) + x)) = filled bg x (m (fb md + of_nat (2 * W * (H - 1) + x))))"
proof -
  obtain m' where m': "vesa_scroll md 1 bg m = Inr ((), m')" "same_outside m m' (fb md) (2 * W * H)"
    and low: "\<And>j. j < 2 * W * (H - 1) \<Longrightarrow> m' (fb md + of_nat j) =
       (if j + 2 * W < 2 * W * (H - 1) then m (fb md + of_nat (j + 2 * W))
        else filled bg (j + 2 * W - 2 * W * (H - 1)) (m (fb md + of_nat (j + 2 * W))))"
    and high: "\<And>j. 2 * W * (H - 1) \<le> j \<Longrightarrow> j < 2 * W * H \<Longrightarrow>
       m' (fb md + of_nat j) = filled bg (j - 2 * W * (H - 1)) (m (fb md + of_nat j))"
    using scroll_text [OF assms, of bg m] by blast
  obtain K where K: "H = Suc (Suc K)" using assms by (metis text_mode_def le_Suc_ex add_2_eq_Suc)
  have row: "2 * W * r + x + 2 * W = 2 * W * (r + 1) + x" for r x by (simp add: algebra_simps)
  have below: "2 * W * r + x < 2 * W * q" if "r < q" "x < 2 * W" for r q x
  proof -
    have "2 * W * r + 2 * W \<le> 2 * W * q" using that(1) by (metis Suc_leI mult_Suc_right mult_le_mono2 add.commute)
    then show ?thesis using that(2) by linarith
  qed
  have 1: "m' (fb md + of_nat (2 * W * r + x)) = m (fb md + of_nat (2 * W * (r + 1) + x))" if "r + 2 < H" "x < 2 * W" for r x
    using low [of "2 * W * r + x"] below [of r "H - 1" x] below [of "r + 1" "H - 1" x] that unfolding row by simp
  have 2: "m' (fb md + of_nat (2 * W * (H - 2) + x)) = filled bg x (m (fb md + of_nat (2 * W * (H - 1) + x)))" if "x < 2 * W" for x
    using low [of "2 * W * (H - 2) + x"] below [of "H - 2" "H - 1" x] that unfolding row by (simp add: K)
  have 3: "m' (fb md + of_nat (2 * W * (H - 1) + x)) = filled bg x (m (fb md + of_nat (2 * W * (H - 1) + x)))" if "x < 2 * W" for x
    using high [of "2 * W * (H - 1) + x"] below [of "H - 1" H x] that by (simp add: K)
  show ?thesis using m' 1 2 3 by blast
qed

theorem vesa_scroll_rows_witness:
  "\<exists>m'. vesa_scroll demo_mode 1 bg_color_text (\<lambda>a. if a = 0xB80A0 then 7 else 9) = Inr ((), m') \<and> m' 0xB8000 = 7 \<and> m' 0xB8F02 = 9"
proof -
  have T: "text_mode demo_mode 80 25" by (simp add: text_mode_def demo_mode_def zero_mode_def)
  let ?m = "\<lambda>a. if a = 0xB80A0 then 7 else 9"
  obtain m' where m': "vesa_scroll demo_mode 1 bg_color_text ?m = Inr ((), m')"
    and r: "\<And>r x. r + 2 < 25 \<and> x < 2 * 80 \<Longrightarrow> m' (fb demo_mode + of_nat (2 * 80 * r + x)) = ?m (fb demo_mode + of_nat (2 * 80 * (r + 1) + x))"
    and l: "\<And>x. x < 2 * 80 \<Longrightarrow> m' (fb demo_mode + of_nat (2 * 80 * (25 - 1) + x)) = filled bg_color_text x (?m (fb demo_mode + of_nat (2 * 80 * (25 - 1) + x)))"
    using vesa_scroll_rows [OF T, of bg_color_text ?m] by blast
  have "m' 0xB8000 = 7" using r [of 0 0] by (simp add: demo_mode_def)
  moreover have "m' 0xB8F02 = 9" using l [of 2] by (simp add: demo_mode_def filled_def)
  ultimately show ?thesis using m' by blast
qed

end
