(* ===== verification/Stores.thy ===== *)
theory Stores
  imports V86
begin

unbundle bit_operations_syntax

text \<open>
  Operations that only store into a mapped region, as transformers of its content: the judgement
  \<open>stores A W f M M'\<close> says that on a machine whose region \<open>A\<close> reads as \<open>M\<close> the operation returns, that the
  region then reads as \<open>M'\<close>, that it is mapped as before, and that physical memory has changed at
  most behind the addresses \<open>W\<close>. With it come the rules for the stores, for sequencing, and for the
  loops of \<open>memset\<close> and \<open>memcpy\<close>.
\<close>

section \<open>The judgement\<close>

definition stores :: "u32 set \<Rightarrow> u32 set \<Rightarrow> (mstate, unit) op \<Rightarrow> mem \<Rightarrow> mem \<Rightarrow> bool" where
  "stores A W f M M' \<longleftrightarrow> (\<forall>s. region A s \<longrightarrow> vm A s = M \<longrightarrow>
     (\<exists>m. f s = Inr ((), s\<lparr>phys := m\<rparr>) \<and> region A (s\<lparr>phys := m\<rparr>) \<and> vm A (s\<lparr>phys := m\<rparr>) = M' \<and>
        (\<forall>v \<in> A. mmu (s\<lparr>phys := m\<rparr>) v = mmu s v) \<and> (\<forall>q. Some q \<notin> mmu s ` W \<longrightarrow> m q = phys s q)))"

lemma stores_run:
  assumes "stores A W f (vm A s) M'" "region A s"
  obtains m where "f s = Inr ((), s\<lparr>phys := m\<rparr>)" "region A (s\<lparr>phys := m\<rparr>)" "vm A (s\<lparr>phys := m\<rparr>) = M'"
    "\<forall>v \<in> A. mmu (s\<lparr>phys := m\<rparr>) v = mmu s v" "\<forall>q. Some q \<notin> mmu s ` W \<longrightarrow> m q = phys s q"
  using assms unfolding stores_def by blast

lemma stores_vst8:
  assumes "v \<in> A"
  shows "stores A {v} (vst8 v x) M (M(v := x))"
  unfolding stores_def
proof (intro allI impI)
  fix s assume R: "region A s" and M: "vm A s = M"
  obtain p where p: "mmu s v = Some p" using R assms unfolding region_def by blast
  let ?m = "(phys s)(p := x)"
  have run: "vst8 v x s = Inr ((), s\<lparr>phys := ?m\<rparr>)" using p by (simp add: vst8_def)
  have frame: "\<forall>q. Some q \<notin> mmu s ` A \<longrightarrow> ?m q = phys s q" using p assms by (metis fun_upd_other imageI)
  obtain t where t: "vst8 v x s = Inr ((), t)" "region A t" "vm A t = (vm A s)(v := x)" using vst8_region [OF R assms] by blast
  have "t = s\<lparr>phys := ?m\<rparr>" using run t(1) by simp
  with run t(2,3) M p region_upd(2) [OF R, where m = ?m, OF frame]
  show "\<exists>m. vst8 v x s = Inr ((), s\<lparr>phys := m\<rparr>) \<and> region A (s\<lparr>phys := m\<rparr>) \<and> vm A (s\<lparr>phys := m\<rparr>) = M(v := x) \<and>
      (\<forall>v \<in> A. mmu (s\<lparr>phys := m\<rparr>) v = mmu s v) \<and> (\<forall>q. Some q \<notin> mmu s ` {v} \<longrightarrow> m q = phys s q)"
    by (intro exI [of _ ?m]) auto
qed

lemma stores_sret: "stores A {} (sret ()) M M"
  unfolding stores_def
proof (intro allI impI)
  fix s :: mstate assume "region A s" "vm A s = M"
  moreover have "s = s\<lparr>phys := phys s\<rparr>" by simp
  ultimately show "\<exists>m. sret () s = Inr ((), s\<lparr>phys := m\<rparr>) \<and> region A (s\<lparr>phys := m\<rparr>) \<and> vm A (s\<lparr>phys := m\<rparr>) = M \<and>
      (\<forall>v \<in> A. mmu (s\<lparr>phys := m\<rparr>) v = mmu s v) \<and> (\<forall>q. Some q \<notin> mmu s ` {} \<longrightarrow> m q = phys s q)"
    by (metis sret_apply)
qed

lemma stores_sthen:
  assumes f: "stores A V f M M1" and g: "stores A W g M1 M2" and VW: "V \<union> W \<subseteq> A"
  shows "stores A (V \<union> W) (sthen f g) M M2"
  unfolding stores_def
proof (intro allI impI)
  fix s assume R: "region A s" and M: "vm A s = M"
  obtain m where m: "f s = Inr ((), s\<lparr>phys := m\<rparr>)" "region A (s\<lparr>phys := m\<rparr>)" "vm A (s\<lparr>phys := m\<rparr>) = M1"
    "\<forall>v \<in> A. mmu (s\<lparr>phys := m\<rparr>) v = mmu s v" "\<forall>q. Some q \<notin> mmu s ` V \<longrightarrow> m q = phys s q"
    using f R M by (auto simp: stores_def)
  let ?t = "s\<lparr>phys := m\<rparr>"
  obtain n where n: "g ?t = Inr ((), ?t\<lparr>phys := n\<rparr>)" "region A (?t\<lparr>phys := n\<rparr>)" "vm A (?t\<lparr>phys := n\<rparr>) = M2"
    "\<forall>v \<in> A. mmu (?t\<lparr>phys := n\<rparr>) v = mmu ?t v" "\<forall>q. Some q \<notin> mmu ?t ` W \<longrightarrow> n q = phys ?t q"
    using stores_run [of A W g ?t M2] g m(2,3) by auto
  have "mmu ?t ` W = mmu s ` W" using m(4) VW by (intro image_cong) auto
  then have "n q = phys s q" if "Some q \<notin> mmu s ` (V \<union> W)" for q using that m(5) n(5) by (simp add: image_Un)
  with m n show "\<exists>m. sthen f g s = Inr ((), s\<lparr>phys := m\<rparr>) \<and> region A (s\<lparr>phys := m\<rparr>) \<and> vm A (s\<lparr>phys := m\<rparr>) = M2 \<and>
      (\<forall>v \<in> A. mmu (s\<lparr>phys := m\<rparr>) v = mmu s v) \<and> (\<forall>q. Some q \<notin> mmu s ` (V \<union> W) \<longrightarrow> m q = phys s q)"
    by (intro exI [of _ n]) (auto simp: sthen_Inr)
qed

lemma stores_mono:
  assumes "stores A V f M M'" "V \<subseteq> W"
  shows "stores A W f M M'"
proof -
  have sub: "mmu s ` V \<subseteq> mmu s ` W" for s using assms(2) by (rule image_mono)
  show ?thesis
    unfolding stores_def
  proof (intro allI impI)
    fix s assume R: "region A s" and M: "vm A s = M"
    have S: "stores A V f (vm A s) M'" using assms(1) M by simp
    show "\<exists>m. f s = Inr ((), s\<lparr>phys := m\<rparr>) \<and> region A (s\<lparr>phys := m\<rparr>) \<and> vm A (s\<lparr>phys := m\<rparr>) = M' \<and>
        (\<forall>v \<in> A. mmu (s\<lparr>phys := m\<rparr>) v = mmu s v) \<and> (\<forall>q. Some q \<notin> mmu s ` W \<longrightarrow> m q = phys s q)"
    proof (rule stores_run [OF S R])
      fix m
      assume m: "f s = Inr ((), s\<lparr>phys := m\<rparr>)" "region A (s\<lparr>phys := m\<rparr>)" "vm A (s\<lparr>phys := m\<rparr>) = M'"
        "\<forall>v \<in> A. mmu (s\<lparr>phys := m\<rparr>) v = mmu s v" "\<forall>q. Some q \<notin> mmu s ` V \<longrightarrow> m q = phys s q"
      have "m q = phys s q" if "Some q \<notin> mmu s ` W" for q using m(5) that sub [of s] by blast
      with m(1-4) show ?thesis by blast
    qed
  qed
qed

lemma stores_seq: "stores A W f M M1 \<Longrightarrow> stores A W g M1 M2 \<Longrightarrow> W \<subseteq> A \<Longrightarrow> stores A W (sthen f g) M M2"
  using stores_sthen [of A W f M M1 W g M2] by simp

text \<open>What is not stored to reads as before.\<close>

lemma stores_frame:
  assumes S: "stores A W f (vm A s) M'" and R: "region A s" and W: "W \<subseteq> A" and a: "a \<notin> W"
  shows "M' a = vm A s a"
proof (rule stores_run [OF S R])
  fix m
  assume m: "vm A (s\<lparr>phys := m\<rparr>) = M'" "\<forall>v \<in> A. mmu (s\<lparr>phys := m\<rparr>) v = mmu s v"
    "\<forall>q. Some q \<notin> mmu s ` W \<longrightarrow> m q = phys s q"
  have inj: "inj_on (mmu s) A" and def: "a \<in> A \<longrightarrow> mmu s a \<noteq> None" using R unfolding region_def by blast+
  show ?thesis
  proof (cases "a \<in> A")
    case True
    obtain p where p: "mmu s a = Some p" using def True by blast
    have "mmu s a \<notin> mmu s ` W" using inj_on_image_mem_iff [OF inj True W] a by simp
    then have "m p = phys s p" using m(3) p by simp
    then show ?thesis using m(2) True p unfolding m(1) [symmetric] by (simp add: vm_def)
  next
    case False
    then show ?thesis unfolding m(1) [symmetric] by (simp add: vm_def)
  qed
qed

lemma stores_b_st16: "v \<in> A \<Longrightarrow> v + 1 \<in> A \<Longrightarrow> stores A {v, v + 1} (b_st16 v x) M (st16 M v x)"
  unfolding b_st16_def st16_def
  by (intro stores_seq [of _ _ _ _ "M(v := ucast x)"] stores_mono [OF stores_vst8]) auto

lemma stores_b_st32:
  assumes "v \<in> A" "v + 1 \<in> A" "v + 2 \<in> A" "v + 3 \<in> A"
  shows "stores A {v, v + 1, v + 2, v + 3} (b_st32 v x) M (st32 M v x)"
proof -
  have e: "v + 2 + 1 = v + 3" by simp
  have "stores A {v, v + 1, v + 2, v + 3} (b_st16 v (ucast x)) M (st16 M v (ucast x))"
    by (rule stores_mono [OF stores_b_st16]) (use assms in auto)
  moreover have "stores A {v, v + 1, v + 2, v + 3} (b_st16 (v + 2) y) N (st16 N (v + 2) y)" for y N
    by (rule stores_mono [OF stores_b_st16], unfold e) (use assms in auto)
  ultimately show ?thesis unfolding b_st32_def st32_halves using assms by (blast intro: stores_seq)
qed

section \<open>Clearing and copying\<close>

definition extent :: "u32 \<Rightarrow> nat \<Rightarrow> u32 set" where
  "extent p n = (\<lambda>k. p + of_nat k) ` {..<n}"

lemma extent_mem: "k < n \<Longrightarrow> p + of_nat k \<in> extent p n"
  by (simp add: extent_def)

lemma stores_zero:
  assumes "extent p n \<subseteq> A"
  shows "\<exists>M'. stores A (extent p n) (zero_bytes p n) M M'"
proof -
  have "\<exists>M'. stores A (extent p n) (sfor i j (\<lambda>i. vst8 (p + of_nat i) 0)) M M'" if "i + j = n" for i j M
    using that
  proof (induction j arbitrary: i M)
    case 0
    then show ?case using stores_mono [OF stores_sret [of A M], of "extent p n"] by (simp only: sfor.simps) blast
  next
    case (Suc j)
    have p: "p + of_nat i \<in> extent p n" using Suc.prems by (intro extent_mem) simp
    obtain M' where M': "stores A (extent p n) (sfor (Suc i) j (\<lambda>i. vst8 (p + of_nat i) 0)) (M(p + of_nat i := 0)) M'"
      using Suc.IH [of "Suc i"] Suc.prems by fastforce
    have "stores A (extent p n) (sthen (vst8 (p + of_nat i) 0) (sfor (Suc i) j (\<lambda>i. vst8 (p + of_nat i) 0))) M M'"
      using p assms by (intro stores_seq [OF stores_mono [OF stores_vst8] M']) auto
    then show ?case by (simp only: sfor.simps) blast
  qed
  then show ?thesis by (simp add: zero_bytes_def)
qed

lemma stores_copy1:
  assumes "p \<in> A" "q \<in> A"
  shows "stores A {q} (sbind (vld8 p) (vst8 q)) M (M(q := M p))"
  using stores_vst8 [OF assms(2), of _ M] vld8_region [OF _ assms(1)] unfolding stores_def by (simp add: sbind_Inr)

lemma stores_copy:
  assumes "extent p n \<subseteq> A" "extent q n \<subseteq> A" "extent p n \<inter> extent q n = {}" "n \<le> 2 ^ 32"
  shows "\<exists>M'. stores A (extent q n) (copy_bytes p q n) M M' \<and> (\<forall>k < n. M' (q + of_nat k) = M (p + of_nat k))"
proof -
  let ?c = "\<lambda>i. sbind (vld8 (p + of_nat i)) (vst8 (q + of_nat i))"
  have pq: "p + of_nat k \<in> extent p n" "q + of_nat k \<in> extent q n" if "k < n" for k using that by (simp_all add: extent_mem)
  have "\<exists>M'. stores A (extent q n) (sfor i j ?c) M M' \<and> (\<forall>a. a \<notin> (\<lambda>k. q + of_nat k) ` {i..<n} \<longrightarrow> M' a = M a) \<and>
      (\<forall>k. i \<le> k \<and> k < n \<longrightarrow> M' (q + of_nat k) = M (p + of_nat k))" if "i + j = n" for i j M
    using that
  proof (induction j arbitrary: i M)
    case 0
    then have "\<not> (i \<le> k \<and> k < n)" for k by simp
    then show ?case using stores_mono [OF stores_sret [of A M], of "extent q n"] by (simp only: sfor.simps) blast
  next
    case (Suc j)
    let ?M = "M(q + of_nat i := M (p + of_nat i))"
    obtain M' where M': "stores A (extent q n) (sfor (Suc i) j ?c) ?M M'"
      "\<forall>a. a \<notin> (\<lambda>k. q + of_nat k) ` {Suc i..<n} \<longrightarrow> M' a = ?M a"
      "\<forall>k. Suc i \<le> k \<and> k < n \<longrightarrow> M' (q + of_nat k) = ?M (p + of_nat k)"
      using Suc.IH [of "Suc i"] Suc.prems by fastforce
    have i: "i < n" using Suc.prems by simp
    have s: "stores A (extent q n) (sfor i (Suc j) ?c) M M'"
      unfolding sfor.simps using pq [OF i] assms(1,2) by (intro stores_seq [OF stores_mono [OF stores_copy1] M'(1)]) auto
    have src: "p + of_nat k \<noteq> q + of_nat i" if "k < n" for k using pq(1) [OF that] pq(2) [OF i] assms(3) by force
    have fresh: "q + of_nat i \<notin> (\<lambda>k. q + of_nat k) ` {Suc i..<n}"
    proof
      assume "q + of_nat i \<in> (\<lambda>k. q + of_nat k) ` {Suc i..<n}"
      then obtain k where k: "of_nat i = (of_nat k :: u32)" "i < k" "k < n" by auto
      then have "i = k" using assms(4) arg_cong [OF k(1), of unat] by (simp add: unat_of_nat_small)
      with k(2) show False by simp
    qed
    have "M' (q + of_nat k) = M (p + of_nat k)" if "i \<le> k" "k < n" for k
      using that M'(2,3) fresh src [OF that(2)] by (cases "k = i") auto
    moreover have "M' a = M a" if "a \<notin> (\<lambda>k. q + of_nat k) ` {i..<n}" for a
    proof -
      have "a \<noteq> q + of_nat i" "a \<notin> (\<lambda>k. q + of_nat k) ` {Suc i..<n}" using that i by auto
      then show ?thesis using M'(2) by simp
    qed
    ultimately show ?case using s by blast
  qed
  from this [of 0 n M] show ?thesis by (auto simp: copy_bytes_def)
qed

end
