(* ===== verification/Smp.thy ===== *)
theory Smp
  imports Stores Apic
begin

unbundle bit_operations_syntax

text \<open>
  The start of the other processors, \<^verbatim>\<open>src/sys/smp.c\<close>: the per-core data, the boot block at
  \<open>0x500\<close> that the trampoline of \<^verbatim>\<open>src/sys/smp_asm.s\<close> reads, the INIT and STARTUP interrupts, and what a
  started processor runs. While the boot processor sleeps the others run: what happens during a
  \<open>sleep_no_task\<close> is the operation \<open>wait ms\<close>, a parameter of the launching functions. Next to the
  kernel state there are, for every core, its local APIC, the base of its per-core data in the model
  specific register \<open>0xC0000102\<close> and the pointer of its interrupt table.
\<close>

section \<open>State\<close>

record smp_state =
  kst :: kstate
  smp_boot_counter :: u8
  core_apic :: "nat \<Rightarrow> apic_state"
  core_msr :: "nat \<Rightarrow> u32"
  idt_ptr :: "nat \<Rightarrow> u16 \<times> u32"

definition k_op :: "(kstate, 'a) op \<Rightarrow> (smp_state, 'a) op" where
  "k_op f s = (case f (kst s) of Inl e \<Rightarrow> Inl e | Inr (x, k) \<Rightarrow> Inr (x, s\<lparr>kst := k\<rparr>))"

abbreviation (input) CORE_LOCALS_SIZE :: u32 where "CORE_LOCALS_SIZE \<equiv> 10368"
abbreviation (input) l_idt_entries :: "u32 \<Rightarrow> u32" where "l_idt_entries p \<equiv> p + 24"
abbreviation (input) l_tss_entry :: "u32 \<Rightarrow> u32" where "l_tss_entry p \<equiv> p + 2072"

definition zero_locals :: core_locals where
  "zero_locals = \<lparr>in_irq = False, nested_irq = False, need_resched = False, irq_regs = 0, c_state = CORE_OFFLINE,
     current_thread = 0, idle_thread = 0, core_id = 0,
     idt_entries = replicate 256 \<lparr>gate_low = 0, sel = 0, always0 = 0, iflags = 0, gate_high = 0\<rparr>,
     c_tss = \<lparr>prevTSS = 0, esp0 = 0, ss0 = 0, esp1 = 0, ss1 = 0, esp2 = 0, ss2 = 0, tss_cr3 = 0, tss_eip = 0, tss_eflags = 0,
       tss_eax = 0, tss_ecx = 0, tss_edx = 0, tss_ebx = 0, tss_esp = 0, tss_ebp = 0, tss_esi = 0, tss_edi = 0, tss_es = 0,
       tss_cs = 0, tss_ss = 0, tss_ds = 0, tss_fs = 0, tss_gs = 0, ldt = 0, trap = 0, iomap_base = 0\<rparr>\<rparr>"

section \<open>Per-core data\<close>

text \<open>\<open>p\<close> is the address of \<open>bsp_core_locals\<close>, a zero-initialised object of the kernel image.\<close>

definition init_core_locals_bsp :: "nat \<Rightarrow> u32 \<Rightarrow> (smp_state, unit) op" where
  "init_core_locals_bsp c p =
     smod (\<lambda>s. s\<lparr>idt_ptr := (idt_ptr s)(c := (8 * 256 - 1, l_idt_entries p)), core_msr := (core_msr s)(c := p)\<rparr>)"

definition init_core_locals :: "symbols \<Rightarrow> nat \<Rightarrow> (smp_state, unit) op" where
  "init_core_locals L c =
     sbind (k_op (mach_op (kmalloc L CORE_LOCALS_SIZE))) (\<lambda>p.
     sthen (k_op (mach_op (zero_bytes p (unat CORE_LOCALS_SIZE))))
    (sbind (k_op (smp_get_lapic_id c)) (\<lambda>lapic.
     sthen (k_op (smod (\<lambda>k. k\<lparr>cores := (cores k)(c \<mapsto> zero_locals\<lparr>c_state := CORE_OFFLINE, core_id := lapic\<rparr>)\<rparr>)))
    (sbind (k_op (mach_op (vmm_virt_to_phys L p))) (\<lambda>phys_locals.
     smod (\<lambda>s. s\<lparr>idt_ptr := (idt_ptr s)(c := (8 * 256 - 1, l_idt_entries phys_locals)),
                 core_msr := (core_msr s)(c := p)\<rparr>))))))"

section \<open>The boot block\<close>

text \<open>The packed \<open>SMPBootInfo_t\<close> at \<open>smp_info_ptr\<close>: the status byte, then four unaligned words.\<close>

abbreviation (input) INFO :: u32 where "INFO \<equiv> 0x500"
abbreviation (input) INFO_SIZE :: nat where "INFO_SIZE \<equiv> 17"

definition fill_info :: "u32 \<Rightarrow> u32 \<Rightarrow> (mstate, unit) op" where
  "fill_info smp_loaded dir =
     sthen (vst8 INFO 0)
    (sthen (b_st32 (INFO + 1) dir)
    (sthen (b_st32 (INFO + 5) 0xA000)
    (sthen (b_st32 (INFO + 9) smp_loaded)
           (b_st32 (INFO + 13) 0x600))))"

section \<open>Launching\<close>

definition info_status :: "(smp_state, u8) op" where
  "info_status = k_op (mach_op (vld8 INFO))"

text \<open>One of the two attempts to start a processor; the result says whether it ends in the \<open>break\<close>.\<close>

definition boot_try :: "(u32 \<Rightarrow> (smp_state, unit) op) \<Rightarrow> nat \<Rightarrow> u8 \<Rightarrow> nat \<Rightarrow> (smp_state, bool) op" where
  "boot_try wait c apic_id k =
     sthen (k_op (smp_send_ipi c apic_id 0x500))
    (sthen (wait 100)
    (sthen (k_op (smp_send_ipi c apic_id (0x600 OR 0x1)))
    (sthen (wait (if k = 0 then 100 else 1000))
    (sbind info_status (\<lambda>status.
     if status > 0 then
       sthen (sbind info_status (\<lambda>status. swhen (status = 1) (wait 100)))
      (sthen (sbind info_status (\<lambda>status. swhen (status = 2) (wait 100)))
             (sbind info_status (\<lambda>_. sret True)))
     else sret False)))))"

definition boot_cpu :: "(u32 \<Rightarrow> (smp_state, unit) op) \<Rightarrow> u32 \<Rightarrow> nat \<Rightarrow> u8 \<times> u8 \<times> u32 \<Rightarrow> (smp_state, unit) op" where
  "boot_cpu wait smp_loaded c = (\<lambda>(acpi_processor_id, apic_id, cpu_flags).
     sbind (k_op (smp_get_lapic_id c)) (\<lambda>own.
     swhen (apic_id \<noteq> own \<and> cpu_flags AND 3 \<noteq> 0)
       (sthen (k_op (mach_op (zero_bytes INFO INFO_SIZE)))
       (sthen (k_op (mach_op (sbind vmm_get_cr3 (fill_info smp_loaded))))
       (sbind (boot_try wait c apic_id 0) (\<lambda>booted.
        if booted then sret () else sthen (boot_try wait c apic_id 1) (sret ())))))))"

text \<open>\<open>trampoline\<close>, \<open>code_size\<close>, \<open>smp_loaded\<close> and \<open>gdt\<close> are linker symbols.\<close>

definition smp_boot_all :: "(u32 \<Rightarrow> (smp_state, unit) op) \<Rightarrow> u32 \<Rightarrow> nat \<Rightarrow> u32 \<Rightarrow> u32 \<Rightarrow> nat \<Rightarrow> (smp_state, unit) op" where
  "smp_boot_all wait trampoline code_size smp_loaded gdt c =
     sthen (k_op (mach_op (copy_bytes trampoline 0x1000 code_size)))
    (sthen (k_op (mach_op (zero_bytes INFO INFO_SIZE)))
    (sthen (k_op (mach_op (copy_bytes gdt 0x600 6)))
    (sbind (k_op (sget madt_cpu)) (siter (boot_cpu wait smp_loaded c)))))"

definition smp_launch_cpus :: "(u32 \<Rightarrow> (smp_state, unit) op) \<Rightarrow> symbols \<Rightarrow> u32 \<Rightarrow> nat \<Rightarrow> u32 \<Rightarrow> u32 \<Rightarrow> nat \<Rightarrow> (smp_state, u8) op" where
  "smp_launch_cpus wait L trampoline code_size smp_loaded gdt c =
     sthen (k_op (mach_op (vmm_remap L 0 0 3 (ucast (VMM_WRITE OR VMM_PRESENT)))))
    (sthen (smp_boot_all wait trampoline code_size smp_loaded gdt c)
    (sthen (k_op (mach_op (vmm_unmap L 0 3)))
           (sget smp_boot_counter)))"

section \<open>A started processor\<close>

text \<open>
  The trampoline announces itself and loads the directory of the boot block; it runs before its
  processor translates addresses, and the low pages are mapped one to one. \<open>smp_loaded\<close> counts the
  processor and calls \<open>smp_entry_point\<close>, which ends by enabling interrupts and giving the core to the
  scheduler.
\<close>

definition smp_trampoline :: "(smp_state, unit) op" where
  "smp_trampoline =
     sthen (k_op (mach_op (vst8 INFO 1)))
    (sbind (k_op (mach_op (b_ld32 (INFO + 1)))) (\<lambda>dir. k_op (mach_op (vmm_set_cr3 dir))))"

definition smp_entry_point :: "symbols \<Rightarrow> (nat \<Rightarrow> u32) \<Rightarrow> u32 \<Rightarrow> nat \<Rightarrow> u32 \<Rightarrow> (smp_state, unit) op" where
  "smp_entry_point L isr idle_entry c info =
     sthen (smod (\<lambda>s. s\<lparr>core_apic := (core_apic s)(c := apic_configure_ap (core_apic s c))\<rparr>))
    (sthen (init_core_locals L c)
    (sbind (sget (\<lambda>s. core_msr s c)) (\<lambda>locals.
     sthen (k_op (tss_init c (l_tss_entry locals)))
    (sthen (k_op (mod_core c (idt_entries_update (idt_init isr))))
    (sthen (k_op (sched_init_core L idle_entry c))
    (sthen (k_op (mach_op (vst8 info 3)))
           (k_op (mach_op (smod (iflag_update (\<lambda>_. True))))))))))) "

definition smp_loaded_code :: "symbols \<Rightarrow> (nat \<Rightarrow> u32) \<Rightarrow> u32 \<Rightarrow> nat \<Rightarrow> (smp_state, unit) op" where
  "smp_loaded_code L isr idle_entry c =
     sthen (k_op (mach_op (vst8 INFO 2)))
    (sthen (smod (\<lambda>s. s\<lparr>smp_boot_counter := smp_boot_counter s + 1\<rparr>))
           (smp_entry_point L isr idle_entry c INFO))"

section \<open>Stores into the boot block\<close>

text \<open>What the trampoline reads.\<close>

definition info_for :: "u32 \<Rightarrow> u32 \<Rightarrow> mem \<Rightarrow> bool" where
  "info_for entry dir M \<longleftrightarrow> ld32 M 0x501 = dir \<and> ld32 M 0x505 = 0xA000 \<and> ld32 M 0x509 = entry \<and> ld32 M 0x50D = 0x600"

definition info_block :: "u32 set" where
  "info_block = extent 0x500 17"

lemma info_block_mem: "v \<in> info_block \<longleftrightarrow> 0x500 \<le> v \<and> v < 0x511"
proof
  assume v: "0x500 \<le> v \<and> v < 0x511"
  then have "unat v = 0x500 + (unat v - 0x500)" "unat v - 0x500 < 17" by (auto simp: word_le_nat_alt word_less_nat_alt)
  moreover from this have "v = 0x500 + of_nat (unat v - 0x500)"
    by (subst word_unat_eq_iff) (simp add: unat_add_small unat_of_nat_small)
  ultimately show "v \<in> info_block" unfolding info_block_def using extent_mem [of "unat v - 0x500" 17 "0x500"] by simp
qed (auto simp: info_block_def extent_def word_le_nat_alt word_less_nat_alt unat_add_small unat_of_nat_small)

lemma stores_info:
  assumes "info_block \<subseteq> A"
  shows "\<exists>M'. stores A info_block (fill_info entry dir) M M' \<and> info_for entry dir M' \<and> M' 0x500 = 0"
proof -
  have A: "v \<in> A" if "0x500 \<le> v" "v < 0x511" for v using assms that by (auto simp: info_block_mem)
  let ?M = "st32 (st32 (st32 (st32 (M(0x500 := 0)) 0x501 dir) 0x505 0xA000) 0x509 entry) 0x50D 0x600"
  have 0: "stores A info_block (vst8 0x500 0) N (N(0x500 := 0))" for N
    by (rule stores_mono [OF stores_vst8]) (simp_all add: A info_block_mem)
  have 1: "stores A info_block (b_st32 v x) N (st32 N v x)" if "v \<in> {0x501, 0x505, 0x509, 0x50D}" for v x N
    using that by (intro stores_mono [OF stores_b_st32]) (auto simp: A info_block_mem)
  have "stores A info_block (fill_info entry dir) M ?M"
    unfolding fill_info_def by simp (intro stores_seq [OF 0] stores_seq [OF 1] 1 assms; simp)
  moreover have "info_for entry dir ?M" "?M 0x500 = 0"
    by (simp_all add: info_for_def ld32_st32_apart, simp add: st32_def)
  ultimately show ?thesis by blast
qed

section \<open>The start protocol\<close>

definition sent_by :: "nat \<Rightarrow> smp_state \<Rightarrow> (u32 \<times> u32) list" where
  "sent_by c s = map snd (filter (\<lambda>w. fst w = c) (lapic_writes (kst s)))"

abbreviation view :: "u32 set \<Rightarrow> smp_state \<Rightarrow> mem" where
  "view A s \<equiv> vm A (mach (kst s))"

text \<open>What the launching core relies on while it sleeps: the boot block stays mapped and only its status byte
  changes, and nobody else writes the command registers of its local APIC.\<close>

definition kept :: "nat \<Rightarrow> u32 set \<Rightarrow> smp_state \<Rightarrow> smp_state \<Rightarrow> bool" where
  "kept c A s t \<longleftrightarrow> region A (mach (kst t)) \<and> cr3 (mach (kst t)) = cr3 (mach (kst s)) \<and> madt_cpu (kst t) = madt_cpu (kst s) \<and>
     lapic_ids (kst t) c = lapic_ids (kst s) c \<and> (\<forall>a. a \<noteq> 0x500 \<longrightarrow> view A t a = view A s a)"

definition waits :: "nat \<Rightarrow> u32 set \<Rightarrow> (u32 \<Rightarrow> (smp_state, unit) op) \<Rightarrow> bool" where
  "waits c A wait \<longleftrightarrow> (\<forall>ms s. region A (mach (kst s)) \<longrightarrow>
     (\<exists>t. wait ms s = Inr ((), t) \<and> kept c A s t \<and> sent_by c t = sent_by c s))"

text \<open>A processor that answers at once, and one that never does.\<close>

definition answers :: "u32 set \<Rightarrow> (u32 \<Rightarrow> (smp_state, unit) op) \<Rightarrow> bool" where
  "answers A wait \<longleftrightarrow> (\<forall>ms s t. region A (mach (kst s)) \<longrightarrow> wait ms s = Inr ((), t) \<longrightarrow> view A t 0x500 \<noteq> 0)"

definition silent :: "u32 set \<Rightarrow> (u32 \<Rightarrow> (smp_state, unit) op) \<Rightarrow> bool" where
  "silent A wait \<longleftrightarrow> (\<forall>ms s t. region A (mach (kst s)) \<longrightarrow> wait ms s = Inr ((), t) \<longrightarrow> view A t 0x500 = view A s 0x500)"

definition boot_ipis :: "u8 \<Rightarrow> (u32 \<times> u32) list" where
  "boot_ipis ap = [(0x310, push_bit 24 (ucast ap)), (0x300, 0x500), (0x310, push_bit 24 (ucast ap)), (0x300, 0x601)]"

lemma kept_trans: "kept c A s t \<Longrightarrow> kept c A t u \<Longrightarrow> kept c A s u"
  by (simp add: kept_def)

lemma send_ipi_sent:
  "\<exists>t. k_op (smp_send_ipi c ap n) s = Inr ((), t) \<and> sent_by c t = sent_by c s @ [(0x310, push_bit 24 (ucast ap)), (0x300, n)] \<and>
     mach (kst t) = mach (kst s) \<and> madt_cpu (kst t) = madt_cpu (kst s) \<and> lapic_ids (kst t) = lapic_ids (kst s)"
  by (simp add: k_op_def smp_send_ipi_def write_lapic_def sthen_apply sent_by_def)

lemma info_status_reads: "region A (mach (kst s)) \<Longrightarrow> 0x500 \<in> A \<Longrightarrow> info_status s = Inr (view A s 0x500, s)"
  by (simp add: info_status_def k_op_def mach_op_def vld8_region)

lemma status_wait:
  assumes "waits c A wait" "region A (mach (kst s))" "0x500 \<in> A"
  shows "\<exists>t. sbind info_status (\<lambda>status. swhen (status = k) (wait 100)) s = Inr ((), t) \<and> kept c A s t \<and> sent_by c t = sent_by c s"
proof (cases "view A s 0x500 = k")
  case True
  then show ?thesis using assms info_status_reads by (simp add: waits_def sbind_def)
next
  case False
  then show ?thesis using assms info_status_reads by (simp add: sbind_def kept_def)
qed

lemma boot_try_sends:
  assumes W: "waits c A wait" and R: "region A (mach (kst s))" and I: "0x500 \<in> A"
  shows "\<exists>b t. boot_try wait c ap k s = Inr (b, t) \<and> kept c A s t \<and> sent_by c t = sent_by c s @ boot_ipis ap \<and>
    (answers A wait \<longrightarrow> b) \<and> (silent A wait \<and> view A s 0x500 = 0 \<longrightarrow> \<not> b)"
proof -
  obtain s1 where s1: "k_op (smp_send_ipi c ap 0x500) s = Inr ((), s1)" "kept c A s s1" "view A s1 = view A s"
    "sent_by c s1 = sent_by c s @ [(0x310, push_bit 24 (ucast ap)), (0x300, 0x500)]"
    using send_ipi_sent [of c ap "0x500" s] R by (auto simp: kept_def)
  obtain s2 where s2: "wait 100 s1 = Inr ((), s2)" "kept c A s1 s2" "sent_by c s2 = sent_by c s1"
    using W s1(2) unfolding waits_def kept_def by blast
  obtain s3 where s3: "k_op (smp_send_ipi c ap 0x601) s2 = Inr ((), s3)" "kept c A s2 s3" "view A s3 = view A s2"
    "sent_by c s3 = sent_by c s2 @ [(0x310, push_bit 24 (ucast ap)), (0x300, 0x601)]"
    using send_ipi_sent [of c ap "0x601" s2] s2(2) by (auto simp: kept_def)
  let ?ms = "if k = 0 then 100 else 1000"
  obtain s4 where s4: "wait ?ms s3 = Inr ((), s4)" "kept c A s3 s4" "sent_by c s4 = sent_by c s3"
    using W s3(2) unfolding waits_def kept_def by blast
  have K: "kept c A s s4" using s1(2) s2(2) s3(2) s4(2) by (blast intro: kept_trans)
  have S: "sent_by c s4 = sent_by c s @ boot_ipis ap" using s1(4) s2(3) s3(4) s4(3) by (simp add: boot_ipis_def)
  have R: "region A (mach (kst s1))" "region A (mach (kst s3))" "region A (mach (kst s4))"
    using s1(2) s3(2) K by (simp_all add: kept_def)
  have ans: "answers A wait \<longrightarrow> view A s4 0x500 \<noteq> 0" using s4(1) R(2) unfolding answers_def by blast
  have sil: "silent A wait \<and> view A s 0x500 = 0 \<longrightarrow> view A s4 0x500 = 0"
    using s2(1) s4(1) R(1,2) s1(3) s3(3) unfolding silent_def by metis
  have run: "boot_try wait c ap k s =
      (if view A s4 0x500 > 0 then
         sthen (sbind info_status (\<lambda>status. swhen (status = 1) (wait 100)))
        (sthen (sbind info_status (\<lambda>status. swhen (status = 2) (wait 100))) (sbind info_status (\<lambda>_. sret True))) s4
       else Inr (False, s4))"
    using s1(1) s2(1) s3(1) s4(1) info_status_reads [OF R(3) I]
    by (simp add: boot_try_def sthen_apply sbind_def)
  show ?thesis
  proof (cases "view A s4 0x500 = 0")
    case True
    then show ?thesis using run K S ans by (intro exI [of _ False] exI [of _ s4]) simp
  next
    case False
    obtain s5 where s5: "sbind info_status (\<lambda>status. swhen (status = 1) (wait 100)) s4 = Inr ((), s5)" "kept c A s4 s5"
      "sent_by c s5 = sent_by c s4" using status_wait [OF W R(3) I] by blast
    have R5: "region A (mach (kst s5))" using s5(2) by (simp add: kept_def)
    obtain s6 where s6: "sbind info_status (\<lambda>status. swhen (status = 2) (wait 100)) s5 = Inr ((), s6)" "kept c A s5 s6"
      "sent_by c s6 = sent_by c s5" using status_wait [OF W R5 I] by blast
    have R6: "region A (mach (kst s6))" using s6(2) by (simp add: kept_def)
    have "boot_try wait c ap k s = Inr (True, s6)"
      using run False s5(1) s6(1) info_status_reads [OF R6 I] by (simp add: sthen_apply sbind_Inr word_neq_0_conv)
    moreover have "kept c A s s6" using K s5(2) s6(2) by (blast intro: kept_trans)
    ultimately show ?thesis using False S s5(3) s6(3) sil by auto
  qed
qed

text \<open>A step of the launching core that only stores.\<close>

definition stored :: "nat \<Rightarrow> u32 set \<Rightarrow> mem \<Rightarrow> smp_state \<Rightarrow> smp_state \<Rightarrow> bool" where
  "stored c A M s t \<longleftrightarrow> region A (mach (kst t)) \<and> cr3 (mach (kst t)) = cr3 (mach (kst s)) \<and> madt_cpu (kst t) = madt_cpu (kst s) \<and>
     lapic_ids (kst t) c = lapic_ids (kst s) c \<and> sent_by c t = sent_by c s \<and> view A t = M"

lemma stores_mach_op:
  assumes R: "region A (mach (kst s))" and S: "stores A W f (view A s) M"
  shows "\<exists>t. k_op (mach_op f) s = Inr ((), t) \<and> stored c A M s t"
proof (rule stores_run [OF S R])
  fix m
  assume "f (mach (kst s)) = Inr ((), (mach (kst s))\<lparr>phys := m\<rparr>)" "region A ((mach (kst s))\<lparr>phys := m\<rparr>)"
    "vm A ((mach (kst s))\<lparr>phys := m\<rparr>) = M"
  then show ?thesis by (simp add: k_op_def mach_op_def sent_by_def stored_def)
qed

lemma stored_trans: "stored c A M s t \<Longrightarrow> stored c A N t u \<Longrightarrow> stored c A N s u"
  by (simp add: stored_def)

lemma stored_next:
  assumes "stored c A M s t" "stores A W f M N" "W \<subseteq> A"
  shows "\<exists>u. k_op (mach_op f) t = Inr ((), u) \<and> stored c A N s u" "\<forall>a. a \<notin> W \<longrightarrow> N a = M a"
  using stores_mach_op [of A t W f N c] stores_frame [of A W f "mach (kst t)" N] assms stored_trans [OF assms(1)]
  by (auto simp: stored_def)

lemma stored_refl: "region A (mach (kst s)) \<Longrightarrow> stored c A (view A s) s s"
  by (simp add: stored_def)

text \<open>The processors that are started, and the interrupts for one that needs \<open>n\<close> rounds.\<close>

definition startable :: "u8 \<Rightarrow> (u8 \<times> u8 \<times> u32) list \<Rightarrow> u8 list" where
  "startable own cpus = map (fst \<circ> snd) (filter (\<lambda>(_, ap, flags). ap \<noteq> own \<and> flags AND 3 \<noteq> 0) cpus)"

definition rounds :: "u8 list \<Rightarrow> nat list \<Rightarrow> (u32 \<times> u32) list" where
  "rounds aps ns = concat (map2 (\<lambda>ap n. concat (replicate n (boot_ipis ap))) aps ns)"

lemma rounds_Cons [simp]: "rounds (ap # aps) (n # ns) = concat (replicate n (boot_ipis ap)) @ rounds aps ns"
  by (simp add: rounds_def)

lemma rounds_Nil [simp]: "rounds [] [] = []"
  by (simp add: rounds_def)

text \<open>The state between two processors: the same core, and a full boot block once one was started.\<close>

definition launching :: "nat \<Rightarrow> u32 set \<Rightarrow> smp_state \<Rightarrow> smp_state \<Rightarrow> bool" where
  "launching c A s t \<longleftrightarrow> region A (mach (kst t)) \<and> cr3 (mach (kst t)) = cr3 (mach (kst s)) \<and> madt_cpu (kst t) = madt_cpu (kst s) \<and>
     lapic_ids (kst t) c = lapic_ids (kst s) c \<and> (\<forall>a. a \<notin> info_block \<longrightarrow> view A t a = view A s a)"

lemma kept_launching: "kept c A t u \<Longrightarrow> launching c A s t \<Longrightarrow> launching c A s u"
proof -
  have "a \<noteq> 0x500" if "a \<notin> info_block" for a using that info_block_mem [of "0x500"] by auto
  then show "kept c A t u \<Longrightarrow> launching c A s t \<Longrightarrow> launching c A s u" by (simp add: kept_def launching_def)
qed

lemma own_id: "k_op (smp_get_lapic_id c) s = Inr (lapic_ids (kst s) c, s)"
proof -
  have m: "(0xFF :: u32) = mask 8" by (simp add: mask_eq_exp_minus_1)
  have "ucast (drop_bit 24 (push_bit 24 (ucast (x :: u8)) :: u32) AND 0xFF) = x" for x
    unfolding m by (rule bit_word_eqI) (auto simp: bit_simps dest: bit_imp_le_length)
  then show ?thesis by (simp add: k_op_def smp_get_lapic_id_def read_lapic_id_def sbind_def)
qed

lemma kept_info: "kept c A s t \<Longrightarrow> info_for entry dir (view A s) \<Longrightarrow> info_for entry dir (view A t)"
  by (simp add: kept_def info_for_def ld32_def)

lemma boot_cpu_starts:
  assumes W: "waits c A wait" and R: "region A (mach (kst s))" and I: "info_block \<subseteq> A"
    and ap: "ap \<noteq> lapic_ids (kst s) c" "flags AND 3 \<noteq> 0"
  shows "\<exists>n t. boot_cpu wait entry c (p, ap, flags) s = Inr ((), t) \<and> launching c A s t \<and>
    sent_by c t = sent_by c s @ concat (replicate n (boot_ipis ap)) \<and> n \<in> {1, 2} \<and>
    (answers A wait \<longrightarrow> n = 1) \<and> (silent A wait \<longrightarrow> n = 2) \<and> info_for entry (cr3 (mach (kst s))) (view A t)"
proof -
  have A0: "0x500 \<in> A" using I info_block_mem [of "0x500"] by auto
  obtain M0 where M0: "stores A info_block (zero_bytes 0x500 17) (view A s) M0"
    using stores_zero I unfolding info_block_def by metis
  note z = stored_next [OF stored_refl [OF R, of c] M0 I]
  obtain s0 where s0: "k_op (mach_op (zero_bytes 0x500 17)) s = Inr ((), s0)" "stored c A M0 s s0" using z(1) by blast
  let ?dir = "cr3 (mach (kst s))"
  obtain M1 where M1: "stores A info_block (fill_info entry ?dir) M0 M1" "info_for entry ?dir M1" "M1 0x500 = 0"
    using stores_info [OF I] by blast
  note w = stored_next [OF s0(2) M1(1) I]
  obtain s1 where s1': "k_op (mach_op (fill_info entry ?dir)) s0 = Inr ((), s1)" "stored c A M1 s s1" using w(1) by blast
  have c0: "cr3 (mach (kst s0)) = ?dir" using s0(2) by (simp add: stored_def)
  have s1: "k_op (mach_op (fill_info entry ?dir)) s0 = Inr ((), s1)" "launching c A s s1" "sent_by c s1 = sent_by c s" "view A s1 = M1"
    using s1' z(2) w(2) by (simp_all add: launching_def stored_def)
  have f: "k_op (mach_op (sbind vmm_get_cr3 (fill_info entry))) s0 = Inr ((), s1)"
    using s1(1) c0 by (simp add: k_op_def mach_op_def vmm_get_cr3_def sbind_def)
  have R1: "region A (mach (kst s1))" using s1(2) by (simp add: launching_def)
  obtain b t where t: "boot_try wait c ap 0 s1 = Inr (b, t)" "kept c A s1 t" "sent_by c t = sent_by c s1 @ boot_ipis ap"
    "answers A wait \<longrightarrow> b" "silent A wait \<longrightarrow> \<not> b"
    using boot_try_sends [OF W R1 A0, of ap 0] s1(4) M1(3) by auto
  have run: "boot_cpu wait entry c (p, ap, flags) s = (if b then Inr ((), t) else sthen (boot_try wait c ap 1) (sret ()) t)"
    using ap s0(1) f t(1) own_id [of c s] by (simp add: boot_cpu_def sthen_apply sbind_Inr)
  have L: "launching c A s t" "info_for entry ?dir (view A t)"
    using kept_launching [OF t(2) s1(2)] kept_info [OF t(2)] s1(4) M1(2) by simp_all
  show ?thesis
  proof (cases b)
    case True
    then show ?thesis using run L t s1(3) by (intro exI [of _ 1] exI [of _ t]) simp
  next
    case False
    have "region A (mach (kst t))" using t(2) by (simp add: kept_def)
    then obtain b' u where u: "boot_try wait c ap 1 t = Inr (b', u)" "kept c A t u" "sent_by c u = sent_by c t @ boot_ipis ap"
      using boot_try_sends [OF W _ A0, of t ap 1] by auto
    have "concat (replicate 2 (boot_ipis ap)) = boot_ipis ap @ boot_ipis ap" by (simp add: numeral_2_eq_2)
    then show ?thesis
      using False run t(3,4) s1(3) u kept_launching [OF u(2) L(1)] kept_info [OF u(2) L(2)]
      by (intro exI [of _ 2] exI [of _ u]) (simp add: sthen_apply)
  qed
qed

lemma boot_cpu_skips:
  assumes "\<not> (ap \<noteq> lapic_ids (kst s) c \<and> flags AND 3 \<noteq> 0)"
  shows "boot_cpu wait entry c (p, ap, flags) s = Inr ((), s)"
  using assms own_id [of c s] by (auto simp: boot_cpu_def sbind_Inr)

lemma boot_cpus:
  assumes W: "waits c A wait" and I: "info_block \<subseteq> A" and R: "region A (mach (kst s))"
  shows "\<exists>ns t. siter (boot_cpu wait entry c) cpus s = Inr ((), t) \<and> launching c A s t \<and>
    length ns = length (startable (lapic_ids (kst s) c) cpus) \<and> set ns \<subseteq> {1, 2} \<and>
    (answers A wait \<longrightarrow> set ns \<subseteq> {1}) \<and> (silent A wait \<longrightarrow> set ns \<subseteq> {2}) \<and>
    sent_by c t = sent_by c s @ rounds (startable (lapic_ids (kst s) c) cpus) ns \<and>
    (startable (lapic_ids (kst s) c) cpus \<noteq> [] \<or> info_for entry (cr3 (mach (kst s))) (view A s) \<longrightarrow>
      info_for entry (cr3 (mach (kst s))) (view A t))"
  using R
proof (induction cpus arbitrary: s)
  case Nil
  then show ?case by (intro exI [of _ "[]"] exI [of _ s]) (simp add: launching_def startable_def)
next
  case (Cons cpu cpus)
  obtain p ap flags where cpu: "cpu = (p, ap, flags)" by (cases cpu)
  let ?own = "lapic_ids (kst s) c" and ?dir = "cr3 (mach (kst s))"
  show ?case
  proof (cases "ap \<noteq> ?own \<and> flags AND 3 \<noteq> 0")
    case False
    then have "startable ?own (cpu # cpus) = startable ?own cpus" by (auto simp: startable_def cpu)
    then show ?thesis using Cons.IH [OF Cons.prems] boot_cpu_skips [OF False, of wait entry p] by (simp add: cpu sthen_apply)
  next
    case True
    obtain n t where t: "boot_cpu wait entry c cpu s = Inr ((), t)" "launching c A s t"
      "sent_by c t = sent_by c s @ concat (replicate n (boot_ipis ap))" "n \<in> {1, 2}"
      "answers A wait \<longrightarrow> n = 1" "silent A wait \<longrightarrow> n = 2" "info_for entry ?dir (view A t)"
      using boot_cpu_starts [OF W Cons.prems I] True unfolding cpu by blast
    have l: "lapic_ids (kst t) c = ?own" "cr3 (mach (kst t)) = ?dir" "region A (mach (kst t))" using t(2) by (simp_all add: launching_def)
    have st: "startable ?own (cpu # cpus) = ap # startable ?own cpus" using True by (simp add: startable_def cpu)
    obtain ns u where u: "siter (boot_cpu wait entry c) cpus t = Inr ((), u)" "launching c A t u"
      "length ns = length (startable ?own cpus)" "set ns \<subseteq> {1, 2}"
      "answers A wait \<longrightarrow> set ns \<subseteq> {1}" "silent A wait \<longrightarrow> set ns \<subseteq> {2}"
      "sent_by c u = sent_by c t @ rounds (startable ?own cpus) ns" "info_for entry ?dir (view A u)"
      using Cons.IH [OF l(3)] t(7) unfolding l by blast
    have "launching c A s u" using t(2) u(2) by (simp add: launching_def)
    then show ?thesis
      using t u unfolding st by (intro exI [of _ "n # ns"] exI [of _ u]) (simp add: sthen_apply)
  qed
qed


text \<open>The preparation: the trampoline and the descriptor of the table of segments are in low memory.\<close>

definition low_layout :: "u32 set \<Rightarrow> u32 \<Rightarrow> nat \<Rightarrow> u32 \<Rightarrow> bool" where
  "low_layout A tramp n gdt \<longleftrightarrow> n \<le> 4096 \<and>
     info_block \<union> extent tramp n \<union> extent 0x1000 n \<union> extent gdt 6 \<union> extent 0x600 6 \<subseteq> A \<and>
     extent tramp n \<inter> extent 0x1000 n = {} \<and> extent gdt 6 \<inter> (extent 0x1000 n \<union> info_block \<union> extent 0x600 6) = {}"

lemma low_apart:
  assumes "n \<le> 4096"
  shows "extent 0x1000 n \<inter> info_block = {}" "extent 0x600 6 \<inter> info_block = {}" "extent 0x1000 n \<inter> extent 0x600 6 = {}"
  using assms by (auto simp: info_block_mem extent_def word_le_nat_alt word_less_nat_alt unat_add_small unat_of_nat_small word_unat_eq_iff)

lemma prepare_low:
  assumes R: "region A (mach (kst s))" and l: "low_layout A tramp n gdt"
  shows "\<exists>t M. sthen (k_op (mach_op (copy_bytes tramp 0x1000 n))) (sthen (k_op (mach_op (zero_bytes 0x500 17)))
      (k_op (mach_op (copy_bytes gdt 0x600 6)))) s = Inr ((), t) \<and> stored c A M s t \<and>
    (\<forall>k < n. M (0x1000 + of_nat k) = view A s (tramp + of_nat k)) \<and> (\<forall>k < 6. M (0x600 + of_nat k) = view A s (gdt + of_nat k))"
proof -
  have n: "n \<le> 4096" and I: "info_block \<union> extent tramp n \<union> extent 0x1000 n \<union> extent gdt 6 \<union> extent 0x600 6 \<subseteq> A"
    and d: "extent tramp n \<inter> extent 0x1000 n = {}" "extent gdt 6 \<inter> (extent 0x1000 n \<union> info_block \<union> extent 0x600 6) = {}"
    using l unfolding low_layout_def by blast+
  have sub: "extent 0x1000 n \<subseteq> A" "info_block \<subseteq> A" "extent 0x600 6 \<subseteq> A" using I by blast+
  obtain M1 where M1: "stores A (extent 0x1000 n) (copy_bytes tramp 0x1000 n) (view A s) M1"
    "\<forall>k < n. M1 (0x1000 + of_nat k) = view A s (tramp + of_nat k)"
    using stores_copy [of tramp n A "0x1000" "view A s"] I d(1) n by auto
  note f1 = stored_next [OF stored_refl [OF R, of c] M1(1) sub(1)]
  obtain s1 where s1: "k_op (mach_op (copy_bytes tramp 0x1000 n)) s = Inr ((), s1)" "stored c A M1 s s1" using f1(1) by blast
  obtain M2 where M2: "stores A info_block (zero_bytes 0x500 17) M1 M2"
    using stores_zero [of "0x500" 17 A M1] sub(2) unfolding info_block_def by blast
  note f2 = stored_next [OF s1(2) M2 sub(2)]
  obtain s2 where s2: "k_op (mach_op (zero_bytes 0x500 17)) s1 = Inr ((), s2)" "stored c A M2 s s2" using f2(1) by blast
  obtain M3 where M3: "stores A (extent 0x600 6) (copy_bytes gdt 0x600 6) M2 M3" "\<forall>k < 6. M3 (0x600 + of_nat k) = M2 (gdt + of_nat k)"
    using stores_copy [of gdt 6 A "0x600" M2] I d(2) by auto
  note f3 = stored_next [OF s2(2) M3(1) sub(3)]
  obtain s3 where s3: "k_op (mach_op (copy_bytes gdt 0x600 6)) s2 = Inr ((), s3)" "stored c A M3 s s3" using f3(1) by blast
  have "M3 (0x1000 + of_nat k) = view A s (tramp + of_nat k)" if "k < n" for k
  proof -
    have "0x1000 + of_nat k \<notin> info_block" "0x1000 + of_nat k \<notin> extent 0x600 6"
      using extent_mem [OF that, of "0x1000"] low_apart [OF n] by blast+
    then show ?thesis using that M1(2) f2(2) f3(2) by simp
  qed
  moreover have "M3 (0x600 + of_nat k) = view A s (gdt + of_nat k)" if "k < 6" for k
  proof -
    have "gdt + of_nat k \<notin> info_block" "gdt + of_nat k \<notin> extent 0x1000 n" using extent_mem [OF that, of gdt] d(2) by blast+
    then show ?thesis using that f1(2) f2(2) M3(2) by simp
  qed
  ultimately show ?thesis using s1(1) s2(1) s3 by (intro exI [of _ s3] exI [of _ M3]) (simp add: sthen_apply)
qed

section \<open>Properties\<close>


text \<open>A machine without paging; the processors in the list are the launching one, a disabled one and an enabled one,
  which stays silent.\<close>

definition demo_smp :: smp_state where
  "demo_smp = \<lparr>kst = v86_demo\<lparr>madt_cpu := [(0, 0, 1), (1, 1, 0), (2, 2, 1)]\<rparr>, smp_boot_counter = 1,
     core_apic = (\<lambda>_. demo_apic), core_msr = (\<lambda>_. 0), idt_ptr = (\<lambda>_. (0, 0))\<rparr>"


text \<open>A processor that has run its entry point is counted, has a thread to be idle with and waits for work.\<close>

lemma k_op_Inr: "k_op f s = Inr (x, t) \<Longrightarrow> f (kst s) = Inr (x, kst t) \<and> smp_boot_counter t = smp_boot_counter s"
  by (auto simp: k_op_def split: sum.splits)

lemma mach_op_cores: "mach_op f s = Inr (x, t) \<Longrightarrow> f (mach s) = Inr (x, mach t) \<and> cores t = cores s"
  by (auto simp: mach_op_def split: sum.splits)

lemma init_core_locals_counter: "init_core_locals L c s = Inr (x, t) \<Longrightarrow> smp_boot_counter t = smp_boot_counter s"
  unfolding init_core_locals_def by (auto simp: sbind_eq_Inr sthen_eq_Inr dest!: k_op_Inr)

lemma sched_init_core_booting:
  "sched_init_core L e c s = Inr (x, t) \<Longrightarrow> \<exists>l. cores t c = Some l \<and> c_state l = CORE_BOOTING \<and> current_thread l = 0"
  unfolding sched_init_core_def by (auto simp: sbind_eq_Inr sthen_eq_Inr mod_core_def split: option.splits)

lemma smp_entry_ready:
  assumes "smp_entry_point L isr idle_entry c info s = Inr (x, t)"
  shows "\<exists>l. cores (kst t) c = Some l \<and> c_state l = CORE_BOOTING \<and> current_thread l = 0 \<and>
    smp_boot_counter t = smp_boot_counter s"
  using assms unfolding smp_entry_point_def
  by (auto simp: sthen_eq_Inr sbind_eq_Inr dest!: k_op_Inr init_core_locals_counter mach_op_cores sched_init_core_booting)

lemma smp_loaded_ready:
  assumes "smp_loaded_code L isr idle_entry c s = Inr (x, t)"
  shows "\<exists>l. cores (kst t) c = Some l \<and> c_state l = CORE_BOOTING \<and> current_thread l = 0 \<and>
    smp_boot_counter t = smp_boot_counter s + 1"
  using assms unfolding smp_loaded_code_def
  by (auto simp: sthen_eq_Inr dest!: k_op_Inr smp_entry_ready)

end
