(* ===== verification/Vmm_Spare.thy ===== *)
theory Vmm_Spare
  imports Vmm_Map
begin

unbundle bit_operations_syntax

text \<open>
  Isolation of the mapping operations of \<^verbatim>\<open>src/mm/vmm.c\<close>: a page of physical memory that is neither free nor
  one of the tables of the directory being edited keeps its content.
\<close>

definition apart_from :: "symbols \<Rightarrow> u32 \<Rightarrow> nat set \<Rightarrow> mstate \<Rightarrow> bool" where
  "apart_from L d D s \<longleftrightarrow> page_no d \<notin> D \<and> page_no (sym_base_table L) \<notin> D \<and> D \<inter> free_pages (pmm s) = {} \<and>
     (\<forall>i < 1024. present (dent (phys s) d i) \<longrightarrow> page_no (frame (dent (phys s) d i)) \<notin> D)"

definition spares :: "nat set \<Rightarrow> mstate \<Rightarrow> mstate \<Rightarrow> bool" where
  "spares D s t \<longleftrightarrow> (\<forall>b. page_no b \<in> D \<longrightarrow> phys t b = phys s b)"

lemma spares_trans: "spares D s t \<Longrightarrow> spares D t u \<Longrightarrow> spares D s u"
  by (simp add: spares_def)

lemma page_no_frame: "page_no (frame b) = page_no b"
  using frame_range [OF frame_aligned, of b b] frame_aligned [of b] by (auto simp: aligned_dvd elim!: dvdE)

lemma page_no_entry: "aligned 12 a \<Longrightarrow> i < 1024 \<Longrightarrow> page_no (a + 4 * i) = page_no a"
  using frame_add [OF _ times4_less] page_no_frame by metis

lemma page_no_slot: "symbols_ok L \<Longrightarrow> page_no (base_slot L x) = page_no (sym_base_table L)"
  unfolding base_slot_def offs_simps by (intro page_no_entry) (simp_all add: symbols_ok_def pid_less)

lemma word_page:
  assumes "word_al b" "k \<in> {0, 1, 2, 3}"
  shows "page_no (b + k) = page_no b"
proof -
  obtain j where j: "unat b = 4 * j" using assms(1) by (auto simp: aligned_dvd)
  have "4 * j < 4294967296" using unat_less_2p32 [of b] j by simp
  then have "unat b + 3 < 2 ^ 32" using j by simp
  moreover have k: "unat k \<le> 3" using assms(2) by auto
  ultimately have "unat (b + k) = unat b + unat k" using unat_add_small [of b k] by simp
  with j k show ?thesis by simp
qed

lemma spares_words:
  assumes "\<And>b. word_al b \<Longrightarrow> page_no b \<in> D \<Longrightarrow> ld32 (phys t) b = ld32 (phys s) b"
  shows "spares D s t"
  unfolding spares_def
proof (intro allI impI)
  fix a assume a: "page_no a \<in> D"
  obtain b k where b: "word_al b" "k \<in> {0, 1, 2, 3}" "a = b + k" using word_split by blast
  have "page_no b = page_no a" using word_page [OF b(1,2)] b(3) by simp
  then have "ld32 (phys t) b = ld32 (phys s) b" using assms [OF b(1)] a by simp
  with b ld32_byte [of "phys t" b] ld32_byte [of "phys s" b] show "phys t a = phys s a" by auto
qed

lemma spares_store:
  assumes "word_al a" "page_no a \<notin> D"
  shows "spares D s (s\<lparr>phys := st32 (phys s) a v\<rparr>)"
  by (rule spares_words) (use assms in \<open>auto simp: bytes.rd_wr\<close>)


section \<open>The parts of an editing session\<close>

lemma set_slot_spares:
  assumes "symbols_ok L" "apart_from L d D s" "aligned 12 d" "d \<noteq> sym_base_table L"
  shows "apart_from L d D (s\<lparr>phys := st32 (phys s) (base_slot L x) v\<rparr>)" "spares D s (s\<lparr>phys := st32 (phys s) (base_slot L x) v\<rparr>)"
proof -
  have "dent (st32 (phys s) (base_slot L x) v) d i = dent (phys s) d i" if "i < 1024" for i
    using slot_not_page(1) [OF assms(1,3,4) that] base_slot_al [OF assms(1)] assms(3) by (simp add: bytes.rd_wr)
  then show "apart_from L d D (s\<lparr>phys := st32 (phys s) (base_slot L x) v\<rparr>)" using assms(2) by (simp add: apart_from_def)
  show "spares D s (s\<lparr>phys := st32 (phys s) (base_slot L x) v\<rparr>)"
    using assms by (intro spares_store base_slot_al) (simp_all add: page_no_slot apart_from_def)
qed

lemma editing_dir: "editing L d t s \<Longrightarrow> symbols_ok L \<and> aligned 12 d \<and> d \<noteq> sym_base_table L"
  by (simp add: editing_def paged_def space_ok_def)

lemma ensure_table_spares:
  assumes E: "editing L d t s" and A: "apart_from L d D s" and r: "ensure_table L (vmm_virt_to_offs v) s = Inr ((), s')"
  shows "apart_from L d D s' \<and> spares D s s'"
proof (cases "present (ld32 (phys s) (pde_addr d v))")
  case True
  then have "s' = s" using ensure_table_present [OF E] r by simp
  with A show ?thesis by (simp add: spares_def)
next
  case False
  have ok: "pmm_ok (pmm s)" and P: "paged L s" and W: "windowed L (phys s) d t" using E by (simp_all add: editing_def)
  have d: "symbols_ok L" "aligned 12 d" "d \<noteq> sym_base_table L" using editing_dir [OF E] by simp_all
  have "pmm_alloc (pmm s) PAGE_SIZE \<noteq> Inl Halted"
    using r False window_access(1) [OF P W tid_less [of v]]
    by (auto simp: ensure_table_def traverse_dir_entry_def offs_simps sbind_Inr sbind_Inl m_pmm_alloc_def Let_def)
  then obtain a q where a: "pmm_alloc (pmm s) PAGE_SIZE = Inr (a, q)" "aligned 12 a" "page_no a \<in> free_pages (pmm s)"
    "free_pages q = free_pages (pmm s) - {page_no a}" using pmm_alloc_page [OF ok] by blast
  obtain m where m: "ensure_table L (vmm_virt_to_offs v) s = Inr ((), s\<lparr>pmm := q, phys := m\<rparr>)"
    "\<forall>b. word_al b \<longrightarrow> ld32 m b = (if b = pde_addr d v then win a else if b = table_slot L then win (sym_table L)
       else if frame b = a then 0 else ld32 (phys s) b)"
    using ensure_table_new [OF E False a(1-3)] by blast
  have s': "s' = s\<lparr>pmm := q, phys := m\<rparr>" using r m(1) by simp
  have aD: "page_no a \<notin> D" using A a(3) by (auto simp: apart_from_def)
  have D: "page_no (pde_addr d v) \<notin> D" "page_no (table_slot L) \<notin> D" "page_no d \<notin> D" "page_no (sym_base_table L) \<notin> D"
    using A d by (simp_all add: apart_from_def page_no_entry tid_less page_no_slot)
  have "spares D s s'"
  proof (rule spares_words)
    fix b assume b: "word_al b" "page_no b \<in> D"
    then have "b \<noteq> pde_addr d v" "b \<noteq> table_slot L" "frame b \<noteq> a" using D aD page_no_frame [of b] by auto
    with m(2) b(1) show "ld32 (phys s') b = ld32 (phys s) b" by (simp add: s')
  qed
  moreover have "dent m d i = (if i = drop_bit 22 v then win a else dent (phys s) d i)" if "i < 1024" for i
  proof -
    have "d + 4 * i \<noteq> table_slot L" "d + 4 * i = pde_addr d v \<longleftrightarrow> i = drop_bit 22 v" "frame (d + 4 * i) \<noteq> a"
      using slot_not_page(1) [OF d that, of "sym_table L"] entry_inj [OF d(2) d(2) that tid_less [of v]]
        frame_add [OF d(2) times4_less [OF that]] E a(3) by (auto simp: editing_def space_ok_def)
    with m(2) d(2) show ?thesis by simp
  qed
  ultimately show ?thesis
    using A aD a(4) by (auto simp: apart_from_def s' win_frame [OF a(2)] split: if_splits)
qed

lemma set_entry_spares:
  assumes E: "editing L d T s" and A: "apart_from L d D s" and T: "T = frame (ld32 (phys s) (pde_addr d v))"
    and p: "present (ld32 (phys s) (pde_addr d v))"
  shows "vst (traverse_table_entry L (vmm_virt_to_offs v)) x s = Inr ((), s\<lparr>phys := st32 (phys s) (pte_addr (phys s) d v) x\<rparr>)"
    "apart_from L d D (s\<lparr>phys := st32 (phys s) (pte_addr (phys s) d v) x\<rparr>)"
    "spares D s (s\<lparr>phys := st32 (phys s) (pte_addr (phys s) d v) x\<rparr>)"
proof -
  have P: "paged L s" and W: "windowed L (phys s) d T" and S: "space_ok L (phys s) (cr3 s) (free_pages (pmm s)) d"
    using E by (simp_all add: editing_def)
  let ?k = "drop_bit 12 v AND 0x3FF"
  have a: "pte_addr (phys s) d v = T + 4 * ?k" and Tal: "aligned 12 T" and d: "aligned 12 d"
    using T S by (simp_all add: pte_addr_def space_ok_def)
  have TD: "page_no T \<notin> D" "T \<noteq> d" using A p T tid_less space_table(2) [OF S tid_less p] by (auto simp: apart_from_def)
  show "vst (traverse_table_entry L (vmm_virt_to_offs v)) x s = Inr ((), s\<lparr>phys := st32 (phys s) (pte_addr (phys s) d v) x\<rparr>)"
    using window_access(4) [OF P W pid_less] by (simp only: traverse_table_entry_def offs_simps a)
  have "dent (st32 (phys s) (T + 4 * ?k) x) d i = dent (phys s) d i" if "i < 1024" for i
    using entry_inj [OF Tal d pid_less that] TD(2) Tal d by (auto simp: bytes.rd_wr)
  then show "apart_from L d D (s\<lparr>phys := st32 (phys s) (pte_addr (phys s) d v) x\<rparr>)" using A by (simp add: apart_from_def a)
  show "spares D s (s\<lparr>phys := st32 (phys s) (pte_addr (phys s) d v) x\<rparr>)"
    unfolding a using TD Tal by (intro spares_store) (simp_all add: page_no_entry pid_less)
qed


section \<open>Mapping\<close>

text \<open>One page: the table is there, its window is open, and the entry can be replaced.\<close>

lemma enter_table_spares:
  assumes E: "editing L d t s" and A: "apart_from L d D s" and v: "drop_bit 22 v \<noteq> 0"
    and r: "sthen (ensure_table L (vmm_virt_to_offs v)) (sbind (traverse_table L (vmm_virt_to_offs v))
        (\<lambda>T. sthen (open_table L T) k)) s = Inr y"
  shows "\<exists>s2. k s2 = Inr y \<and> editing L d (frame (ld32 (phys s2) (pde_addr d v))) s2 \<and> present (ld32 (phys s2) (pde_addr d v)) \<and>
    apart_from L d D s2 \<and> spares D s s2"
proof -
  obtain s1 where e1: "ensure_table L (vmm_virt_to_offs v) s = Inr ((), s1)"
    and r1: "sbind (traverse_table L (vmm_virt_to_offs v)) (\<lambda>T. sthen (open_table L T) k) s1 = Inr y"
    using r by (auto simp: sthen_eq_Inr)
  obtain t1 where E1: "editing L d t1 s1" and p1: "present (ld32 (phys s1) (pde_addr d v))"
    using ensure_table_ok [OF E, of v] e1 by auto
  have A1: "apart_from L d D s1" "spares D s s1" using ensure_table_spares [OF E A e1] by simp_all
  let ?T = "frame (ld32 (phys s1) (pde_addr d v))"
  let ?s2 = "s1\<lparr>phys := st32 (phys s1) (table_slot L) (win ?T)\<rparr>"
  have P1: "paged L s1" and W1: "windowed L (phys s1) d t1" using E1 by (simp_all add: editing_def)
  have tt: "traverse_table L (vmm_virt_to_offs v) s1 = Inr (?T, s1)"
    using window_access(1) [OF P1 W1 tid_less]
    by (simp add: traverse_table_def traverse_dir_entry_def offs_simps sbind_Inr frame_def)
  have ot: "open_table L ?T s1 = Inr ((), ?s2)" by (rule window_ops(2) [OF P1 W1 frame_aligned])
  have "k ?s2 = Inr y" using r1 tt ot by (simp add: sbind_Inr sthen_Inr)
  moreover note o = editing_open_table [OF E1 frame_aligned, of "ld32 (phys s1) (pde_addr d v)"]
  have d: "symbols_ok L" "aligned 12 d" "d \<noteq> sym_base_table L" using editing_dir [OF E1] by simp_all
  note sl = set_slot_spares [OF d(1) A1(1) d(2,3)]
  show ?thesis
    using calculation o(1) o(3) [of v] p1 sl(1) spares_trans [OF A1(2) sl(2)] by (intro exI [of _ ?s2]) simp
qed

lemma map_loop_spares:
  assumes "editing L d t s" "apart_from L d D s" "range_ok v n" "map_loop L perms n v p r s = Inr (x, s')"
  shows "(\<exists>t'. editing L d t' s') \<and> apart_from L d D s' \<and> spares D s s'"
  using assms
proof (induction n arbitrary: v p r s t)
  case 0
  then show ?case by (auto simp: spares_def)
next
  case (Suc n)
  note st = range_step [OF Suc.prems(3)]
  let ?o = "vmm_virt_to_offs v"
  let ?k = "sbind (vld (traverse_table_entry L ?o)) (\<lambda>e.
         if \<not> present e then
           sthen (vst (traverse_table_entry L ?o) (p OR perms))
          (sthen (vmm_invlpg v) (map_loop L perms n (v + PAGE_SIZE) (p + PAGE_SIZE) r))
         else map_loop L perms n v p True)"
  have run: "sthen (ensure_table L ?o) (sbind (traverse_table L ?o) (\<lambda>T. sthen (open_table L T) ?k)) s = Inr (x, s')"
    using Suc.prems(4) by (simp add: Let_def)
  obtain s2 where s2: "?k s2 = Inr (x, s')" "editing L d (frame (ld32 (phys s2) (pde_addr d v))) s2"
    "present (ld32 (phys s2) (pde_addr d v))" "apart_from L d D s2" "spares D s s2"
    using enter_table_spares [OF Suc.prems(1,2) st(2) run] by blast
  note set = set_entry_spares [OF s2(2,4) refl s2(3), of "p OR perms"]
  let ?s3 = "s2\<lparr>phys := st32 (phys s2) (pte_addr (phys s2) d v) (p OR perms)\<rparr>"
  have P2: "paged L s2" and W2: "windowed L (phys s2) d (frame (ld32 (phys s2) (pde_addr d v)))" using s2(2) by (simp_all add: editing_def)
  obtain e where e: "vld (traverse_table_entry L ?o) s2 = Inr (e, s2)"
    using window_access(3) [OF P2 W2 pid_less] by (simp add: traverse_table_entry_def offs_simps)
  show ?case
  proof (cases "present e")
    case True
    have "range_ok v n" using Suc.prems(3) by (auto simp: range_ok_def)
    then show ?thesis
      using Suc.IH [OF s2(2,4), of v p True] s2(1,5) e True spares_trans [of D s s2 s'] by (simp add: sbind_Inr)
  next
    case False
    have "map_loop L perms n (v + PAGE_SIZE) (p + PAGE_SIZE) r ?s3 = Inr (x, s')"
      using s2(1) e False set(1) by (simp add: sbind_Inr sthen_Inr vmm_invlpg_def)
    from Suc.IH [OF editing_set_pte [OF s2(2,3) st(2)] set(2) st(3) this] show ?thesis
      using spares_trans [OF spares_trans [OF s2(5) set(3)], of s'] by blast
  qed
qed

lemma vmm_map_pages_spares:
  assumes V: "vm_ok L d s" and A: "apart_from L d D s" and R: "range_ok (frame v) (unat n)"
    and r: "vmm_map_pages L p v d n perms s = Inr (x, s')"
  shows "apart_from L d D s' \<and> spares D s s'"
proof -
  have P: "paged L s" and C: "closed L (phys s)" and S: "space_ok L (phys s) (cr3 s) (free_pages (pmm s)) d"
    and L: "symbols_ok L" using V by (simp_all add: vm_ok_def paged_def)
  have d: "aligned 12 d" "d \<noteq> sym_base_table L" using S by (simp_all add: space_ok_def)
  let ?s1 = "s\<lparr>phys := st32 (phys s) (dir_slot L) (win d)\<rparr>"
  have o: "open_dir L d s = Inr ((), ?s1)" by (rule window_ops(1) [OF P C d(1)])
  have E1: "editing L d (sym_table L) ?s1"
    using V paged_set(1) [OF P] windowed_set(1) [OF L C d(1)] space_set_slot [OF L S] by (simp add: editing_def vm_ok_def)
  note A1 = set_slot_spares [OF L A d]
  obtain r2 s2 where s2: "map_loop L (ucast perms) (unat n) (frame v) (frame p) False ?s1 = Inr (r2, s2)"
    "sthen (close_table L) (sthen (close_dir L) (sret r2)) s2 = Inr (x, s')"
    using r o unfolding vmm_map_pages_def mask_frame by (auto simp: sthen_Inr sbind_eq_Inr)
  obtain t2 where E2: "editing L d t2 s2" and A2: "apart_from L d D s2" "spares D ?s1 s2"
    using map_loop_spares [OF E1 A1(1) R s2(1)] by blast
  have P2: "paged L s2" and W2: "windowed L (phys s2) d t2" using E2 by (simp_all add: editing_def)
  have s': "s' = s2\<lparr>phys := st32 (st32 (phys s2) (table_slot L) (win (sym_table L))) (dir_slot L) (win (sym_dir L))\<rparr>"
    using s2(2) unfolding close_both [OF P2 W2] by simp
  note c1 = set_slot_spares [OF L A2(1) d, of "sym_table L" "win (sym_table L)"]
  note c2 = set_slot_spares [OF L c1(1) d, of "sym_dir L" "win (sym_dir L)"]
  show ?thesis
    using c2(1) spares_trans [OF spares_trans [OF A1(2) A2(2)] spares_trans [OF c1(2) c2(2)]] by (simp add: s')
qed


section \<open>Filling fresh pages\<close>

text \<open>Storing to pages that were free before they were allocated leaves every table alone.\<close>

lemma vm_ok_fresh:
  assumes V: "vm_ok L d s" and D: "D \<subseteq> free_pages (pmm s)" "free_pages q = free_pages (pmm s) - D" "pmm_ok q"
    and m: "\<And>b. page_no b \<notin> D \<Longrightarrow> m b = phys s b"
  shows "vm_ok L d (s\<lparr>pmm := q, phys := m\<rparr>)" "walk m d = walk (phys s) d" "apart_from L d D (s\<lparr>pmm := q, phys := m\<rparr>)"
proof -
  have P: "paged L s" and C: "closed L (phys s)" and S: "space_ok L (phys s) (cr3 s) (free_pages (pmm s)) d"
    and L: "symbols_ok L" using V by (simp_all add: vm_ok_def paged_def)
  have d: "aligned 12 d" using S by (simp add: space_ok_def)
  have w: "ld32 m b = ld32 (phys s) b" if "word_al b" "page_no b \<notin> free_pages (pmm s)" for b
  proof -
    have "m (b + k) = phys s (b + k)" if "k \<in> {0, 1, 2, 3}" for k
      using m [of "b + k"] word_page [OF \<open>word_al b\<close> that] \<open>page_no b \<notin> free_pages (pmm s)\<close> D(1) by auto
    from this [of 0] this [of 1] this [of 2] this [of 3] show ?thesis by (simp add: ld32_def)
  qed
  have F: "page_no d \<notin> free_pages (pmm s)" "page_no (frame (cr3 s)) \<notin> free_pages (pmm s)" "page_no (sym_base_table L) \<notin> free_pages (pmm s)"
    using S by (simp_all add: space_ok_def)
  have slot: "ld32 m (base_slot L x) = ld32 (phys s) (base_slot L x)" for x
    using F(3) by (intro w base_slot_al [OF L]) (simp add: page_no_slot [OF L])
  have ent: "dent m d i = dent (phys s) d i" if "i < 1024" for i
    using F(1) d that by (intro w) (simp_all add: page_no_entry)
  have "paged L (s\<lparr>pmm := q, phys := m\<rparr>)"
    using P F(2) slot w [of "frame (cr3 s)"] by (simp add: paged_def reach_def)
  moreover have "closed L m" using C slot by (simp add: windowed_def)
  moreover have "space_ok L m (cr3 s) (free_pages q) d" by (rule space_ok_cong [OF S ent]) (use D(2) in auto)
  ultimately show "vm_ok L d (s\<lparr>pmm := q, phys := m\<rparr>)" using D(3) by (simp add: vm_ok_def)
  show "walk m d = walk (phys s) d"
  proof
    fix u
    have pde: "ld32 m (pde_addr d u) = ld32 (phys s) (pde_addr d u)" by (rule ent [OF tid_less])
    have "ld32 m (pte_addr (phys s) d u) = ld32 (phys s) (pte_addr (phys s) d u)" if "present (ld32 (phys s) (pde_addr d u))"
      using space_table(1) [OF S tid_less that] by (intro w) (simp_all add: pte_addr_def page_no_entry pid_less)
    from walk_cong [OF d pde this] show "walk m d u = walk (phys s) d u" .
  qed
  show "apart_from L d D (s\<lparr>pmm := q, phys := m\<rparr>)"
    using F D(1,2) ent space_table(1) [OF S] by (auto simp: apart_from_def)
qed

end
