(* ===== verification/Loader.thy ===== *)
theory Loader
  imports Stores Elf Vmm_Spare
begin

unbundle bit_operations_syntax

text \<open>
  Processes from ELF images: \<open>proc_create_from_elf\<close> of \<^verbatim>\<open>src/proc/proc.c\<close>, over the kernel state. The program
  headers and the segments are bytes of the machine, read through the page walk; the object
  \<open>ELF32Obj_t\<close> that describes the image is the record \<open>elf_obj\<close>, and \<open>hdr\<close> is its address.
\<close>

section \<open>Definitions\<close>

text \<open>\<open>ELF32ProgramHeader_t\<close>\<close>

abbreviation (input) ph_type :: "u32 \<Rightarrow> u32" where "ph_type ph \<equiv> ph"
abbreviation (input) ph_offset :: "u32 \<Rightarrow> u32" where "ph_offset ph \<equiv> ph + 4"
abbreviation (input) ph_vaddr :: "u32 \<Rightarrow> u32" where "ph_vaddr ph \<equiv> ph + 8"
abbreviation (input) ph_memsz :: "u32 \<Rightarrow> u32" where "ph_memsz ph \<equiv> ph + 20"
abbreviation (input) PT_LOAD :: u32 where "PT_LOAD \<equiv> 1"

definition load_segment :: "symbols \<Rightarrow> u32 \<Rightarrow> elf_obj \<Rightarrow> u32 \<Rightarrow> (mstate, unit) op" where
  "load_segment L dir obj i =
     (let ph = ELF32_PROGRAM obj i
      in sbind (b_ld32 (ph_type ph)) (\<lambda>type.
         swhen (type = PT_LOAD)
           (sbind (b_ld32 (ph_memsz ph)) (\<lambda>memsz.
            let pages = ALIGN memsz div PAGE_SIZE
            in sbind (m_pmm_alloc memsz) (\<lambda>paddr.
               sbind (b_ld32 (ph_memsz ph)) (\<lambda>memsz.
               sthen (zero_bytes paddr (unat memsz))
              (sbind (b_ld32 (ph_offset ph)) (\<lambda>offset.
               sbind (b_ld32 (ph_memsz ph)) (\<lambda>memsz.
               sthen (copy_bytes (header obj + offset) paddr (unat memsz))
              (sbind (b_ld32 (ph_vaddr ph)) (\<lambda>vaddr.
               sthen (vmm_map_pages L paddr vaddr dir pages (ucast (VMM_PRESENT OR VMM_WRITE OR VMM_USER)))
                     (sret ()))))))))))))"

definition proc_create_from_elf :: "symbols \<Rightarrow> u8 list \<Rightarrow> u32 \<Rightarrow> elf_obj \<Rightarrow> u8 \<Rightarrow> (kstate, u32) op" where
  "proc_create_from_elf L name hdr obj ring =
     sbind (proc_alloc L name ring) (\<lambda>p.
     sthen (swhen (p \<noteq> 0)
       (sthen (mod_proc p (p_elf_obj_update (\<lambda>_. hdr)))
              (sfor 0 (unat (progtab_size obj)) (\<lambda>i.
                 sbind (get_proc p) (\<lambda>pr. mach_op (load_segment L (p_cr3 pr) obj (of_nat i)))))))
           (sret p))"

section \<open>Loading a segment\<close>

lemma b_ld32_region:
  assumes "region A s" "v \<in> A" "v + 1 \<in> A" "v + 2 \<in> A" "v + 3 \<in> A"
  shows "b_ld32 v s = Inr (ld32 (vm A s) v, s)"
proof -
  have e: "v + 2 + 1 = v + 3" by simp
  show ?thesis
    using assms vld8_region [OF assms(1)]
    by (simp add: b_ld32_def b_ld16_def sbind_Inr ld32_halves ld16_def e)
qed

lemma align_pages: "ALIGN n div PAGE_SIZE = npages n"
proof -
  have "(x AND NOT (mask 12)) div 0x1000 = x div (0x1000 :: u32)" for x :: u32
  proof -
    have "drop_bit 12 (x AND NOT (mask 12)) = drop_bit 12 x" by (rule bit_word_eqI) (auto simp: bit_simps dest: bit_imp_le_length)
    then show ?thesis by (simp only: drop_bit_eq_div) simp
  qed
  moreover have "NOT (mask 12) = NOT (0xFFF :: u32)" by (simp add: mask_eq_exp_minus_1)
  ultimately show ?thesis by (simp add: ALIGN_def npages_def)
qed

text \<open>The block of a successful allocation: aligned, and large enough for every byte.\<close>

lemma alloc_extent:
  assumes ok: "pmm_ok s" and a: "pmm_alloc s sz = Inr (p, q)" and sz: "0 < unat sz" "unat sz \<le> 2 ^ 32 - 4096"
  shows "aligned 12 p" "unat p + 4096 * unat (npages sz) \<le> 2 ^ 32" "unat sz \<le> 4096 * unat (npages sz)" "0 < unat (npages sz)"
    "\<And>k. k < unat sz \<Longrightarrow> page_no (p + of_nat k) \<in> block_pages p sz"
proof -
  have "unat (sz + 0xFFF) = unat sz + 0xFFF" using sz(2) unat_add_small [of sz "0xFFF"] by simp
  moreover have "npages sz = (sz + 0xFFF) div 0x1000" by (simp add: npages_def add.commute)
  ultimately have n: "unat (npages sz) = (unat sz + 4095) div 4096" by (simp only: unat_div) simp
  then show le: "unat sz \<le> 4096 * unat (npages sz)" and n0: "0 < unat (npages sz)" using sz(1) by linarith+
  then have "npages sz \<noteq> 0" by auto
  from pmm_alloc_cases [OF ok this] a obtain j where j: "window s (unat (npages sz)) j" "p = of_nat j * PAGE_SIZE" by auto
  have u: "unat p = 4096 * j" unfolding j(2) using j(1) by (intro unat_page_addr) (simp add: window_def)
  then show "aligned 12 p" by (simp add: aligned_dvd)
  show b: "unat p + 4096 * unat (npages sz) \<le> 2 ^ 32" using u j(1) by (simp add: window_def)
  fix k assume k: "k < unat sz"
  have "unat (p + of_nat k) = unat p + k" using k le b u by (simp add: unat_add_small unat_of_nat_small)
  then show "page_no (p + of_nat k) \<in> block_pages p sz" using u k le by (auto simp: block_pages_def)
qed


text \<open>Clearing and filling the block: only its bytes change, and they become those of the image.\<close>

lemma fill_block:
  assumes R: "region A s" and e: "extent src n \<subseteq> A" "extent p n \<subseteq> A" "extent src n \<inter> extent p n = {}" "n \<le> 2 ^ 32"
    and ident: "\<forall>a \<in> extent p n. mmu s a = Some a"
  obtains m1 m2 where "zero_bytes p n s = Inr ((), s\<lparr>phys := m1\<rparr>)" "region A (s\<lparr>phys := m1\<rparr>)"
    "\<forall>a. a \<notin> extent p n \<longrightarrow> vm A (s\<lparr>phys := m1\<rparr>) a = vm A s a"
    "copy_bytes src p n (s\<lparr>phys := m1\<rparr>) = Inr ((), s\<lparr>phys := m2\<rparr>)" "region A (s\<lparr>phys := m2\<rparr>)"
    "\<forall>a. a \<notin> extent p n \<longrightarrow> vm A (s\<lparr>phys := m2\<rparr>) a = vm A s a" "\<forall>b. b \<notin> extent p n \<longrightarrow> m2 b = phys s b"
    "\<forall>k < n. m2 (p + of_nat k) = vm A s (src + of_nat k)"
proof -
  obtain M1 where S1: "stores A (extent p n) (zero_bytes p n) (vm A s) M1" using stores_zero [OF e(2)] by blast
  have F1: "M1 a = vm A s a" if "a \<notin> extent p n" for a by (rule stores_frame [OF S1 R e(2) that])
  obtain m1 where m1: "zero_bytes p n s = Inr ((), s\<lparr>phys := m1\<rparr>)" "region A (s\<lparr>phys := m1\<rparr>)" "vm A (s\<lparr>phys := m1\<rparr>) = M1"
    "\<forall>v \<in> A. mmu (s\<lparr>phys := m1\<rparr>) v = mmu s v" "\<forall>q. Some q \<notin> mmu s ` extent p n \<longrightarrow> m1 q = phys s q"
    by (rule stores_run [OF S1 R])
  let ?t = "s\<lparr>phys := m1\<rparr>"
  obtain M2 where M2: "stores A (extent p n) (copy_bytes src p n) M1 M2" "\<forall>k < n. M2 (p + of_nat k) = M1 (src + of_nat k)"
    using stores_copy [OF e(1,2,3,4)] by blast
  have S2: "stores A (extent p n) (copy_bytes src p n) (vm A ?t) M2" using M2(1) m1(3) by simp
  have F2: "M2 a = vm A s a" if "a \<notin> extent p n" for a
    using stores_frame [OF S2 m1(2) e(2) that] F1 [OF that] by (simp add: m1(3))
  obtain m2 where m2: "copy_bytes src p n ?t = Inr ((), ?t\<lparr>phys := m2\<rparr>)" "region A (?t\<lparr>phys := m2\<rparr>)" "vm A (?t\<lparr>phys := m2\<rparr>) = M2"
    "\<forall>v \<in> A. mmu (?t\<lparr>phys := m2\<rparr>) v = mmu ?t v" "\<forall>q. Some q \<notin> mmu ?t ` extent p n \<longrightarrow> m2 q = phys ?t q"
    by (rule stores_run [OF S2 m1(2)])
  have id: "mmu u ` extent p n = Some ` extent p n" if "\<forall>v \<in> extent p n. mmu u v = Some v" for u
    using that by (intro image_cong) simp_all
  have i1: "\<forall>v \<in> extent p n. mmu ?t v = Some v" using m1(4) ident e(2) by auto
  have i2: "\<forall>v \<in> extent p n. mmu (?t\<lparr>phys := m2\<rparr>) v = Some v" using m2(4) i1 e(2) by auto
  have "m2 b = phys s b" if "b \<notin> extent p n" for b
    using m2(5) m1(5) that unfolding id [OF i1] id [OF ident] by (simp add: inj_image_mem_iff)
  moreover have "m2 (p + of_nat k) = vm A s (src + of_nat k)" if k: "k < n" for k
  proof -
    have pk: "p + of_nat k \<in> extent p n" "src + of_nat k \<notin> extent p n" using extent_mem [OF k] e(3) by blast+
    then have "m2 (p + of_nat k) = M2 (p + of_nat k)" using i2 e(2) m2(3) by (force simp: vm_def)
    with M2(2) k F1 [OF pk(2)] show ?thesis by simp
  qed
  ultimately show ?thesis using that [of m1 m2] m1 m2 F1 F2 by simp
qed

text \<open>The part before the mapping.\<close>

lemma load_segment_fills:
  fixes s :: mstate and A :: "u32 set" and obj :: elf_obj and i :: u32
  defines "ph \<equiv> ELF32_PROGRAM obj i"
  defines "sz \<equiv> ld32 (vm A s) (ph + 20)" and "src \<equiv> header obj + ld32 (vm A s) (ph + 4)"
  assumes R: "region A s" and ty: "ld32 (vm A s) ph = 1" and al: "pmm_alloc (pmm s) sz = Inr (p, q)"
    and A: "extent ph 32 \<union> extent src (unat sz) \<union> extent p (unat sz) \<subseteq> A"
    and d: "extent p (unat sz) \<inter> (extent ph 32 \<union> extent src (unat sz)) = {}"
    and ident: "\<forall>a \<in> extent p (unat sz). mmu s a = Some a"
  obtains m where "load_segment L dir obj i s =
      sthen (vmm_map_pages L p (ld32 (vm A s) (ph + 8)) dir (npages sz) 7) (sret ()) (s\<lparr>pmm := q, phys := m\<rparr>)"
    "\<forall>b. b \<notin> extent p (unat sz) \<longrightarrow> m b = phys s b" "\<forall>k < unat sz. m (p + of_nat k) = vm A s (src + of_nat k)"
proof -
  let ?s = "s\<lparr>pmm := q\<rparr>"
  have mm: "mmu ?s = mmu s" "vm A ?s = vm A s" by (simp_all add: mmu_def vm_def fun_eq_iff)
  have "mmu (?s\<lparr>phys := m\<rparr>) = mmu (s\<lparr>phys := m\<rparr>)" for m by (simp add: mmu_def fun_eq_iff)
  then have R': "region A ?s" using R unfolding region_def mm by simp
  have e: "extent src (unat sz) \<subseteq> A" "extent p (unat sz) \<subseteq> A" "extent src (unat sz) \<inter> extent p (unat sz) = {}" "unat sz \<le> 2 ^ 32"
    using A d less_imp_le [OF unat_less_2p32 [of sz]] by auto
  have id': "\<forall>a \<in> extent p (unat sz). mmu ?s a = Some a" using ident by (simp add: mm)
  obtain m1 m2 where m: "zero_bytes p (unat sz) ?s = Inr ((), ?s\<lparr>phys := m1\<rparr>)" "region A (?s\<lparr>phys := m1\<rparr>)"
    "\<forall>a. a \<notin> extent p (unat sz) \<longrightarrow> vm A (?s\<lparr>phys := m1\<rparr>) a = vm A s a"
    "copy_bytes src p (unat sz) (?s\<lparr>phys := m1\<rparr>) = Inr ((), ?s\<lparr>phys := m2\<rparr>)" "region A (?s\<lparr>phys := m2\<rparr>)"
    "\<forall>a. a \<notin> extent p (unat sz) \<longrightarrow> vm A (?s\<lparr>phys := m2\<rparr>) a = vm A s a" "\<forall>b. b \<notin> extent p (unat sz) \<longrightarrow> m2 b = phys s b"
    "\<forall>k < unat sz. m2 (p + of_nat k) = vm A s (src + of_nat k)"
    using fill_block [OF R' e id'] unfolding mm(2) by auto
  have ph: "ph + of_nat k \<in> extent ph 32" if "k < 32" for k by (rule extent_mem [OF that])
  have fld: "b_ld32 (ph + of_nat j) u = Inr (ld32 (vm A s) (ph + of_nat j), u)"
    if j: "j \<le> 28" and u: "region A u" "\<forall>a. a \<notin> extent p (unat sz) \<longrightarrow> vm A u a = vm A s a" for j u
  proof -
    have k: "ph + of_nat j + of_nat k \<in> A" "ph + of_nat j + of_nat k \<notin> extent p (unat sz)" if "k < 4" for k
      using ph [of "j + k"] that j A d by (auto simp: add.assoc)
    from k(1) [of 0] k(1) [of 1] k(1) [of 2] k(1) [of 3] have "b_ld32 (ph + of_nat j) u = Inr (ld32 (vm A u) (ph + of_nat j), u)"
      by (intro b_ld32_region [OF u(1)]) simp_all
    moreover have "ld32 (vm A u) (ph + of_nat j) = ld32 (vm A s) (ph + of_nat j)"
      using u(2) k(2) [of 0] k(2) [of 1] k(2) [of 2] k(2) [of 3] by (simp add: ld32_def)
    ultimately show ?thesis by simp
  qed
  note f = fld [of 0, simplified] fld [of 4, simplified] fld [of 8, simplified] fld [of 20, simplified]
  have "load_segment L dir obj i s =
      sthen (vmm_map_pages L p (ld32 (vm A s) (ph + 8)) dir (npages sz) 7) (sret ()) (?s\<lparr>phys := m2\<rparr>)"
    using f(1,4) [OF R] f(2,4) [OF m(2,3)] f(3) [OF m(5,6)] f(4) [OF R'] m(1,4) al ty
    by (simp add: load_segment_def Let_def ph_def [symmetric] sz_def [symmetric] src_def [symmetric] sbind_Inr sthen_Inr
        m_pmm_alloc_def align_pages mm(2))
  with m(7,8) that show ?thesis by simp
qed

section \<open>Properties\<close>



text \<open>A machine with an image in the page at \<open>0x1000\<close>: one program header for four bytes at offset \<open>0x40\<close>.\<close>

definition image_words :: "u32 \<Rightarrow> u32" where
  "image_words a = (if a = 0x1000 then 1 else if a = 0x1004 then 0x40 else if a = 0x1008 then 0x400000
     else if a = 0x1014 then 4 else if a = 0x1040 then 0xDEADBEEF else 0)"

definition image_machine :: "pmm_state \<Rightarrow> mstate" where
  "image_machine q = demo_machine\<lparr>pmm := q, phys := (\<lambda>b. if page_no b = 1 then words_mem image_words b else words_mem demo_words b)\<rparr>"

definition image_obj :: elf_obj where
  "image_obj = \<lparr>header = 0x1000, sectab_head = 0, sectab_size = 0, progtab_head = 0x1000, progtab_size = 1, symtab_head = 0,
     symtab_size = 0, strtab_head = 0, strtab_size = 0, hstrtab_head = 0, start = 0, obj_end = 0\<rparr>"

abbreviation (input) image_pages :: "u32 set" where
  "image_pages \<equiv> {v. frame v = 0x1000 \<or> frame v = 0x2000}"

lemma image_mmu:
  assumes "ld32 m 0x101000 = 0x102007" "ld32 m 0x102004 = 0x1007" "ld32 m 0x102008 = 0x2007" "v \<in> image_pages"
  shows "mmu ((image_machine q)\<lparr>phys := m\<rparr>) v = Some v"
proof -
  obtain x where x: "x \<in> {0x1000, 0x2000}" "frame v = x" using assms(4) by auto
  then have f: "frame v = frame x" by (auto simp: frame_def address_def)
  have "drop_bit 22 v = drop_bit 22 x" "drop_bit 12 v AND 0x3FF = drop_bit 12 x AND (0x3FF :: u32)"
    using f unfolding frame_eq_iff by simp_all
  moreover have "x + (v AND 0xFFF) = v" using split_addr [of v] x(2) by simp
  ultimately show ?thesis using assms(1-3) x(1)
    by (auto simp: mmu_def image_machine_def demo_machine_def walk_def present_def frame_def address_def)
qed

lemma image_low:
  assumes "\<And>p. frame p \<noteq> 0x1000 \<Longrightarrow> frame p \<noteq> 0x2000 \<Longrightarrow> m p = phys (image_machine q) p"
  shows "ld32 m 0x101000 = 0x102007" "ld32 m 0x102004 = 0x1007" "ld32 m 0x102008 = 0x2007"
proof -
  have "ld32 m a = demo_words a" if "a \<in> {0x101000, 0x102004, 0x102008}" for a
  proof -
    have "ld32 m a = ld32 (words_mem demo_words) a"
      using that by (auto simp: ld32_def assms frame_def address_def image_machine_def)
    then show ?thesis using that ld32_words_mem [of a demo_words] by auto
  qed
  then show "ld32 m 0x101000 = 0x102007" "ld32 m 0x102004 = 0x1007" "ld32 m 0x102008 = 0x2007"
    by (simp_all add: demo_words_def frame_def address_def)
qed

lemma image_ident: "v \<in> image_pages \<Longrightarrow> mmu (image_machine q) v = Some v"
  using image_mmu [OF image_low [of "phys (image_machine q)" q], of v q] by simp

lemma image_region: "region image_pages (image_machine q)"
  unfolding region_def
proof (intro conjI allI impI ballI)
  show "inj_on (mmu (image_machine q)) image_pages" by (auto simp: inj_on_def image_ident)
  show "mmu (image_machine q) v \<noteq> None" if "v \<in> image_pages" for v using that by (simp add: image_ident)
  fix v p k assume "word_al v" "v \<in> image_pages" "mmu (image_machine q) v = Some p" "k \<in> {0, 1, 2, 3 :: u32}"
  then show "v + k \<in> image_pages" "mmu (image_machine q) (v + k) = Some (p + k)"
    using frame_word [of v k] image_ident [of v] image_ident [of "v + k"] by simp_all
next
  fix m v assume m: "\<forall>p. Some p \<notin> mmu (image_machine q) ` image_pages \<longrightarrow> m p = phys (image_machine q) p" and v: "v \<in> image_pages"
  have "m p = phys (image_machine q) p" if "frame p \<noteq> 0x1000" "frame p \<noteq> 0x2000" for p
    using m that by (auto simp: image_ident)
  from image_mmu [OF image_low [OF this] v] image_ident [OF v]
  show "mmu ((image_machine q)\<lparr>phys := m\<rparr>) v = mmu (image_machine q) v" by simp
qed

lemma image_vm_word:
  assumes "word_al a" "frame a = 0x1000"
  shows "ld32 (vm image_pages (image_machine q)) a = image_words a"
proof -
  have "vm image_pages (image_machine q) (a + k) = words_mem image_words (a + k)" if "k \<in> {0, 1, 2, 3}" for k
  proof -
    have "frame (a + k) = 0x1000" using frame_word [OF assms(1) that] assms(2) by simp
    moreover from this have "page_no (a + k) = 1" using page_no_frame [of "a + k"] by simp
    ultimately show ?thesis using image_ident [of "a + k" q] by (simp add: vm_def image_machine_def)
  qed
  from this [of 0] this [of 1] this [of 2] this [of 3] have "ld32 (vm image_pages (image_machine q)) a = ld32 (words_mem image_words) a"
    by (simp add: ld32_def)
  then show ?thesis by (simp add: ld32_words_mem [OF assms(1)])
qed


lemma image_allocs:
  obtains q r where "pmm_alloc demo_pmm 0x1000 = Inr (0x1000, q)" "pmm_alloc q 4 = Inr (0x2000, r)"
    "pmm_ok q" "free_pages q = {2, 4}" "free_pages r = {4}"
proof -
  have "rbind (pmm_alloc demo_pmm 0x1000) (\<lambda>(a, q). rbind (pmm_alloc q 4) (\<lambda>(b, r). Inr (a, b))) = Inr (0x1000, 0x2000)"
    by code_simp
  then obtain q r where q: "pmm_alloc demo_pmm 0x1000 = Inr (0x1000, q)" "pmm_alloc q 4 = Inr (0x2000, r)"
    by (auto simp: rbind_eq_Inr)
  have n: "npages 4 = 1" by (simp add: npages_def)
  have b: "block_pages 0x1000 0x1000 = {1}" "block_pages 0x2000 4 = {2}" by (auto simp: block_pages_def demo_npages n)
  have f: "pmm_ok q" "free_pages q = {2, 4}" using pmm_alloc_block [OF demo_ok q(1)] by (auto simp: b demo_free)
  have "free_pages r = {4}" using pmm_alloc_block(3) [OF f(1) q(2)] f(2) by (auto simp: b)
  with q f that show ?thesis by blast
qed


end
