(* ===== verification/Lock.thy ===== *)
theory Lock
  imports Memory
begin

unbundle bit_operations_syntax

text \<open>
  The spinlocks of \<^verbatim>\<open>include/klibc/lock.h\<close> and \<^verbatim>\<open>src/klibc/lock_asm.s\<close> as several cores run them. A step is one
  instruction of one core on the shared lock: the locked bit operations are atomic, everything
  between them interleaves. A core is where the macros \<open>lock\<close>, \<open>check_and_lock\<close> and \<open>unlock\<close> have taken it;
  the names in the lock serve the report of \<open>deadlock_handler\<close>.
\<close>

section \<open>The lock and its instructions\<close>

record lock_t =
  dat :: u32
  lock_name :: string
  holder :: string
  attempting_to_get :: string

definition INIT_LOCK :: "string \<Rightarrow> lock_t" where
  "INIT_LOCK n = \<lparr>dat = 0, lock_name = n, holder = ''None'', attempting_to_get = ''None''\<rparr>"

text \<open>\<open>lock bts dword [edi], 0\<close> with its carry, and \<open>lock btr\<close>.\<close>

definition bts :: "lock_t \<Rightarrow> bool \<times> lock_t" where
  "bts l = (bit (dat l) 0, l\<lparr>dat := dat l OR 1\<rparr>)"

definition btr :: "lock_t \<Rightarrow> lock_t" where
  "btr l = l\<lparr>dat := dat l AND NOT 1\<rparr>"

text \<open>The counters, with the value that says whether the result is not zero. They are not used by the kernel.\<close>

definition atomic_inc :: "u32 \<Rightarrow> u32 \<times> u32" where
  "atomic_inc x = (if x + 1 = 0 then 0 else 1, x + 1)"

definition atomic_dec :: "u32 \<Rightarrow> u32 \<times> u32" where
  "atomic_dec x = (if x - 1 = 0 then 0 else 1, x - 1)"

text \<open>One round of \<open>spinlock_with_timeout\<close>, also unused: it compares with \<open>esi\<close>, not with its second argument.\<close>

definition timeout_round :: "u32 \<Rightarrow> u32 \<Rightarrow> lock_t \<Rightarrow> (u32 + u32) \<times> lock_t" where
  "timeout_round esi n l =
     (case bts l of (carry, l) \<Rightarrow> (if \<not> carry then Inl 1 else if n + 1 = esi then Inl 0 else Inr (n + 1), l))"

text \<open>What the report of a possible deadlock says.\<close>

definition deadlock_handler :: "lock_t \<Rightarrow> string list" where
  "deadlock_handler l =
     [''Warning: Potential deadlock in lock '' @ lock_name l @ '' held by '' @ holder l,
      ''Attempting to get lock from '' @ attempting_to_get l]"

text \<open>Where a core is. \<open>Spin f n\<close> is the waiting loop with the count in \<open>eax\<close>; \<open>f\<close> is the calling function.\<close>

datatype lock_pc = Outside | Bts string | Spin string u32 | Locked string | Named string | Inside string | Released

section \<open>Steps\<close>

text \<open>
  \<open>spinlock_lock\<close> as transitions of one core. The counter is only looked at to report a possible
  deadlock, after which the loop goes on with whatever the report left in \<open>eax\<close>, here the argument
  \<open>rest\<close>.
\<close>

definition spin_next :: "u32 \<Rightarrow> string \<Rightarrow> u32 \<Rightarrow> lock_t \<Rightarrow> lock_pc" where
  "spin_next rest f n l =
     (if n + 1 = 0x10000000 then Spin f rest
      else if bit (dat l) 0 then Spin f (n + 1) else Bts f)"

definition lock_next :: "u32 \<Rightarrow> lock_pc \<Rightarrow> lock_t \<Rightarrow> lock_pc \<times> lock_t" where
  "lock_next rest pc l =
     (case pc of
        Bts f \<Rightarrow> (case bts l of (carry, l) \<Rightarrow> (if carry then Spin f 0 else Locked f, l))
      | Spin f n \<Rightarrow> (spin_next rest f n l, l)
      | Locked f \<Rightarrow> (Named f, l\<lparr>attempting_to_get := ''None''\<rparr>)
      | Named f \<Rightarrow> (Inside f, l\<lparr>holder := f\<rparr>)
      | Released \<Rightarrow> (Outside, l\<lparr>holder := ''None''\<rparr>)
      | _ \<Rightarrow> (pc, l))"

text \<open>What a core outside may begin, and a core inside ends with.\<close>

definition lock_begin :: "string \<Rightarrow> lock_t \<Rightarrow> lock_pc \<times> lock_t" where
  "lock_begin f l = (Bts f, l\<lparr>attempting_to_get := f\<rparr>)"

definition spinlock_check_and_lock :: "string \<Rightarrow> lock_t \<Rightarrow> lock_pc \<times> lock_t" where
  "spinlock_check_and_lock f l = (case bts l of (carry, l) \<Rightarrow> (if carry then Outside else Named f, l))"

definition unlock_begin :: "lock_t \<Rightarrow> lock_pc \<times> lock_t" where
  "unlock_begin l = (Released, btr l)"

type_synonym lock_world = "lock_t \<times> (nat \<Rightarrow> lock_pc)"

definition move :: "nat \<Rightarrow> lock_pc \<times> lock_t \<Rightarrow> lock_world \<Rightarrow> lock_world" where
  "move c x w = (snd x, (snd w)(c := fst x))"

inductive lock_step :: "lock_world \<Rightarrow> lock_world \<Rightarrow> bool" where
  begin_lock: "pcs c = Outside \<Longrightarrow> lock_step (l, pcs) (move c (lock_begin f l) (l, pcs))"
| try_lock: "pcs c = Outside \<Longrightarrow> lock_step (l, pcs) (move c (spinlock_check_and_lock f l) (l, pcs))"
| instruction: "pcs c \<noteq> Outside \<Longrightarrow> \<forall>f. pcs c \<noteq> Inside f \<Longrightarrow> lock_step (l, pcs) (move c (lock_next rest (pcs c) l) (l, pcs))"
| end_lock: "pcs c = Inside f \<Longrightarrow> lock_step (l, pcs) (move c (unlock_begin l) (l, pcs))"

inductive_cases lock_stepE: "lock_step w w'"

abbreviation lock_reach :: "lock_world \<Rightarrow> bool" where
  "lock_reach w \<equiv> lock_step\<^sup>*\<^sup>* (INIT_LOCK ''_sched_lock'', \<lambda>_. Outside) w"

section \<open>Mutual exclusion\<close>

fun owns :: "lock_pc \<Rightarrow> bool" where
  "owns (Locked f) = True"
| "owns (Named f) = True"
| "owns (Inside f) = True"
| "owns _ = False"

definition lock_inv :: "lock_world \<Rightarrow> bool" where
  "lock_inv w \<longleftrightarrow> (\<forall>c d. owns (snd w c) \<and> owns (snd w d) \<longrightarrow> c = d) \<and> (bit (dat (fst w)) 0 \<longleftrightarrow> (\<exists>c. owns (snd w c)))"

lemma bit_or_1 [simp]: "bit (x OR (1 :: u32)) 0" "\<not> bit (x AND NOT (1 :: u32)) 0"
  by (simp_all add: bit_simps)

lemma bit_btr: "\<not> bit (dat (btr l)) 0"
  unfolding btr_def lock_t.simps by (simp add: bit_and_iff bit_not_iff)

text \<open>The three ways a move changes who owns the lock.\<close>

lemma lock_inv_same:
  assumes "lock_inv (l, pcs)" "owns (fst x) = owns (pcs c)" "bit (dat (snd x)) 0 = bit (dat l) 0"
  shows "lock_inv (move c x (l, pcs))"
proof -
  have "owns ((pcs(c := fst x)) d) = owns (pcs d)" for d using assms(2) by simp
  then show ?thesis using assms(1,3) by (simp only: lock_inv_def move_def fst_conv snd_conv) blast
qed

lemma lock_inv_take:
  assumes "lock_inv (l, pcs)" "\<not> bit (dat l) 0" "owns (fst x)" "bit (dat (snd x)) 0"
  shows "lock_inv (move c x (l, pcs))"
  using assms by (auto simp: lock_inv_def move_def)

lemma lock_inv_give:
  assumes "lock_inv (l, pcs)" "owns (pcs c)" "\<not> owns (fst x)" "\<not> bit (dat (snd x)) 0"
  shows "lock_inv (move c x (l, pcs))"
  using assms by (auto simp: lock_inv_def move_def)

lemma lock_step_inv:
  assumes "lock_step w w'" "lock_inv w"
  shows "lock_inv w'"
  using assms
proof cases
  case (begin_lock pcs c l f)
  then show ?thesis using assms(2) by (auto intro!: lock_inv_same simp: lock_begin_def)
next
  case (try_lock pcs c l f)
  show ?thesis
  proof (cases "bit (dat l) 0")
    case True
    then show ?thesis using try_lock assms(2) by (auto intro!: lock_inv_same simp: spinlock_check_and_lock_def bts_def)
  next
    case False
    then show ?thesis using try_lock assms(2) by (auto intro!: lock_inv_take simp: spinlock_check_and_lock_def bts_def)
  qed
next
  case (instruction pcs c l rest)
  show ?thesis
  proof (cases "\<exists>g. pcs c = Bts g \<and> \<not> bit (dat l) 0")
    case True
    then show ?thesis using instruction assms(2) by (auto intro!: lock_inv_take simp: lock_next_def bts_def)
  next
    case False
    then show ?thesis
      using instruction assms(2)
      by (cases "pcs c") (auto intro!: lock_inv_same simp: lock_next_def bts_def spin_next_def Let_def)
  qed
next
  case (end_lock pcs c f l)
  then show ?thesis using assms(2) by (auto intro!: lock_inv_give simp: unlock_begin_def bit_btr)
qed

lemma lock_reach_inv: "lock_reach w \<Longrightarrow> lock_inv w"
proof (induction rule: rtranclp_induct)
  case base
  show ?case by (simp add: lock_inv_def INIT_LOCK_def)
qed (rule lock_step_inv)


section \<open>Properties\<close>

lemma lock_run:
  assumes "pcs c = Bts f" "\<not> bit (dat l) 0"
  shows "\<exists>l'. lock_step\<^sup>*\<^sup>* (l, pcs) (l', pcs(c := Inside f))"
proof -
  have "lock_step (l, pcs) (l\<lparr>dat := dat l OR 1\<rparr>, pcs(c := Locked f))"
    using instruction [of pcs c l 0] assms by (simp add: lock_next_def bts_def move_def)
  moreover have "lock_step (k, pcs(c := Locked f)) (k\<lparr>attempting_to_get := ''None''\<rparr>, pcs(c := Named f))" for k
    using instruction [of "pcs(c := Locked f)" c k 0] by (simp add: lock_next_def move_def)
  moreover have "lock_step (k, pcs(c := Named f)) (k\<lparr>holder := f\<rparr>, pcs(c := Inside f))" for k
    using instruction [of "pcs(c := Named f)" c k 0] by (simp add: lock_next_def move_def)
  ultimately show ?thesis by (meson converse_rtranclp_into_rtranclp r_into_rtranclp)
qed

lemma lock_inv_bit: "lock_inv (l, pcs) \<Longrightarrow> owns (pcs c) \<Longrightarrow> bit (dat l) 0"
  unfolding lock_inv_def fst_conv snd_conv by blast

lemma demo_lock_step:
  "\<exists>l. lock_reach (l, (\<lambda>_. Outside)(0 := Inside ''sched'')) \<and> bit (dat l) 0"
proof -
  let ?p = "\<lambda>_ :: nat. Outside"
  let ?l = "INIT_LOCK ''_sched_lock''"
  have "lock_step (?l, ?p) (?l\<lparr>attempting_to_get := ''sched''\<rparr>, ?p(0 := Bts ''sched''))"
    using begin_lock [of ?p 0 ?l "''sched''"] by (simp add: lock_begin_def move_def)
  moreover obtain l where "lock_step\<^sup>*\<^sup>* (?l\<lparr>attempting_to_get := ''sched''\<rparr>, ?p(0 := Bts ''sched'')) (l, ?p(0 := Inside ''sched''))"
    using lock_run [of "?p(0 := Bts ''sched'')" 0 "''sched''" "?l\<lparr>attempting_to_get := ''sched''\<rparr>"] by (auto simp: INIT_LOCK_def)
  ultimately have r: "lock_reach (l, ?p(0 := Inside ''sched''))" by simp
  have "bit (dat l) 0" using lock_inv_bit [OF lock_reach_inv [OF r], of 0] by simp
  with r show ?thesis by (intro exI conjI)
qed

text \<open>A core that lets go of the lock still has to write the name of the holder, and may do so when another core is in.\<close>

lemma holder_race: "\<exists>l pcs. lock_reach (l, pcs) \<and> pcs 1 = Inside ''sched'' \<and> holder l = ''None''"
proof -
  obtain l where l: "lock_reach (l, (\<lambda>_. Outside)(0 := Inside ''sched''))" using demo_lock_step by blast
  let ?p = "(\<lambda>_ :: nat. Outside)(0 := Released)"
  have "lock_step (l, (\<lambda>_. Outside)(0 := Inside ''sched'')) (btr l, ?p)"
    using end_lock [of "(\<lambda>_. Outside)(0 := Inside ''sched'')" 0 "''sched''" l] by (simp add: unlock_begin_def move_def)
  moreover have "lock_step (btr l, ?p) ((btr l)\<lparr>dat := dat (btr l) OR 1\<rparr>, ?p(1 := Named ''sched''))"
    using try_lock [of ?p 1 "btr l" "''sched''"] bit_btr [of l] by (simp add: spinlock_check_and_lock_def bts_def move_def)
  moreover have "lock_step (k, ?p(1 := Named ''sched'')) (k\<lparr>holder := ''sched''\<rparr>, ?p(1 := Inside ''sched''))" for k
    using instruction [of "?p(1 := Named ''sched'')" 1 k 0] by (simp add: lock_next_def move_def)
  moreover have "lock_step (k, ?p(1 := Inside ''sched'')) (k\<lparr>holder := ''None''\<rparr>, ?p(1 := Inside ''sched'', 0 := Outside))" for k
    using instruction [of "?p(1 := Inside ''sched'')" 0 k 0] by (simp add: lock_next_def move_def del: fun_upd_upd)
  ultimately have "\<exists>k. lock_reach (k\<lparr>holder := ''None''\<rparr>, ?p(1 := Inside ''sched'', 0 := Outside))"
    using l by (meson rtranclp.rtrancl_into_rtrancl)
  then show ?thesis by force
qed

text \<open>C11: whatever the interleaving of the instructions of any number of cores, at most one core is between the
  taking and the release of a lock, and the bit of the lock is set exactly when there is one. A core
  that tries gets the lock if and only if nobody has it, and can then get in by its own steps. The
  name of the holder is not reliable: \<open>unlock\<close> clears it after the release, when another core may
  already be in.\<close>

theorem lock_exclusive:
  assumes "lock_reach (l, pcs)"
  shows "(owns (pcs c) \<and> owns (pcs d) \<longrightarrow> c = d) \<and> (bit (dat l) 0 \<longleftrightarrow> (\<exists>c. owns (pcs c))) \<and>
    (pcs c = Bts f \<longrightarrow> (fst (lock_next rest (pcs c) l) = Locked f \<longleftrightarrow> \<not> (\<exists>d. owns (pcs d))) \<and>
      (\<not> (\<exists>d. owns (pcs d)) \<longrightarrow> (\<exists>l'. lock_step\<^sup>*\<^sup>* (l, pcs) (l', pcs(c := Inside f))))) \<and>
    (\<exists>l pcs. lock_reach (l, pcs) \<and> pcs 1 = Inside ''sched'' \<and> holder l = ''None'')"
  using lock_reach_inv [OF assms] lock_run [of pcs c f l] holder_race
  by (auto simp: lock_inv_def lock_next_def bts_def)

theorem lock_exclusive_witness:
  "\<exists>l pcs. lock_reach (l, pcs) \<and> pcs 0 = Inside ''sched'' \<and> (\<forall>d. d \<noteq> 0 \<longrightarrow> \<not> owns (pcs d))"
proof -
  obtain l where l: "lock_reach (l, (\<lambda>_. Outside)(0 := Inside ''sched''))" using demo_lock_step by blast
  have "\<not> owns (((\<lambda>_. Outside)(0 := Inside ''sched'')) d)" if "d \<noteq> 0" for d :: nat
    using lock_exclusive [OF l, of 0 d] that by auto
  with l show ?thesis by (intro exI [of _ l] exI [of _ "(\<lambda>_. Outside)(0 := Inside ''sched'')"]) auto
qed

end
