(* ===== verification/Reap.thy ===== *)
theory Reap
  imports Sched
begin

text \<open>
  The two functions of \<^verbatim>\<open>src/proc/sched.c\<close> that are meant to take what has ended out of the lists.
  They walk a list with the plain iterator and unlink the node they stand on with \<open>list_del_init\<close>,
  which makes the node its own successor. A list is a sequence here, so a node outside it is such a
  node. The typed store has no released threads: a second visit to one is an access to an object
  that does not exist.
\<close>

section \<open>Operations\<close>

text \<open>\<open>pos->next\<close>; \<open>None\<close> is the head of the list.\<close>

definition link_next :: "u32 list \<Rightarrow> u32 \<Rightarrow> u32 option" where
  "link_next ps p = (if p \<in> set ps then (case tl (dropWhile (\<lambda>q. q \<noteq> p) ps) of [] \<Rightarrow> None | q # _ \<Rightarrow> Some q) else Some p)"

definition link_first :: "u32 list \<Rightarrow> u32 option" where
  "link_first ps = (case ps of [] \<Rightarrow> None | p # _ \<Rightarrow> Some p)"

definition del_thread :: "u32 \<Rightarrow> (kstate, unit) op" where
  "del_thread p = smod (\<lambda>s. s\<lparr>thread_list := removeAll p (thread_list s)\<rparr>)"

definition del_proc :: "u32 \<Rightarrow> (kstate, unit) op" where
  "del_proc p = smod (\<lambda>s. s\<lparr>proc_list := removeAll p (proc_list s)\<rparr>)"

definition reap_thread :: "symbols \<Rightarrow> u32 option \<Rightarrow> (kstate, unit + u32 option) op" where
  "reap_thread L iter =
     (case iter of
        None \<Rightarrow> sret (Inl ())
      | Some p \<Rightarrow>
          sthen (sassert (p \<noteq> 0))
         (sbind (get_thread p) (\<lambda>t.
          sthen (swhen (t_state t = THREAD_TERMINATED) (sthen (del_thread p) (thread_free L p)))
                (sget (\<lambda>s. Inr (link_next (thread_list s) p))))))"

definition remove_terminated_threads :: "symbols \<Rightarrow> (kstate, unit) op" where
  "remove_terminated_threads L = sbind (sget thread_list) (\<lambda>ps. sloop (reap_thread L) (link_first ps))"

definition reap_proc :: "u32 option \<Rightarrow> (kstate, unit + u32 option) op" where
  "reap_proc iter =
     (case iter of
        None \<Rightarrow> sret (Inl ())
      | Some p \<Rightarrow>
          sthen (sassert (p \<noteq> 0))
         (sbind (proc_have_thread p) (\<lambda>have.
          sthen (swhen (\<not> have) (del_proc p))
                (sget (\<lambda>s. Inr (link_next (proc_list s) p))))))"

definition remove_terminated_processes :: "(kstate, unit) op" where
  "remove_terminated_processes = sbind (sget proc_list) (\<lambda>ps. sloop reap_proc (link_first ps))"

section \<open>Walking\<close>

lemma link_next_append: "p \<notin> set xs \<Longrightarrow> link_next (xs @ p # ys) p = link_first ys"
proof -
  assume "p \<notin> set xs"
  then have "dropWhile (\<lambda>q. q \<noteq> p) (xs @ p # ys) = p # ys" by (induction xs) auto
  then show ?thesis by (simp add: link_next_def link_first_def)
qed

lemma link_next_out [simp]: "p \<notin> set ps \<Longrightarrow> link_next ps p = Some p"
  by (simp add: link_next_def)

text \<open>A loop over a list whose rounds move on without touching the state, up to the rest of the list.\<close>

lemma sloop_walk:
  assumes "\<And>p xs ys. zs = xs @ p # ys \<Longrightarrow> p \<in> set good \<Longrightarrow> f (Some p) s = Inr (Inr (link_first ys), s)"
    and "zs = ws @ good @ rest"
  shows "sloop f (link_first (good @ rest)) s = sloop f (link_first rest) s"
  using assms
proof (induction good arbitrary: ws)
  case (Cons p good)
  have "f (Some p) s = Inr (Inr (link_first (good @ rest)), s)" using Cons.prems by simp
  then have "sloop f (link_first ((p # good) @ rest)) s = sloop f (link_first (good @ rest)) s"
    by (subst sloop_unfold) (simp add: link_first_def sbind_def)
  also have "\<dots> = sloop f (link_first rest) s"
  proof (rule Cons.IH)
    show "zs = (ws @ [p]) @ good @ rest" using Cons.prems(2) by simp
    show "f (Some q) s = Inr (Inr (link_first ys), s)" if "zs = xs @ q # ys" "q \<in> set good" for q xs ys
      by (rule Cons.prems(1) [OF that(1)]) (use that(2) in simp)
  qed
  finally show ?case .
qed simp

text \<open>A round that leads back to the same node in the same state never ends.\<close>

lemma sloop_stuck:
  assumes "f b s = Inr (Inr b, s)"
  shows "sloop f b s = Inl Diverges"
proof -
  have "\<not> (g = f \<and> b' = b \<and> t = s)" if "srounds g b' t = Some r" for g b' t r
    using that
  proof (induction rule: srounds.raw_induct [rotated -1, consumes 1])
    case (1 rec g b' t r)
    from 1(2) assms show ?case by (auto dest!: 1(1))
  qed
  then have "srounds f b s = None" by (cases "srounds f b s") blast+
  then show ?thesis by (simp add: sloop_def)
qed

lemma thread_free_gone:
  assumes "thread_free L p s = Inr (x, t)" "p \<noteq> 0"
  shows "threads t p = None \<and> thread_list t = thread_list s"
  using assms
  by (auto simp: thread_free_def sbind_eq_Inr sthen_eq_Inr mach_op_Inr mod_thread_Inr get_thread_Inr get_proc_Inr swhen_def split: if_splits)

section \<open>Property\<close>

definition ended :: "kstate \<Rightarrow> u32 \<Rightarrow> bool" where
  "ended s p \<longleftrightarrow> map_option t_state (threads s p) = Some THREAD_TERMINATED"

definition has_threads :: "kstate \<Rightarrow> u32 \<Rightarrow> bool" where
  "has_threads s p \<longleftrightarrow> map_option pt_list (procs s p) \<noteq> Some []"

definition proper :: "(u32 \<Rightarrow> 'a option) \<Rightarrow> u32 list \<Rightarrow> bool" where
  "proper store ps \<longleftrightarrow> distinct ps \<and> (\<forall>p \<in> set ps. p \<noteq> 0 \<and> store p \<noteq> None)"

lemma reap_thread_skip:
  assumes "proper (threads s) (thread_list s)" "thread_list s = xs @ p # ys" "\<not> ended s p"
  shows "reap_thread L (Some p) s = Inr (Inr (link_first ys), s)"
  using assms link_next_append [of p xs ys]
  by (auto simp: reap_thread_def proper_def ended_def get_thread_def sbind_def sthen_def)

lemma reap_thread_ended:
  assumes "proper (threads s) (thread_list s)" "thread_list s = xs @ p # ys" "ended s p"
  shows "\<exists>e. sloop (reap_thread L) (Some p) s = Inl e"
proof -
  obtain t where t: "threads s p = Some t" "t_state t = THREAD_TERMINATED" "p \<noteq> 0"
    using assms by (auto simp: proper_def ended_def)
  let ?s = "s\<lparr>thread_list := removeAll p (thread_list s)\<rparr>"
  show ?thesis
  proof (cases "thread_free L p ?s")
    case (Inl e)
    then have "reap_thread L (Some p) s = Inl e" using t
      by (simp add: reap_thread_def get_thread_def del_thread_def sbind_def sthen_def)
    then show ?thesis by (subst sloop_unfold) (simp add: sbind_def)
  next
    case (Inr r)
    then obtain u where u: "thread_free L p ?s = Inr ((), u)" by (cases r) simp
    have g: "threads u p = None" "thread_list u = removeAll p (thread_list s)" using thread_free_gone [OF u t(3)] by simp_all
    have "reap_thread L (Some p) s = Inr (Inr (Some p), u)" using t u g(2)
      by (simp add: reap_thread_def get_thread_def del_thread_def sbind_def sthen_def)
    moreover have "reap_thread L (Some p) u = Inl (PageFault p)" using t(3) g(1)
      by (simp add: reap_thread_def get_thread_def sbind_def sthen_def)
    ultimately show ?thesis by (subst sloop_unfold, simp add: sbind_def, subst sloop_unfold, simp add: sbind_def)
  qed
qed

lemma reap_proc_skip:
  assumes "proper (procs s) (proc_list s)" "proc_list s = xs @ p # ys" "has_threads s p"
  shows "reap_proc (Some p) s = Inr (Inr (link_first ys), s)"
  using assms link_next_append [of p xs ys]
  by (auto simp: reap_proc_def proper_def has_threads_def proc_have_thread_def get_proc_def sbind_def sthen_def)

lemma reap_proc_ended:
  assumes "proper (procs s) (proc_list s)" "proc_list s = xs @ p # ys" "\<not> has_threads s p"
  shows "sloop reap_proc (Some p) s = Inl Diverges"
proof -
  let ?s = "s\<lparr>proc_list := removeAll p (proc_list s)\<rparr>"
  have p: "p \<noteq> 0" "\<exists>pr. procs s p = Some pr \<and> pt_list pr = []" using assms by (auto simp: proper_def has_threads_def)
  then have "reap_proc (Some p) s = Inr (Inr (Some p), ?s)" "reap_proc (Some p) ?s = Inr (Inr (Some p), ?s)"
    by (auto simp: reap_proc_def proc_have_thread_def get_proc_def del_proc_def sbind_def sthen_def)
  then show ?thesis using sloop_stuck [of reap_proc "Some p" ?s] by (subst sloop_unfold) (simp add: sbind_def)
qed

lemma first_bad:
  obtains "\<forall>p \<in> set zs. P p" | xs p ys where "zs = xs @ p # ys" "\<forall>q \<in> set xs. P q" "\<not> P p"
  using split_list_first_prop [of zs "\<lambda>p. \<not> P p"] by blast

lemma sloop_none: "f None s = Inr (Inl (), s) \<Longrightarrow> sloop f (link_first []) s = Inr ((), s)"
  by (subst sloop_unfold) (simp add: link_first_def sbind_def)

lemma reap_threads_walk:
  assumes "proper (threads s) (thread_list s)" "thread_list s = xs @ zs" "\<forall>q \<in> set xs. \<not> ended s q"
  shows "remove_terminated_threads L s = sloop (reap_thread L) (link_first zs) s"
proof -
  have "sloop (reap_thread L) (link_first (xs @ zs)) s = sloop (reap_thread L) (link_first zs) s"
  proof (rule sloop_walk)
    show "thread_list s = [] @ xs @ zs" using assms(2) by simp
    show "reap_thread L (Some p) s = Inr (Inr (link_first ys), s)" if "thread_list s = us @ p # ys" "p \<in> set xs" for p us ys
      using reap_thread_skip [OF assms(1) that(1)] assms(3) that(2) by blast
  qed
  then show ?thesis by (simp add: remove_terminated_threads_def sbind_def assms(2))
qed

lemma reap_procs_walk:
  assumes "proper (procs s) (proc_list s)" "proc_list s = xs @ zs" "\<forall>q \<in> set xs. has_threads s q"
  shows "remove_terminated_processes s = sloop reap_proc (link_first zs) s"
proof -
  have "sloop reap_proc (link_first (xs @ zs)) s = sloop reap_proc (link_first zs) s"
  proof (rule sloop_walk)
    show "proc_list s = [] @ xs @ zs" using assms(2) by simp
    show "reap_proc (Some p) s = Inr (Inr (link_first ys), s)" if "proc_list s = us @ p # ys" "p \<in> set xs" for p us ys
      using reap_proc_skip [OF assms(1) that(1)] assms(3) that(2) by blast
  qed
  then show ?thesis by (simp add: remove_terminated_processes_def sbind_def assms(2))
qed

lemma remove_threads_result:
  assumes "proper (threads s) (thread_list s)"
  shows "remove_terminated_threads L s = Inr r \<longleftrightarrow> r = ((), s) \<and> (\<forall>p \<in> set (thread_list s). \<not> ended s p)"
proof (cases rule: first_bad [of "thread_list s" "\<lambda>p. \<not> ended s p"])
  case 1
  have "sloop (reap_thread L) (link_first []) s = Inr ((), s)" by (rule sloop_none) (simp add: reap_thread_def)
  with 1 reap_threads_walk [OF assms, of "thread_list s" "[]"] show ?thesis by auto
next
  case (2 xs p ys)
  obtain e where "sloop (reap_thread L) (Some p) s = Inl e" using reap_thread_ended [OF assms 2(1)] 2(3) by blast
  with 2 reap_threads_walk [OF assms 2(1,2)] show ?thesis by (auto simp: link_first_def)
qed

lemma remove_processes_result:
  assumes "proper (procs s) (proc_list s)"
  shows "remove_terminated_processes s = (if \<forall>p \<in> set (proc_list s). has_threads s p then Inr ((), s) else Inl Diverges)"
proof (cases rule: first_bad [of "proc_list s" "has_threads s"])
  case 1
  have "sloop reap_proc (link_first []) s = Inr ((), s)" by (rule sloop_none) (simp add: reap_proc_def)
  with 1 reap_procs_walk [OF assms, of "proc_list s" "[]"] show ?thesis by auto
next
  case (2 xs p ys)
  with reap_procs_walk [OF assms 2(1,2)] reap_proc_ended [OF assms 2(1,3)] show ?thesis by (auto simp: link_first_def)
qed

text \<open>The two clean-up functions return only if they have nothing to do, and then change nothing. If a thread of
  the list has ended, the walk comes back to the thread it has just released; if a process has no threads left, the
  walk stays at the unlinked process for ever.\<close>

lemma remove_terminated_stuck:
  assumes "proper (threads s) (thread_list s)" "proper (procs s) (proc_list s)"
  shows "(remove_terminated_threads L s = Inr r \<longleftrightarrow> r = ((), s) \<and> (\<forall>p \<in> set (thread_list s). \<not> ended s p)) \<and>
    remove_terminated_processes s = (if \<forall>p \<in> set (proc_list s). has_threads s p then Inr ((), s) else Inl Diverges)"
  using remove_threads_result [OF assms(1)] remove_processes_result [OF assms(2)] by (intro conjI)

end
