(* ===== verification/Control.thy ===== *)
theory Control
  imports Thread
begin

text \<open>
  Memory management leaves the control state of the machine alone: whatever the free list, the page
  tables or the bitmap look like, an allocation, a release or a mapping that returns has changed only
  physical memory and the state of the page allocator; the registers, the interrupt flag, the
  table of interrupt handlers and the address of the heap are as before.
\<close>

section \<open>The frame\<close>

context frame_rel
begin

lemma keeps_case_prod: "(\<And>a b. keeps (f a b)) \<Longrightarrow> keeps (case x of (a, b) \<Rightarrow> f a b)"
  by (cases x) simp

lemma keeps_sfor: "(\<And>i. keeps (f i)) \<Longrightarrow> keeps (sfor i n f)"
  by (induction n arbitrary: i) (simp_all add: keeps_sret keeps_sthen)

lemma keeps_sloop:
  assumes f: "\<And>b. keeps (f b)"
  shows "keeps (sloop f b)"
proof -
  have "R s (snd x)" if "srounds g b s = Some r" "g = f" "r = Inr x" for g b s r x
    using that
  proof (induction arbitrary: x rule: srounds.raw_induct [rotated -1, consumes 1])
    case (1 rec g b s r)
    show ?case
    proof (cases "f b s")
      case (Inl e)
      then show ?thesis using 1(2-4) by simp
    next
      case (Inr p)
      obtain y t where p: "p = (y, t)" by (cases p)
      have st: "R s t" using keepsD [OF f] Inr p by blast
      show ?thesis
      proof (cases y)
        case (Inl z)
        then show ?thesis using 1(2-4) Inr p st by auto
      next
        case (Inr b')
        then have "rec f b' t = Some r" using 1(2,3) \<open>f b s = Inr p\<close> p by simp
        then have "R t (snd x)" using 1(1) 1(4) by blast
        then show ?thesis using st R_trans by blast
      qed
    qed
  qed
  then show ?thesis unfolding keeps_def sloop_def by (fastforce split: option.splits)
qed

lemmas keeps_all = keeps_intros keeps_case_prod keeps_sfor keeps_sloop

end

definition memory_only :: "mstate \<Rightarrow> mstate \<Rightarrow> bool" where
  "memory_only s t \<longleftrightarrow> cr3 t = cr3 s \<and> pg t = pg s \<and> iflag t = iflag s \<and> base_kernel_cr3 t = base_kernel_cr3 s \<and>
     kernel_heap t = kernel_heap s \<and> handlers t = handlers s"

interpretation memory_only: frame_rel memory_only
  by unfold_locales (auto simp: memory_only_def)

lemma memory_prims:
  "memory_only.keeps (vld v)" "memory_only.keeps (vst v x)" "memory_only.keeps (vld16 v)" "memory_only.keeps (vst16 v y)"
  "memory_only.keeps (vst8 v z)" "memory_only.keeps (m_pmm_alloc sz)" "memory_only.keeps (m_pmm_unalloc a sz)"
  "memory_only.keeps vmm_get_cr3" "memory_only.keeps (vmm_invlpg v)"
  by (auto simp: memory_only.keeps_def memory_only_def vld_def vst_def vld16_def vst16_def vst8_def m_pmm_alloc_def m_pmm_unalloc_def
      vmm_get_cr3_def vmm_invlpg_def rbind_def split: option.splits sum.splits)

lemmas memory_intros = memory_only.keeps_all memory_prims

section \<open>Paging\<close>

lemma windows_memory:
  "memory_only.keeps (open_dir L d)" "memory_only.keeps (open_table L d)" "memory_only.keeps (close_dir L)" "memory_only.keeps (close_table L)"
  "memory_only.keeps (traverse_table L z)" "memory_only.keeps (traverse_page L z)"
  unfolding open_dir_def open_table_def close_dir_def close_table_def traverse_table_def traverse_page_def Let_def
  by (intro memory_intros)+

lemma virt_to_phys_memory: "memory_only.keeps (virt_to_phys L v d)"
  unfolding virt_to_phys_def Let_def by (intro memory_intros windows_memory)

lemma is_mapped_memory: "memory_only.keeps (is_mapped L v d)"
  unfolding is_mapped_def by (intro memory_intros virt_to_phys_memory)

lemma ensure_table_memory: "memory_only.keeps (ensure_table L z)"
  unfolding ensure_table_def Let_def by (intro memory_intros windows_memory)

lemma map_loop_memory: "memory_only.keeps (map_loop L pr n v p b)"
  by (induction n arbitrary: v p b) (auto simp: Let_def intro!: memory_intros windows_memory ensure_table_memory)

lemma unmap_loop_memory: "memory_only.keeps (unmap_loop L n v b)"
  by (induction n arbitrary: v b) (auto simp: Let_def intro!: memory_intros windows_memory ensure_table_memory)

lemma maps_memory: "memory_only.keeps (vmm_map_pages L p v d n pr)" "memory_only.keeps (vmm_unmap_pages L v d n)" "memory_only.keeps (vmm_map L p v n pr)"
proof -
  show m: "memory_only.keeps (vmm_map_pages L p v d n pr)" for d
    unfolding vmm_map_pages_def by (intro memory_intros windows_memory map_loop_memory)
  show "memory_only.keeps (vmm_unmap_pages L v d n)"
    unfolding vmm_unmap_pages_def by (intro memory_intros windows_memory unmap_loop_memory)
  show "memory_only.keeps (vmm_map L p v n pr)" unfolding vmm_map_def by (intro memory_intros m)
qed

section \<open>The heap\<close>

lemma list_memory:
  "memory_only.keeps (ok_address p h)" "memory_only.keeps (set_head q f)" "memory_only.keeps (set_inuse p sz)"
  "memory_only.keeps (set_size_and_pinuse p sz)" "memory_only.keeps (clear_pinuse p)" "memory_only.keeps (set_foot p sz)"
  "memory_only.keeps (v_list_empty p)" "memory_only.keeps (v_list_add_tail p q)" "memory_only.keeps (v_list_del_entry p)"
  "memory_only.keeps (fit_loop p sz q)" "memory_only.keeps (top_loop p x)"
  unfolding ok_address_def set_inuse_def clear_pinuse_def set_head_def set_size_and_pinuse_def set_foot_def v_list_empty_def
    v_list_add_tail_def v_list_del_entry_def fit_loop_def top_loop_def
  by (intro memory_intros)+

lemma chunk_memory:
  "memory_only.keeps (findSmallestChunk sz h)" "memory_only.keeps (insertChunk p h)" "memory_only.keeps (removeChunk p)"
  unfolding findSmallestChunk_def insertChunk_def removeChunk_def by (intro memory_intros list_memory)+

lemmas heap_intros = memory_intros list_memory chunk_memory maps_memory virt_to_phys_memory is_mapped_memory

lemma resize_memory: "memory_only.keeps (expand L n h)" "memory_only.keeps (contract L n h)"
  unfolding expand_def contract_def Let_def by (intro heap_intros)+

lemma alloc_memory: "memory_only.keeps (alloc L sz h)"
  unfolding alloc_def alloc_step_def alloc_grow_def alloc_take_def Let_def by (intro heap_intros resize_memory)

lemma free_memory: "memory_only.keeps (free_chunk L p h)"
  unfolding free_chunk_def free_next_def free_last_def Let_def by (intro heap_intros resize_memory)

lemma aligned_memory: "memory_only.keeps (palignedAlloc L sz h)"
  unfolding palignedAlloc_def Let_def by (intro heap_intros alloc_memory free_memory)

lemma kmalloc_memory: "memory_only.keeps (kmalloc L sz)" "memory_only.keeps (kmalloc_a L sz)" "memory_only.keeps (kfree L p)"
  unfolding kmalloc_def kmalloc_a_def kfree_def heap_malloc_def heap_free_def
  by (intro heap_intros alloc_memory aligned_memory free_memory)+

end
