(* ===== verification/Kernel.thy ===== *)
theory Kernel
  imports Smp Acpi Elf Screen Stdio Isr
begin

unbundle bit_operations_syntax

text \<open>
  The kernel as a whole, for \<^verbatim>\<open>src/kernel.c\<close>, with the report of \<open>panic\<close> in \<^verbatim>\<open>src/klibc/stdlib.c\<close> and of
  \<open>stack_trace\<close> in \<^verbatim>\<open>src/sys/stack_trace.c\<close>. The state of the components is one record, and each
  component's operations are lifted to it. The tables of the firmware and the frame buffer are
  mapped one to one, so the components that use them see physical memory; the mappings they ask
  for are recorded by them and carried out after them. \<open>image\<close> holds what the linker and the
  assembly files define. Endless waiting at the end of a function is the error \<open>Diverges\<close> or
  \<open>Halted\<close>.
\<close>

section \<open>State\<close>

record multiboot_info =
  mb_flags :: u32
  mb_mmap :: "mmap_entry list"
  mb_elf_num :: u32
  mb_elf_size :: u32
  mb_elf_addr :: u32
  mb_elf_shndx :: u32
  mb_framebuffer :: fb_info

record image =
  links :: symbols
  lit :: "string \<Rightarrow> u32"
  stubs :: "nat \<Rightarrow> u32"
  stub_syms :: isr_symbols
  sym_heap_base :: u32
  sym_bsp_locals :: u32
  sym_kernel_obj :: u32
  sym_kernel_thread :: u32
  sym_test_thread :: u32
  sym_idle :: u32
  sym_v86_code :: "u32 \<times> nat"
  sym_v86_enter :: u32
  sym_trampoline :: "u32 \<times> nat"
  sym_smp_loaded :: u32
  sym_gdt_ptr :: u32

record kernel =
  sm :: smp_state
  mboot_s :: "multiboot_info option"
  acpi :: acpi_state
  video :: vesa_state
  screen_cursor :: vesa_vector2
  global_putchar :: bool
  elf_objs :: "u32 \<Rightarrow> elf_obj"
  panic_counter :: u8

definition sm_op :: "(smp_state, 'a) op \<Rightarrow> (kernel, 'a) op" where
  "sm_op f s = (case f (sm s) of Inl e \<Rightarrow> Inl e | Inr (x, t) \<Rightarrow> Inr (x, s\<lparr>sm := t\<rparr>))"

abbreviation kern_op :: "(kstate, 'a) op \<Rightarrow> (kernel, 'a) op" where "kern_op f \<equiv> sm_op (k_op f)"
abbreviation machine_op :: "(mstate, 'a) op \<Rightarrow> (kernel, 'a) op" where "machine_op f \<equiv> kern_op (mach_op f)"
abbreviation machine :: "kernel \<Rightarrow> mstate" where "machine s \<equiv> mach (kst (sm s))"

definition kernel_mem :: "kernel \<Rightarrow> mem" where
  "kernel_mem s = vm UNIV (machine s)"

text \<open>The mappings that a component asked for, one to one, present and writable.\<close>

definition map_identity :: "symbols \<Rightarrow> (u32 \<times> u32) list \<Rightarrow> (kernel, unit) op" where
  "map_identity L ms = siter (\<lambda>(a, n). sthen (machine_op (vmm_map L a a n (ucast (VMM_PRESENT OR VMM_WRITE)))) (sret ())) ms"

definition video_op :: "symbols \<Rightarrow> (vesa_state, 'a) op \<Rightarrow> (kernel, 'a) op" where
  "video_op L f =
     sbind (\<lambda>s. case f ((video s)\<lparr>vmem := phys (machine s), vesa_maps := []\<rparr>) of
                  Inl e \<Rightarrow> Inl e
                | Inr (x, v) \<Rightarrow> Inr ((x, vesa_maps v),
                    s\<lparr>video := v, sm := (sm s)\<lparr>kst := (kst (sm s))\<lparr>mach := (machine s)\<lparr>phys := vmem v\<rparr>\<rparr>\<rparr>\<rparr>))
       (\<lambda>(x, ms). sthen (map_identity L ms) (sret x))"

definition screen_op :: "(vesa_video_mode \<Rightarrow> (screen_state, 'a) op) \<Rightarrow> (kernel, 'a) op" where
  "screen_op f s =
     (case current_mode (video s) of
        None \<Rightarrow> Inl (PageFault 0)
      | Some md \<Rightarrow>
          (case f md \<lparr>smem = phys (machine s), cursor = screen_cursor s, sdev = dev (kst (sm s))\<rparr> of
             Inl e \<Rightarrow> Inl e
           | Inr (x, t) \<Rightarrow> Inr (x, s\<lparr>screen_cursor := cursor t,
               sm := (sm s)\<lparr>kst := (kst (sm s))\<lparr>mach := (machine s)\<lparr>phys := smem t\<rparr>, dev := sdev t\<rparr>\<rparr>\<rparr>)))"

section \<open>Messages\<close>

text \<open>
  A message is the literal at the address the linker gave it, with its arguments. A literal is named
  by its text, without the line end and, where it is long or quotes, abbreviated.
\<close>

definition ser_say :: "image \<Rightarrow> string \<Rightarrow> u32 list \<Rightarrow> (kernel, unit) op" where
  "ser_say I w args = sbind (sget kernel_mem) (\<lambda>m. kern_op (io_op (ser_printf m (lit I w) (\<lambda>k. args ! k))))"

definition k_say :: "image \<Rightarrow> mem \<Rightarrow> string \<Rightarrow> u32 list \<Rightarrow> (kernel, unit) op" where
  "k_say I m w args =
     sbind (sget global_putchar) (\<lambda>out.
     if \<not> out then sret ()
     else screen_op (\<lambda>md. kprintf (Some (screen_putc md)) m (lit I w) (\<lambda>k. args ! k)))"

section \<open>The report of a panic\<close>

text \<open>The thread the core runs, with its process.\<close>

definition running :: "nat \<Rightarrow> (kernel, (thread \<times> process) option) op" where
  "running c = kern_op
     (sbind (get_core_locals c) (\<lambda>l.
      if current_thread l = 0 then sret None
      else sbind (get_thread (current_thread l)) (\<lambda>t.
           sbind (get_proc (t_parent t)) (\<lambda>pr. sret (Some (t, pr))))))"

definition print_stack_frame :: "image \<Rightarrow> nat \<Rightarrow> u32 \<Rightarrow> bool \<Rightarrow> (kernel, unit) op" where
  "print_stack_frame I c addr faulting =
     (if addr = 0 then sret ()
      else sbind (running c) (\<lambda>cur.
           sbind (sget kernel_mem) (\<lambda>m.
           sbind (sget elf_objs) (\<lambda>objs.
           case resolve_frame m objs (sym_kernel_obj I) (map_option (p_elf_obj \<circ> snd) cur) (sym_kernel_obj I) addr of
             None \<Rightarrow> sfail Diverges
           | Some (hdr, symbol) \<Rightarrow>
               sthen (ser_say I ''%-3s '' [lit I (if faulting then ''-->'' else [])])
              (sthen (ser_say I ''0x%08x -> %-25s at address 0x%08x ''
                        (if symbol \<noteq> 0 then [addr, strtab_head (objs hdr) + st_name m symbol, st_value m symbol]
                         else [addr, lit I ''UNKNOWN'', addr]))
              (sthen (case cur of None \<Rightarrow> sret () | Some (t, pr) \<Rightarrow> ser_say I ''in %s:%u '' [t_parent t, t_tid t])
                     (ser_say I [CHR 0x0A] [])))))))"

definition print_trace :: "image \<Rightarrow> nat \<Rightarrow> u32 \<Rightarrow> u32 \<Rightarrow> (kernel, unit) op" where
  "print_trace I c ebp maxFrames =
     sthen (ser_say I ''Stack trace begin'' [])
    (sbind (kern_op (get_core_locals c)) (\<lambda>l.
     sbind (if in_irq l then sbind (machine_op (vld (r_ebp (irq_regs l)))) (\<lambda>iebp.
                             sbind (machine_op (vld (r_eip (irq_regs l)))) (\<lambda>ieip. sret (Some (iebp, ieip))))
            else sret None) (\<lambda>irq.
     sbind (sget kernel_mem) (\<lambda>m.
     sthen (siter (\<lambda>(a, faulting). print_stack_frame I c a faulting) (stack_trace m ebp irq maxFrames))
           (ser_say I ''Stack trace end'' [])))))"

primrec reads :: "u32 list \<Rightarrow> (kernel, u32 list) op" where
  "reads [] = sret []"
| "reads (a # as) = sbind (machine_op (vld a)) (\<lambda>v. sbind (reads as) (\<lambda>vs. sret (v # vs)))"

definition panic_context :: "image \<Rightarrow> nat \<Rightarrow> (kernel, unit) op" where
  "panic_context I c =
     sbind (sget (\<lambda>s. cores (kst (sm s)) c)) (\<lambda>locals.
     case locals of
       Some l \<Rightarrow>
         if in_irq l then
           (let regs = irq_regs l
            in sthen (sbind (reads [r_eax regs, r_ebx regs, r_ecx regs]) (ser_say I ''EAX: 0x%08x, EBX: 0x%08x, ECX 0x%08x''))
              (sthen (sbind (reads [r_edx regs, r_esi regs, r_edi regs]) (ser_say I ''EDX: 0x%08x, ESI: 0x%08x, EDI 0x%08x''))
              (sthen (sbind (reads [r_ebp regs, r_esp regs, r_eip regs]) (ser_say I ''EBP: 0x%08x, ESP: 0x%08x, EIP 0x%08x''))
              (sthen (sbind (reads [r_eflags regs]) (ser_say I ''EFLAGS: 0x%08x''))
              (sthen (sbind (reads [r_cs regs, r_ds regs]) (ser_say I ''CS: 0x%04x, DS: 0x%04x''))
                     (sbind (reads [r_user_ss regs, r_user_esp regs]) (ser_say I ''User SS: 0x%04x, User ESP: 0x%08x'')))))))
         else ser_say I ''No panic context'' []
     | None \<Rightarrow> ser_say I ''No panic context'' [])"

text \<open>
  \<open>panic\<close> up to the loop that halts the core for ever. \<open>ebp\<close> is the frame pointer of \<open>stack_trace\<close>.
  The locks of the output routines, which it releases by force, are not part of the state.
\<close>

definition panic_body :: "image \<Rightarrow> nat \<Rightarrow> u32 \<Rightarrow> u32 \<Rightarrow> (kernel, unit) op" where
  "panic_body I c ebp msg =
     sthen (machine_op (smod (\<lambda>m. m\<lparr>iflag := False\<rparr>)))
    (sbind (sget panic_counter) (\<lambda>n.
     sthen (smod (\<lambda>s. s\<lparr>panic_counter := panic_counter s + 1\<rparr>))
     (if n = 0 then
        sthen (ser_say I ''Kernel PANIC!!! [%s]'' [msg])
       (sthen (panic_context I c)
       (sthen (print_trace I c ebp 16)
              (kern_op (sched_panic c))))
      else
        sbind (sget panic_counter) (\<lambda>n.
        sthen (smod (\<lambda>s. s\<lparr>panic_counter := panic_counter s + 1\<rparr>))
              (swhen (n = 1) (ser_say I ''DOUBLE PANIC!!!'' []))))))"

definition panic :: "image \<Rightarrow> nat \<Rightarrow> u32 \<Rightarrow> u32 \<Rightarrow> (kernel, unit) op" where
  "panic I c ebp msg = sthen (panic_body I c ebp msg) (sfail Halted)"

section \<open>What the report leaves alone\<close>

text \<open>Everything but the devices.\<close>

definition devices_only :: "kernel \<Rightarrow> kernel \<Rightarrow> bool" where
  "devices_only s t \<longleftrightarrow> (\<exists>d. t = s\<lparr>sm := (sm s)\<lparr>kst := (kst (sm s))\<lparr>dev := d\<rparr>\<rparr>\<rparr>)"

lemma devices_only_trans: "devices_only s t \<Longrightarrow> devices_only t u \<Longrightarrow> devices_only s u"
  by (auto simp: devices_only_def)

lemma devices_only_refl: "devices_only s s"
  unfolding devices_only_def by (intro exI [of _ "dev (kst (sm s))"]) simp

interpretation says: frame_rel devices_only
  by unfold_locales (auto intro: devices_only_refl devices_only_trans)

lemma devices_only_fields:
  assumes "devices_only s t"
  shows "machine t = machine s" "threads (kst (sm t)) = threads (kst (sm s))" "procs (kst (sm t)) = procs (kst (sm s))"
    "cores (kst (sm t)) = cores (kst (sm s))" "lapic_writes (kst (sm t)) = lapic_writes (kst (sm s))"
    "lapic_ids (kst (sm t)) = lapic_ids (kst (sm s))" "madt_cpu (kst (sm t)) = madt_cpu (kst (sm s))"
    "elf_objs t = elf_objs s" "panic_counter t = panic_counter s" "kernel_mem t = kernel_mem s"
  using assms by (auto simp: devices_only_def kernel_mem_def)

lemma kern_op_Inr: "kern_op f s = Inr (x, t) \<longleftrightarrow> (\<exists>k. f (kst (sm s)) = Inr (x, k) \<and> t = s\<lparr>sm := (sm s)\<lparr>kst := k\<rparr>\<rparr>)"
  by (auto simp: sm_op_def k_op_def split: sum.splits prod.splits)

lemma io_op_Inr: "io_op f s = Inr (x, t) \<longleftrightarrow> (\<exists>d. f (dev s) = Inr (x, d) \<and> t = s\<lparr>dev := d\<rparr>)"
  by (auto simp: io_op_def split: sum.splits prod.splits)

lemma ser_say_keeps: "says.keeps (ser_say I w args)"
  unfolding says.keeps_def devices_only_def ser_say_def by (auto simp: sbind_eq_Inr kern_op_Inr io_op_Inr)

text \<open>Operations that only look.\<close>

lemma kern_look_keeps: "(\<And>s x t. f s = Inr (x, t) \<Longrightarrow> t = s) \<Longrightarrow> says.keeps (kern_op f)"
  unfolding says.keeps_def
proof (intro allI impI)
  assume f: "\<And>s x t. f s = Inr (x, t) \<Longrightarrow> t = s"
  fix s x t assume "kern_op f s = Inr (x, t)"
  then obtain k where "f (kst (sm s)) = Inr (x, k)" and t: "t = s\<lparr>sm := (sm s)\<lparr>kst := k\<rparr>\<rparr>" by (auto simp: kern_op_Inr)
  then have "t = s" using f by auto
  then show "devices_only s t" using devices_only_refl by simp
qed

lemma look_keeps: "says.keeps (machine_op (vld a))" "says.keeps (kern_op (get_core_locals c))" "says.keeps (running c)"
proof -
  show "says.keeps (machine_op (vld a))"
    by (rule kern_look_keeps) (auto simp: mach_op_Inr vld_def split: option.splits)
  show "says.keeps (kern_op (get_core_locals c))"
    by (rule kern_look_keeps) (auto simp: get_core_locals_def split: option.splits)
  show "says.keeps (running c)"
    unfolding running_def
    by (rule kern_look_keeps) (auto simp: get_core_locals_def get_thread_Inr get_proc_Inr sbind_eq_Inr split: option.splits if_splits)
qed

lemma reads_keeps: "says.keeps (reads as)"
proof (induction as)
  case Nil
  show ?case unfolding reads.simps by (rule says.keeps_sret)
next
  case (Cons a as)
  then show ?case unfolding reads.simps by (intro says.keeps_intros look_keeps)
qed

lemma print_stack_frame_keeps: "says.keeps (print_stack_frame I c a faulting)"
  unfolding print_stack_frame_def
  by (intro says.keeps_intros look_keeps ser_say_keeps) (auto split: option.splits intro!: says.keeps_intros ser_say_keeps)

lemma print_trace_keeps: "says.keeps (print_trace I c ebp n)"
  unfolding print_trace_def
  by (intro says.keeps_intros look_keeps ser_say_keeps) (auto intro!: print_stack_frame_keeps)

lemma panic_context_keeps: "says.keeps (panic_context I c)"
  unfolding panic_context_def Let_def
  by (intro says.keeps_intros) (auto split: option.splits simp del: reads.simps intro!: says.keeps_intros reads_keeps ser_say_keeps)

section \<open>The other cores are told\<close>

definition ipis :: "nat \<Rightarrow> u32 \<Rightarrow> kstate \<Rightarrow> (nat \<times> u32 \<times> u32) list" where
  "ipis c n k = concat (map (\<lambda>(pid, apic, fl). if apic = lapic_ids k c then [] else [(c, 0x310, push_bit 24 (ucast apic)), (c, 0x300, n)])
     (madt_cpu k))"

lemma lapic_id_back: "smp_get_lapic_id c k = Inr (lapic_ids k c, k)"
  using own_id [of c "\<lparr>kst = k, smp_boot_counter = 0, core_apic = undefined, core_msr = undefined, idt_ptr = undefined\<rparr>"]
  by (auto simp: k_op_def split: sum.splits prod.splits)

lemma global_sends:
  "smp_send_global_interrupt c n k = Inr ((), k\<lparr>lapic_writes := lapic_writes k @ ipis c (push_bit 14 1 OR ucast n) k\<rparr>)"
proof -
  have "siter (\<lambda>(acpi_processor_id, apic_id, cpu_flags). sbind (smp_get_lapic_id c) (\<lambda>own.
       swhen (apic_id \<noteq> own) (smp_send_ipi c apic_id ipi))) cpus k =
    Inr ((), k\<lparr>lapic_writes := lapic_writes k @ concat (map (\<lambda>(pid, apic, fl). if apic = lapic_ids k c then []
       else [(c, 0x310, push_bit 24 (ucast apic)), (c, 0x300, ipi)]) cpus)\<rparr>)" for cpus ipi
    by (induction cpus arbitrary: k) (auto simp: sthen_def sbind_def smp_send_ipi_def write_lapic_def lapic_id_back)
  then show ?thesis by (simp add: smp_send_global_interrupt_def smp_send_global_ipi_def sbind_def ipis_def)
qed

lemma sched_panic_sends: "sched_panic c k = Inr ((), k\<lparr>lapic_writes := lapic_writes k @ ipis c 0x40F1 k\<rparr>)"
  by (simp add: sched_panic_def global_sends push_bit_eq_mult)

section \<open>Properties\<close>

text \<open>A report that meets an address outside the kernel image does not come to its end.\<close>

lemma frame_hangs:
  assumes "addr \<noteq> 0" "addr < start (elf_objs s k) \<or> addr > obj_end (elf_objs s k)" "k = sym_kernel_obj I"
    and "cores (kst (sm s)) c = Some l" "current_thread l \<noteq> 0" "threads (kst (sm s)) (current_thread l) = Some t"
    and "procs (kst (sm s)) (t_parent t) = Some pr" "p_elf_obj pr = k"
  shows "print_stack_frame I c addr b s = Inl Diverges"
proof -
  have "ELFFindNearestSymbolByAddress m (elf_objs s k) STT_FUNC addr = 0" for m
    using assms(2) by (simp add: ELFFindNearestSymbolByAddress_def)
  then have "resolve_frame m (elf_objs s) k (Some k) k addr = None" for m by (rule resolve_frame_stuck)
  moreover have "running c s = Inr (Some (t, pr), s)"
    using assms(4-7) by (simp add: running_def sm_op_def k_op_def sbind_def get_core_locals_def get_thread_def get_proc_def)
  ultimately show ?thesis using assms(1,3,8) by (simp add: print_stack_frame_def sbind_def)
qed

lemma siter_fails:
  assumes "\<And>x. says.keeps (f x)" "x \<in> set xs" "\<And>t. devices_only s t \<Longrightarrow> \<exists>e. f x t = Inl e"
  shows "\<exists>e. siter f xs s = Inl e"
  using assms(2,3)
proof (induction xs arbitrary: s)
  case (Cons y ys)
  show ?case
  proof (cases "f y s")
    case (Inl e)
    then show ?thesis by (simp add: sthen_Inl)
  next
    case (Inr r)
    then obtain t where t: "f y s = Inr ((), t)" by (cases r) simp
    then have d: "devices_only s t" using says.keepsD [OF assms(1)] by blast
    have "x \<noteq> y" using t Cons.prems(2) [OF devices_only_refl] by auto
    then have "\<exists>e. siter f ys t = Inl e" using Cons.prems d devices_only_trans by (intro Cons.IH) auto
    then show ?thesis using t by (simp add: sthen_Inr)
  qed
qed simp

lemma sthen_keeps_fails:
  assumes "says.keeps f" "\<And>t. devices_only s t \<Longrightarrow> \<exists>e. g t = Inl e"
  shows "\<exists>e. sthen f g s = Inl e"
proof (cases "f s")
  case (Inr r)
  then obtain x t where "f s = Inr (x, t)" by (cases r) simp
  then show ?thesis using assms says.keepsD [OF assms(1)] by (auto simp: sthen_Inr)
qed (simp add: sthen_Inl)

text \<open>The core handles an interrupt that came from the address \<open>eip\<close> in a thread of a kernel process.\<close>

definition interrupted_at :: "image \<Rightarrow> nat \<Rightarrow> u32 \<Rightarrow> kernel \<Rightarrow> bool" where
  "interrupted_at I c eip s \<longleftrightarrow> (\<exists>l t pr p. cores (kst (sm s)) c = Some l \<and> in_irq l \<and> current_thread l \<noteq> 0 \<and>
     threads (kst (sm s)) (current_thread l) = Some t \<and> procs (kst (sm s)) (t_parent t) = Some pr \<and>
     p_elf_obj pr = sym_kernel_obj I \<and> mmu (machine s) (r_eip (irq_regs l)) = Some p \<and> ld32 (phys (machine s)) p = eip)"

lemma interrupted_at_devices: "interrupted_at I c eip s \<Longrightarrow> devices_only s t \<Longrightarrow> interrupted_at I c eip t"
  unfolding interrupted_at_def by (simp add: devices_only_fields)

lemma trace_hangs:
  assumes "interrupted_at I c eip s" "eip \<noteq> 0"
    and "eip < start (elf_objs s (sym_kernel_obj I)) \<or> eip > obj_end (elf_objs s (sym_kernel_obj I))"
  shows "\<exists>e. print_trace I c ebp n s = Inl e"
  unfolding print_trace_def
proof (rule sthen_keeps_fails [OF ser_say_keeps])
  fix s1 assume d: "devices_only s s1"
  obtain l t pr p where l: "cores (kst (sm s1)) c = Some l" "in_irq l" "mmu (machine s1) (r_eip (irq_regs l)) = Some p"
    "ld32 (phys (machine s1)) p = eip" "current_thread l \<noteq> 0" "threads (kst (sm s1)) (current_thread l) = Some t"
    "procs (kst (sm s1)) (t_parent t) = Some pr" "p_elf_obj pr = sym_kernel_obj I"
    using interrupted_at_devices [OF assms(1) d] unfolding interrupted_at_def by blast
  have eip: "machine_op (vld (r_eip (irq_regs l))) s1 = Inr (eip, s1)"
    using l by (simp add: sm_op_def k_op_def mach_op_def vld_def)
  have o: "elf_objs s1 = elf_objs s" using devices_only_fields [OF d] by simp
  show "\<exists>e. sbind (kern_op (get_core_locals c)) (\<lambda>l.
     sbind (if in_irq l then sbind (machine_op (vld (r_ebp (irq_regs l)))) (\<lambda>iebp.
                             sbind (machine_op (vld (r_eip (irq_regs l)))) (\<lambda>ieip. sret (Some (iebp, ieip))))
            else sret None) (\<lambda>irq.
     sbind (sget kernel_mem) (\<lambda>m.
     sthen (siter (\<lambda>(a, faulting). print_stack_frame I c a faulting) (stack_trace m ebp irq n))
           (ser_say I ''Stack trace end'' [])))) s1 = Inl e"
  proof (cases "mmu (machine s1) (r_ebp (irq_regs l))")
    case None
    then show ?thesis using l(1,2) by (simp add: sbind_def sm_op_def k_op_def get_core_locals_def mach_op_def vld_def)
  next
    case (Some q)
    let ?b = "ld32 (phys (machine s1)) q"
    let ?tr = "stack_trace (kernel_mem s1) ebp (Some (?b, eip)) n"
    have b: "machine_op (vld (r_ebp (irq_regs l))) s1 = Inr (?b, s1)" using Some by (simp add: sm_op_def k_op_def mach_op_def vld_def)
    have "(eip, True) \<in> set ?tr" using assms(2) by (simp add: stack_trace_def Let_def)
    moreover have "print_stack_frame I c eip True u = Inl Diverges" if "devices_only s1 u" for u
      using frame_hangs [of eip u "sym_kernel_obj I" I c l t pr True] assms(2,3) l devices_only_fields [OF that] o by simp
    ultimately have "\<exists>e. siter (\<lambda>(a, faulting). print_stack_frame I c a faulting) ?tr s1 = Inl e"
      by (intro siter_fails [where x = "(eip, True)"]) (auto intro: print_stack_frame_keeps)
    then show ?thesis using l(1,2) b eip by (auto simp: sbind_def sm_op_def k_op_def get_core_locals_def sthen_def)
  qed
qed

abbreviation cli :: "kernel \<Rightarrow> kernel" where
  "cli s \<equiv> s\<lparr>sm := (sm s)\<lparr>kst := (kst (sm s))\<lparr>mach := (machine s)\<lparr>iflag := False\<rparr>\<rparr>\<rparr>\<rparr>"

lemma sbind_sget: "sbind (sget f) g s = g (f s) s"
  by (simp add: sbind_def)

lemma sthen_smod: "sthen (smod f) g s = g (f s)"
  by (simp add: sthen_def sbind_def)

lemma mmu_iflag: "mmu (m\<lparr>iflag := b\<rparr>) v = mmu m v"
  by (simp add: mmu_def)

lemma panic_cli: "machine_op (smod (\<lambda>m. m\<lparr>iflag := False\<rparr>)) s = Inr ((), cli s)"
  by (simp add: sm_op_def k_op_def mach_op_def)

lemma panic_first:
  assumes "panic_counter s = 0"
  shows "panic_body I c ebp msg s =
    sthen (ser_say I ''Kernel PANIC!!! [%s]'' [msg]) (sthen (panic_context I c) (sthen (print_trace I c ebp 16) (kern_op (sched_panic c))))
      ((cli s)\<lparr>panic_counter := 1\<rparr>)"
  using assms unfolding panic_body_def sthen_Inr [OF panic_cli] by (simp add: sbind_sget sthen_smod)

text \<open>An odd counter is neither 0 at the first test nor 1, when it has grown, at the second.\<close>

lemma panic_again:
  assumes "odd (panic_counter s)"
  shows "panic_body I c ebp msg s = Inr ((), (cli s)\<lparr>panic_counter := panic_counter s + 2\<rparr>)"
proof -
  have "panic_counter s \<noteq> 0" "panic_counter s + 1 \<noteq> 1" using assms by auto
  then show ?thesis unfolding panic_body_def sthen_Inr [OF panic_cli] by (simp add: sbind_sget sthen_smod add.assoc)
qed

lemma panics_again:
  assumes "odd (panic_counter s)" "\<not> iflag (machine s)"
  shows "\<exists>t. siter (\<lambda>(c, ebp, msg). panic_body I c ebp msg) calls s = Inr ((), t) \<and> sm t = sm s \<and> odd (panic_counter t)"
  using assms
proof (induction calls arbitrary: s)
  case (Cons call calls)
  obtain c ebp msg where call: "call = (c, ebp, msg)" by (cases call)
  let ?s = "(cli s)\<lparr>panic_counter := panic_counter s + 2\<rparr>"
  have same: "sm ?s = sm s" using Cons.prems(2) by simp
  have "\<exists>t. siter (\<lambda>(c, ebp, msg). panic_body I c ebp msg) calls ?s = Inr ((), t) \<and> sm t = sm ?s \<and> odd (panic_counter t)"
    using Cons.prems by (intro Cons.IH) simp_all
  then show ?case using call panic_again [OF Cons.prems(1)] same by (simp add: sthen_Inr)
qed auto

lemma panic_sends:
  assumes "panic_counter s = 0" "panic_body I c ebp msg s = Inr ((), t)"
  shows "panic_counter t = 1 \<and> \<not> iflag (machine t) \<and>
    lapic_writes (kst (sm t)) = lapic_writes (kst (sm s)) @ ipis c 0x40F1 (kst (sm s))"
proof -
  let ?s = "(cli s)\<lparr>panic_counter := 1\<rparr>"
  obtain s1 s2 s3 where r: "ser_say I ''Kernel PANIC!!! [%s]'' [msg] ?s = Inr ((), s1)" "panic_context I c s1 = Inr ((), s2)"
    "print_trace I c ebp 16 s2 = Inr ((), s3)" "kern_op (sched_panic c) s3 = Inr ((), t)"
    using assms(2) unfolding panic_first [OF assms(1)] by (auto simp: sthen_eq_Inr)
  have "devices_only ?s s3"
    using says.keepsD [OF ser_say_keeps r(1)] says.keepsD [OF panic_context_keeps r(2)] says.keepsD [OF print_trace_keeps r(3)]
      devices_only_trans by blast
  note d = devices_only_fields [OF this]
  have "t = s3\<lparr>sm := (sm s3)\<lparr>kst := (kst (sm s3))\<lparr>lapic_writes := lapic_writes (kst (sm s3)) @ ipis c 0x40F1 (kst (sm s3))\<rparr>\<rparr>\<rparr>"
    using r(4) by (simp add: sm_op_def k_op_def sched_panic_sends)
  then show ?thesis using d by (simp add: ipis_def)
qed

text \<open>C20: the first panic, if its report comes to an end, tells every other processor to halt, exactly once, and leaves
  interrupts off. Whatever panics follow on any core halt in silence: nothing is printed and nothing
  is sent, because the counter is raised twice by each and never again equal to the values it is
  compared with, also not when it wraps around. The message of a double panic is never printed.\<close>

theorem panic_once:
  assumes "panic_counter s = 0" "panic_body I c ebp msg s = Inr ((), t)"
  shows "\<not> iflag (machine t) \<and> lapic_writes (kst (sm t)) = lapic_writes (kst (sm s)) @ ipis c 0x40F1 (kst (sm s)) \<and>
    (\<exists>u. siter (\<lambda>(c, ebp, msg). panic_body I c ebp msg) calls t = Inr ((), u) \<and> sm u = sm t)"
proof -
  have p: "panic_counter t = 1" "\<not> iflag (machine t)" and
    w: "lapic_writes (kst (sm t)) = lapic_writes (kst (sm s)) @ ipis c 0x40F1 (kst (sm s))"
    using panic_sends [OF assms] by simp_all
  have "odd (panic_counter t)" using p(1) by simp
  then have "\<exists>u. siter (\<lambda>(c, ebp, msg). panic_body I c ebp msg) calls t = Inr ((), u) \<and> sm u = sm t \<and> odd (panic_counter u)"
    using p(2) by (rule panics_again)
  with p(2) w show ?thesis by blast
qed

text \<open>C21: a panic in an interrupt that came from outside the kernel image, for instance from virtual-8086 code, never
  finishes its report: no symbol is found for the address, the search goes on with the object of
  the current process, which is the kernel's object again, and so on for ever. The other cores are
  not told to halt.\<close>

theorem panic_hangs:
  assumes "panic_counter s = 0" "interrupted_at I c eip s" "eip \<noteq> 0"
    and "eip < start (elf_objs s (sym_kernel_obj I)) \<or> eip > obj_end (elf_objs s (sym_kernel_obj I))"
  shows "(\<nexists>r. panic_body I c ebp msg s = Inr r) \<and> print_stack_frame I c eip True s = Inl Diverges"
proof -
  let ?s = "(cli s)\<lparr>panic_counter := 1\<rparr>"
  have i: "interrupted_at I c eip ?s" using assms(2) by (simp add: interrupted_at_def mmu_iflag)
  have "\<exists>e. panic_body I c ebp msg s = Inl e"
    unfolding panic_first [OF assms(1)]
  proof (rule sthen_keeps_fails [OF ser_say_keeps], rule sthen_keeps_fails [OF panic_context_keeps])
    fix t u assume "devices_only ?s t" "devices_only t u"
    then have d: "devices_only ?s u" by (rule devices_only_trans)
    have "\<exists>e. print_trace I c ebp 16 u = Inl e"
      using trace_hangs [OF interrupted_at_devices [OF i d] assms(3)] assms(4) devices_only_fields [OF d] by simp
    then show "\<exists>e. sthen (print_trace I c ebp 16) (kern_op (sched_panic c)) u = Inl e" by (auto simp: sthen_Inl)
  qed
  moreover obtain l t pr where "cores (kst (sm s)) c = Some l" "current_thread l \<noteq> 0" "threads (kst (sm s)) (current_thread l) = Some t"
    "procs (kst (sm s)) (t_parent t) = Some pr" "p_elf_obj pr = sym_kernel_obj I"
    using assms(2) unfolding interrupted_at_def by blast
  then have "print_stack_frame I c eip True s = Inl Diverges" using assms(3,4) by (intro frame_hangs) auto
  ultimately show ?thesis by auto
qed

definition demo_obj :: elf_obj where
  "demo_obj = \<lparr>header = 0, sectab_head = 0, sectab_size = 0, progtab_head = 0, progtab_size = 0, symtab_head = 0, symtab_size = 0,
     strtab_head = 0, strtab_size = 0, hstrtab_head = 0, start = 0x100000, obj_end = 0x200000\<rparr>"

definition demo_image :: image where
  "demo_image = \<lparr>links = undefined, lit = (\<lambda>_. 0), stubs = (\<lambda>_. 0), stub_syms = undefined, sym_heap_base = 0, sym_bsp_locals = 0,
     sym_kernel_obj = 0x6000, sym_kernel_thread = 0, sym_test_thread = 0, sym_idle = 0, sym_v86_code = (0, 0), sym_v86_enter = 0,
     sym_trampoline = (0, 0), sym_smp_loaded = 0, sym_gdt_ptr = 0\<rparr>"

text \<open>Core 0 of two, not in an interrupt, and with a serial port that was never set up.\<close>

definition demo_boot :: "kstate \<Rightarrow> kernel" where
  "demo_boot k = \<lparr>sm = \<lparr>kst = k, smp_boot_counter = 1, core_apic = undefined, core_msr = (\<lambda>_. 0), idt_ptr = (\<lambda>_. (0, 0))\<rparr>,
     mboot_s = None, acpi = undefined, video = undefined, screen_cursor = \<lparr>vx = 0, vy = 0\<rparr>, global_putchar = False,
     elf_objs = (\<lambda>_. demo_obj), panic_counter = 0\<rparr>"

definition demo_silent :: kernel where
  "demo_silent = demo_boot (demo_kernel\<lparr>cores := [0 \<mapsto> (demo_core 0 CORE_IDLE 0)\<lparr>in_irq := False\<rparr>],
     madt_cpu := [(0, 0, 1), (1, 1, 1)], dev := (dev demo_kernel)\<lparr>active_port := 0\<rparr>\<rparr>)"

lemma ser_say_silent: "active_port (dev (kst (sm s))) = 0 \<Longrightarrow> ser_say I w args s = Inr ((), s)"
  by (simp add: ser_say_def ser_printf_def sbind_def sm_op_def k_op_def io_op_def)

lemma demo_silent_simps:
  "panic_counter demo_silent = 0" "cores (kst (sm demo_silent)) = [0 \<mapsto> (demo_core 0 CORE_IDLE 0)\<lparr>in_irq := False\<rparr>]"
  "active_port (dev (kst (sm demo_silent))) = 0" "madt_cpu (kst (sm demo_silent)) = [(0, 0, 1), (1, 1, 1)]"
  "lapic_ids (kst (sm demo_silent)) = of_nat" "lapic_writes (kst (sm demo_silent)) = []"
  by (simp_all add: demo_silent_def demo_boot_def demo_kernel_def)

lemma report_silent:
  assumes "active_port (dev (kst (sm s))) = 0" "cores (kst (sm s)) c = Some l" "\<not> in_irq l"
  shows "panic_context I c s = Inr ((), s)" "print_trace I c 0 n s = Inr ((), s)"
proof -
  have w: "walk_frames k m stop 0 = []" for k m stop by (cases k) simp_all
  show "panic_context I c s = Inr ((), s)" using assms by (simp add: panic_context_def sbind_sget ser_say_silent)
  show "print_trace I c 0 n s = Inr ((), s)"
    using assms by (simp add: print_trace_def sthen_def sbind_def sm_op_def k_op_def get_core_locals_def ser_say_silent stack_trace_def w)
qed

theorem panic_once_witness:
  "\<exists>t. panic_body demo_image 0 0 0 demo_silent = Inr ((), t) \<and>
     lapic_writes (kst (sm t)) = [(0, 0x310, 0x1000000), (0, 0x300, 0x40F1)] \<and>
     (\<exists>u. siter (\<lambda>(c, ebp, msg). panic_body demo_image c ebp msg) [(1, 0, 0), (0, 0, 0)] t = Inr ((), u) \<and> sm u = sm t)"
proof -
  let ?s = "(cli demo_silent)\<lparr>panic_counter := 1\<rparr>"
  have s: "active_port (dev (kst (sm ?s))) = 0" "cores (kst (sm ?s)) 0 = Some ((demo_core 0 CORE_IDLE 0)\<lparr>in_irq := False\<rparr>)"
    by (simp_all add: demo_silent_simps)
  have "panic_context demo_image 0 ?s = Inr ((), ?s)" "print_trace demo_image 0 0 16 ?s = Inr ((), ?s)"
    using report_silent [OF s] by simp_all
  then obtain t where t: "panic_body demo_image 0 0 0 demo_silent = Inr ((), t)"
    unfolding panic_first [OF demo_silent_simps(1)] using ser_say_silent [OF s(1)]
    by (simp add: sthen_Inr [of _ ?s] sm_op_def k_op_def sched_panic_sends)
  have "ipis 0 0x40F1 (kst (sm demo_silent)) = [(0, 0x310, 0x1000000), (0, 0x300, 0x40F1)]"
    by (simp add: ipis_def demo_silent_simps push_bit_eq_mult)
  then have "lapic_writes (kst (sm t)) = [(0, 0x310, 0x1000000), (0, 0x300, 0x40F1)]"
    using panic_once [OF demo_silent_simps(1) t] demo_silent_simps(6) by simp
  moreover have "\<exists>u. siter (\<lambda>(c, ebp, msg). panic_body demo_image c ebp msg) [(1, 0, 0), (0, 0, 0)] t = Inr ((), u) \<and> sm u = sm t"
    using panic_once [OF demo_silent_simps(1) t] by blast
  ultimately show ?thesis using t by blast
qed

text \<open>Core 0 in an interrupt of thread \<open>0x1000\<close>, from \<open>0x7C10\<close>.\<close>

definition demo_v86_irq :: kernel where
  "demo_v86_irq = demo_boot (demo_kernel\<lparr>mach := (mach demo_kernel)\<lparr>pg := False, phys := st32 (\<lambda>_. 0) 0x9030 0x7C10\<rparr>,
     procs := (\<lambda>_. Some \<lparr>p_name = [], p_cr3 = 0, p_ring = 0, p_heap = 0, p_elf_obj = 0x6000, pt_list = []\<rparr>)\<rparr>)"

theorem panic_hangs_witness:
  "(\<nexists>r. panic_body demo_image 0 0x8000 0 demo_v86_irq = Inr r) \<and> print_stack_frame demo_image 0 0x7C10 True demo_v86_irq = Inl Diverges"
proof (rule panic_hangs)
  show "panic_counter demo_v86_irq = 0" by (simp add: demo_v86_irq_def demo_boot_def)
  show "interrupted_at demo_image 0 0x7C10 demo_v86_irq"
    by (simp add: interrupted_at_def demo_v86_irq_def demo_boot_def demo_image_def mmu_def ld32_def st32_def)
  show "(0x7C10 :: u32) \<noteq> 0" by simp
  show "0x7C10 < start (elf_objs demo_v86_irq (sym_kernel_obj demo_image)) \<or> 0x7C10 > obj_end (elf_objs demo_v86_irq (sym_kernel_obj demo_image))"
    by (simp add: demo_v86_irq_def demo_boot_def demo_obj_def)
qed

end
