(* ===== verification/Boot.thy ===== *)
theory Boot
  imports Kernel Control
begin

unbundle bit_operations_syntax

text \<open>
  \<^verbatim>\<open>src/kernel.c\<close>: the boot sequence \<open>kmain\<close> as the composition of the components' operations, and the
  threads it starts. An operation of a core stands for what that core does; interrupts that come in
  between are operations of their own. What the assembly does to enter a system call is the
  argument \<open>gate\<close>, which leaves the register frame and gives its address; \<open>wait\<close> is the waiting of the
  launch of the other processors, and \<open>resume\<close> what happens until a thread that gave up its core is
  chosen again.
\<close>

section \<open>Parts of the boot sequence\<close>

abbreviation (input) MULTIBOOT_BOOTLOADER_MAGIC :: u32 where "MULTIBOOT_BOOTLOADER_MAGIC \<equiv> 0x2BADB002"
abbreviation (input) MULTIBOOT_INFO_ELF_SHDR :: u32 where "MULTIBOOT_INFO_ELF_SHDR \<equiv> 0x20"
abbreviation (input) COM1 :: u16 where "COM1 \<equiv> 0x3F8"
abbreviation (input) UART_BAUD_115200 :: u16 where "UART_BAUD_115200 \<equiv> 1"

text \<open>The entries of the processors in the MADT, which the sending of interrupts looks at.\<close>

definition madt_cpus :: "mem \<Rightarrow> u32 list \<Rightarrow> (u8 \<times> u8 \<times> u32) list" where
  "madt_cpus m = map (\<lambda>p. (m p, m (p + 1), ld32 m (p + 2)))"

definition apic_boot :: "image \<Rightarrow> nat \<Rightarrow> (kernel, unit) op" where
  "apic_boot I c =
     sbind (\<lambda>s. let m = phys (machine s); k = kst (sm s)
                in case apic_configure m (madt (acpi s)) ((core_apic (sm s) c)\<lparr>apic_dev := dev k, vmm_maps := []\<rparr>) of
                     Inl e \<Rightarrow> Inl e
                   | Inr (_, a) \<Rightarrow> Inr (vmm_maps a, s\<lparr>sm := (sm s)\<lparr>core_apic := (core_apic (sm s))(c := a),
                       kst := k\<lparr>dev := apic_dev a, madt_cpu := madt_cpus m (cpu_list a)\<rparr>\<rparr>\<rparr>))
       (map_identity (links I))"

definition load_kernel_table :: "image \<Rightarrow> multiboot_info \<Rightarrow> (kernel, unit) op" where
  "load_kernel_table I mb =
     sthen (map_identity (links I) [(mb_elf_addr mb, ALIGN (mb_elf_size mb) div PAGE_SIZE)])
           (smod (\<lambda>s. s\<lparr>elf_objs := (elf_objs s)(sym_kernel_obj I :=
              init_kernel_table (kernel_mem s) (kernel_start (links I), kernel_end (links I))
                (mb_elf_addr mb) (mb_elf_num mb) (mb_elf_shndx mb) (elf_objs s (sym_kernel_obj I)))\<rparr>))"

text \<open>Memory, tables and devices.\<close>

definition kmain_setup :: "image \<Rightarrow> nat \<Rightarrow> multiboot_info \<Rightarrow> u32 \<Rightarrow> (kernel, unit) op" where
  "kmain_setup I c mboot magic =
     sthen (kern_op (gdt_op gdt_init))
    (sthen (sm_op (init_core_locals_bsp c (sym_bsp_locals I)))
    (sthen (kern_op (io_op (serial_init COM1 UART_BAUD_115200)))
    (sthen (if magic \<noteq> MULTIBOOT_BOOTLOADER_MAGIC
            then sthen (sbind (sget kernel_mem) (\<lambda>m. k_say I m ''Invalid magic number: %x'' [magic])) (sfail Diverges)
            else sret ())
    (sthen (smod (\<lambda>s. s\<lparr>mboot_s := Some mboot\<rparr>))
    (sthen (kern_op (mod_core c (idt_entries_update (idt_init (stubs I)))))
    (sthen (kern_op (tss_init c (l_tss_entry (sym_bsp_locals I))))
    (sthen (smod (\<lambda>s. s\<lparr>acpi := snd (acpi_init (phys (machine s)) (lit I ''APIC'') (acpi s))\<rparr>))
    (sthen (machine_op (mm_memory_setup (links I) (sym_heap_base I) (mb_flags mboot) (mb_mmap mboot)))
    (sthen (video_op (links I) (vesa_init_early (mb_framebuffer mboot)))
    (sthen (screen_op screen_init)
    (sthen (smod (\<lambda>s. s\<lparr>global_putchar := True\<rparr>))
    (sthen (kern_op (io_op (pic_remap 32 40)))
           (apic_boot I c)))))))))))))"

text \<open>Symbols, timer, scheduler and system calls.\<close>

definition kmain_services :: "image \<Rightarrow> multiboot_info \<Rightarrow> (kernel, unit) op" where
  "kmain_services I mboot =
     sthen (swhen (mb_flags mboot AND MULTIBOOT_INFO_ELF_SHDR \<noteq> 0) (load_kernel_table I mboot))
    (sthen (kern_op pit_init)
    (sthen (kern_op (sched_init (links I) (sym_kernel_obj I) (sym_kernel_thread I)))
    (sthen (kern_op syscalls_init)
           (kern_op (syscalls_set 100 Test_handler)))))"

type_synonym gate = "u32 \<Rightarrow> u32 list \<Rightarrow> (kstate, u32) op"

definition syscall_op :: "gate \<Rightarrow> image \<Rightarrow> nat \<Rightarrow> u32 \<Rightarrow> u32 list \<Rightarrow> (kernel, u32) op" where
  "syscall_op gate I c num args = kern_op (sbind (gate num args) (isr_handler (stub_syms I) c))"

definition sched_run :: "gate \<Rightarrow> image \<Rightarrow> nat \<Rightarrow> (kernel, u32) op" where
  "sched_run gate I c = sthen (kern_op (sbind (sget kernel_proc) sched_run_proc)) (syscall_op gate I c 2 [])"

text \<open>The last part; the value is the frame that the final system call leaves to be restored.\<close>

definition kmain_run :: "gate \<Rightarrow> (u32 \<Rightarrow> (smp_state, unit) op) \<Rightarrow> image \<Rightarrow> nat \<Rightarrow> (kernel, u32) op" where
  "kmain_run gate wait I c =
     sthen (machine_op (smod (iflag_update (\<lambda>_. True))))
    (sbind (sm_op (smp_launch_cpus wait (links I) (fst (sym_trampoline I)) (snd (sym_trampoline I)) (sym_smp_loaded I) (sym_gdt_ptr I) c))
       (\<lambda>booted.
     sthen (sbind (sget kernel_mem) (\<lambda>m. k_say I m ''Booted %u cores'' [ucast booted]))
    (sthen (kern_op (sched_init_core (links I) (sym_idle I) c))
    (sthen (kern_op (v86_init (links I) (sym_kernel_obj I) (fst (sym_v86_code I)) (snd (sym_v86_code I)) (sym_v86_enter I)))
           (sched_run gate I c)))))"

definition kmain :: "gate \<Rightarrow> (u32 \<Rightarrow> (smp_state, unit) op) \<Rightarrow> image \<Rightarrow> nat \<Rightarrow> multiboot_info \<Rightarrow> u32 \<Rightarrow> (kernel, u32) op" where
  "kmain gate wait I c mboot magic =
     sthen (kmain_setup I c mboot magic) (sthen (kmain_services I mboot) (kmain_run gate wait I c))"

section \<open>Threads\<close>

text \<open>Handler of system call 100.\<close>

definition test_handler :: "image \<Rightarrow> nat \<Rightarrow> (kernel, unit) op" where
  "test_handler I c =
     sbind (kern_op (get_core_locals c)) (\<lambda>l.
     sbind (kern_op (get_thread (current_thread l))) (\<lambda>t.
     sbind (machine_op (vld (r_cs (irq_regs l)))) (\<lambda>cs.
     ser_say I ''Hello from syscall! (core %u, %s, tid %u, in_irq %u, cs 0x%02x)''
       [ucast (core_id l), t_parent t, t_tid t, of_bool (in_irq l), cs])))"

definition test_thread :: "gate \<Rightarrow> (kernel, unit) op \<Rightarrow> image \<Rightarrow> nat \<Rightarrow> (kernel, unit) op" where
  "test_thread gate resume I c =
     sthen (syscall_op gate I c 100 [])
    (sthen resume
    (sthen (syscall_op gate I c 0 [0xDEADBEEF])
           (sfail Diverges)))"

definition ascii :: "string \<Rightarrow> u8 list" where
  "ascii name = map (\<lambda>ch. of_nat (of_char ch)) name"

text \<open>A process with four threads that run \<open>test_thread\<close>.\<close>

definition start_test :: "image \<Rightarrow> string \<Rightarrow> u8 \<Rightarrow> (kernel, unit) op" where
  "start_test I name ring = kern_op
     (sbind (proc_create_kernel (links I) (sym_kernel_obj I) (ascii name) ring) (\<lambda>p.
      sthen (siter (\<lambda>_. sthen (thread_create (links I) p (sym_test_thread I)) (sret ())) [0 ..< 4 :: nat])
            (sched_run_proc p)))"

text \<open>
  \<open>bios\<close> and \<open>cpu\<close> are the answers of the firmware and of the processor; \<open>str\<close> is the address of the local
  array that takes the strings of the processor, which only the messages read. The core may be
  another one after the sleep: \<open>c'\<close>.
\<close>

definition say_cpu :: "image \<Rightarrow> (mem \<Rightarrow> mem) \<Rightarrow> string \<Rightarrow> u32 \<Rightarrow> (kernel, unit) op" where
  "say_cpu I fill w str = sbind (sget kernel_mem) (\<lambda>m. k_say I (fill m) w [str])"

definition kernel_thread ::
    "gate \<Rightarrow> (kernel, unit) op \<Rightarrow> vbe \<Rightarrow> (u32 \<Rightarrow> cpuid_regs) \<Rightarrow> u32 \<Rightarrow> image \<Rightarrow> nat \<Rightarrow> nat \<Rightarrow> (kernel, unit) op" where
  "kernel_thread gate resume bios cpu str I c c' =
     sthen (video_op (links I) (vesa_init bios))
    (sthen (video_op (links I) (vesa_switch_to_best_mode bios))
    (sthen (sbind (sget (\<lambda>s. current_mode (video s))) (\<lambda>md.
            case md of
              None \<Rightarrow> sfail (PageFault 0)
            | Some md \<Rightarrow> sbind (sget kernel_mem) (\<lambda>m.
                k_say I m ''Screen resolution: %dx%d (bpp %d)'' [mwidth md, mheight md, ucast (bpp md)])))
    (sbind (machine_op interrupt_lock) (\<lambda>state.
     sthen (start_test I ''test0'' 0)
    (sthen (start_test I ''test1'' 3)
    (sthen (machine_op (interrupt_unlock state))
    (sbind (kern_op (get_core_locals c)) (\<lambda>l.
     sthen (sbind (sget kernel_mem) (\<lambda>m. k_say I m ''Hello from kmain! Core %u (in_irq %u)'' [ucast (core_id l), of_bool (in_irq l)]))
    (sthen (say_cpu I (\<lambda>m. snd (cpuid_vendor cpu str m)) ''CPU Vendor: %s'' str)
    (sthen (say_cpu I (cpuid_string cpu 0x80000002 str) ''CPU BrandString: %s'' str)
    (sthen (say_cpu I (cpuid_string cpu 0x80000003 str) ''%s'' str)
    (sthen (say_cpu I (cpuid_string cpu 0x80000004 str) ''%s newline'' str)
    (sthen (sbind (sget kernel_mem) (\<lambda>m. k_say I m ''Wait 1 second!'' []))
    (sthen (syscall_op gate I c 1 [1000])
    (sthen resume
    (sthen (sbind (sget kernel_mem) (\<lambda>m. k_say I m ''DONE!'' []))
    (sthen (syscall_op gate I c' 0 [0xDEADBEEF])
           (sfail Diverges))))))))))))))))))"

section \<open>The boot core and the timer\<close>

text \<open>A run of the scheduler takes a core that is still booting to its idle thread.\<close>

lemma woken_regs: "map_option t_regs (woken c s p) = map_option t_regs (threads s p)"
  "map_option kernel_stack (woken c s p) = map_option kernel_stack (threads s p)"
  by (cases "threads s p"; simp add: woken_def wake_def)+

lemma runner_boots:
  assumes I: "sched_inv s" and "\<not> sched_dat s" and l: "cores s c = Some l" "c_state l = CORE_BOOTING"
    and i: "threads s (idle_thread l) = Some i"
  shows "\<exists>t. sched_runner c s = Inr ((), t) \<and> threads t = woken c s \<and>
    cores t = (cores s)(c \<mapsto> l\<lparr>c_state := CORE_IDLE, irq_regs := t_regs i, c_tss := (c_tss l)\<lparr>esp0 := kernel_stack i\<rparr>\<rparr>)"
proof -
  let ?s = "s\<lparr>sched_dat := True\<rparr>"
  have w: "woken c ?s = woken c s" by (rule ext) (simp add: woken_def cong: if_cong)
  let ?s1 = "?s\<lparr>threads := woken c s\<rparr>"
  have up: "update_sleeping_threads c ?s = Inr ((), ?s1)"
    using update_sleeping_threads_eq [of ?s c l] sched_invD(1,3) [OF I] l(1) w by simp
  have "\<forall>p \<in> set (thread_list ?s1). threads ?s1 p \<noteq> None"
    using sched_invD(3) [OF I] woken_regs(1) [of c s] by (auto simp: woken_def)
  then obtain p where p: "pick_thread c ?s1 = Inr (p, ?s1)" using pick_thread_eq [of ?s1 c l] l(1) by auto
  obtain j where j: "woken c s (idle_thread l) = Some j" "t_regs j = t_regs i" "kernel_stack j = kernel_stack i"
    using woken_regs [of c s "idle_thread l"] i by auto
  have "current_thread l = 0" using sched_invD(4) [OF I l(1)] l(2) by (simp add: core_ok_def)
  then have sw: "sched_switch c p ?s1 = Inr ((), ?s1\<lparr>cores := (cores s)(c \<mapsto> l\<lparr>c_state := CORE_IDLE, irq_regs := t_regs i,
      c_tss := (c_tss l)\<lparr>esp0 := kernel_stack i\<rparr>\<rparr>)\<rparr>)"
    using l j by (simp add: sched_switch_def enter_idle_def get_core_locals_def mod_core_def get_thread_def set_kernel_stack_def
        sbind_def sthen_def)
  have "sched c ?s = Inr ((), ?s1\<lparr>cores := (cores s)(c \<mapsto> l\<lparr>c_state := CORE_IDLE, irq_regs := t_regs i,
      c_tss := (c_tss l)\<lparr>esp0 := kernel_stack i\<rparr>\<rparr>)\<rparr>)"
    using up p sw by (simp add: sched_def sthen_def sbind_def)
  then show ?thesis using assms(2) by (simp add: sched_runner_def sthen_def sbind_def sched_unlock_def)
qed

lemma timer_boots:
  assumes I: "sched_inv s" and "\<not> sched_dat s" and l: "cores s c = Some l" "c_state l = CORE_BOOTING"
    and i: "threads s (idle_thread l) = Some i"
    and k: "procs s (kernel_proc s) = Some pr" "pt_list pr \<noteq> []" and t: "(global_ticks s + 1) mod 8 = 0"
  defines "l' \<equiv> if proc_list s = [] then l else l\<lparr>c_state := CORE_IDLE, irq_regs := t_regs i, c_tss := (c_tss l)\<lparr>esp0 := kernel_stack i\<rparr>\<rparr>"
  shows "\<exists>t. timer_handler c s = Inr ((), t) \<and> cores t = (cores s)(c \<mapsto> l') \<and> mach t = mach s \<and> dev t = dev s \<and>
    (\<forall>p. map_option t_regs (threads t p) = map_option t_regs (threads s p))"
proof -
  let ?s = "s\<lparr>global_ticks := global_ticks s + 1\<rparr>"
  have n: "global_ticks_update (\<lambda>n. n + 1) s = ?s" by (cases s) simp
  have "timer_handler c s = sched_all c (global_ticks_update (\<lambda>n. n + 1) s)"
    using t by (simp add: timer_handler_def sthen_def sbind_def)
  then have tick: "timer_handler c s = sched_all c ?s" unfolding n .
  show ?thesis
  proof (cases "proc_list s = []")
    case True
    then show ?thesis using tick l(1) by (simp add: sched_all_def sbind_def l'_def fun_upd_idem)
  next
    case False
    have "sched_inv ?s" using I sched_inv_cong [of ?s s] by simp
    then obtain t where r: "sched_runner c ?s = Inr ((), t)" "threads t = woken c ?s" "cores t = (cores s)(c \<mapsto> l')"
      using runner_boots [of ?s c l i] assms(2) l i False by (auto simp: l'_def)
    have f: "mach t = mach s" "dev t = dev s" using sched_runner_frame [OF r(1)] by (simp_all add: sched_frame_def)
    have "sched_all c ?s = smp_send_global_interrupt c 0xF0 t"
      using False k r(1) by (simp add: sched_all_def sbind_def sthen_def proc_have_thread_def get_proc_def)
    then show ?thesis using tick r f woken_regs(1) [of c ?s] by (simp add: global_sends)
  qed
qed

text \<open>C18: a timer interrupt, on every eighth tick, meets the core that still runs \<open>kmain\<close>, the scheduler being set up. As
  long as no process is in the list the interrupted frame is restored and \<open>kmain\<close> goes on. As soon as
  there is one, which is from the middle of \<open>v86_init\<close> on, the core goes to its idle thread and the
  frame of \<open>kmain\<close> is kept by no thread: it never goes on, and if that happens before the call of
  \<open>sched_run\<close> the kernel thread is never put into the list.\<close>

theorem boot_tick:
  assumes I: "sched_inv s" and "\<not> sched_dat s" and l: "cores s c = Some l" "c_state l = CORE_BOOTING"
    and q: "\<not> in_irq l" "\<not> nested_irq l" "\<not> need_resched l" and i: "threads s (idle_thread l) = Some i"
    and k: "procs s (kernel_proc s) = Some pr" "pt_list pr \<noteq> []" and t: "(global_ticks s + 1) mod 8 = 0"
    and r: "int_frame (mach s) r 32 e" "handlers (mach s) 32 = Some Timer_handler"
    and p: "pic_master_offset (dev s) = 0x20" "pic_slave_offset (dev s) = 0x28"
  shows "\<exists>r' s' l'. isr_handler G c r s = Inr (r', s') \<and> cores s' c = Some l' \<and> \<not> in_irq l' \<and>
    (\<forall>p. map_option t_regs (threads s' p) = map_option t_regs (threads s p)) \<and>
    (if proc_list s = [] then r' = r \<and> c_state l' = CORE_BOOTING else r' = t_regs i \<and> c_state l' = CORE_IDLE)"
proof -
  let ?l0 = "l\<lparr>in_irq := True, irq_regs := r\<rparr>"
  let ?s0 = "s\<lparr>cores := (cores s)(c \<mapsto> ?l0)\<rparr>"
  let ?l1 = "if proc_list s = [] then ?l0 else ?l0\<lparr>c_state := CORE_IDLE, irq_regs := t_regs i, c_tss := (c_tss l)\<lparr>esp0 := kernel_stack i\<rparr>\<rparr>"
  have I0: "sched_inv ?s0" by (rule sched_inv_core [OF I l(1), where l' = ?l0]) simp_all
  have c0: "cores ?s0 c = Some ?l0" "\<not> sched_dat ?s0" using assms(2) by simp_all
  obtain s1 where s1: "timer_handler c ?s0 = Inr ((), s1)" "cores s1 = (cores ?s0)(c \<mapsto> ?l1)" "mach s1 = mach s" "dev s1 = dev s"
    "\<forall>p. map_option t_regs (threads s1 p) = map_option t_regs (threads s p)"
    using timer_boots [OF I0 c0(2,1), of i pr] l(2) i k t by auto
  let ?l2 = "?l1\<lparr>in_irq := False\<rparr>"
  have leave: "isr_leave c r s1 = Inr (irq_regs ?l1, s1\<lparr>cores := (cores s1)(c \<mapsto> ?l2)\<rparr>)"
    using s1(2) q by (simp add: isr_leave_def get_core_locals_def mod_core_def sbind_def sthen_def)
  obtain d where eoi: "pic_sendEOI 32 (dev s) = Inr ((), d)"
    using p by (auto simp: pic_sendEOI_def pic_sendEOI_master_def pic_sendEOI_slave_def sbind_def swhen_def io_simps)
  let ?s3 = "s1\<lparr>cores := (cores s1)(c \<mapsto> ?l2), dev := d, lapic_writes := lapic_writes s1 @ [(c, 0xB0, 0)]\<rparr>"
  have "isr_handler G c r s = Inr (irq_regs ?l1, ?s3)"
    unfolding isr_handler_def
    using l(1) q r s1 leave eoi
    by (simp add: isr_enter_def mod_core_def int_frame_def mach_op_def sthen_apply sbind_def run_handler_def get_core_locals_def
        io_op_def apic_EOI_def write_lapic_def)
  then show ?thesis using s1(5) l(2) by (intro exI [of _ "irq_regs ?l1"] exI [of _ ?s3] exI [of _ ?l2]) simp
qed

text \<open>Core 0 in \<open>kmain\<close>, after \<open>v86_init\<close>, at the seventh tick.\<close>

definition demo_kmain :: kstate where
  "demo_kmain = demo_kernel\<lparr>mach := demo_machine\<lparr>pg := False, phys := st32 (\<lambda>_. 0) 0x9028 32, handlers := [32 \<mapsto> Timer_handler]\<rparr>,
     dev := demo_dev\<lparr>pic_master_offset := 0x20, pic_slave_offset := 0x28\<rparr>, global_ticks := 7,
     threads := [0x2000 \<mapsto> demo_thread THREAD_STOPPED, 0x5000 \<mapsto> demo_thread THREAD_STOPPED], thread_list := [0x2000],
     procs := (\<lambda>_. Some \<lparr>p_name = [], p_cr3 = 0, p_ring = 0, p_heap = 0, p_elf_obj = 0x6000, pt_list = [0x2000]\<rparr>), proc_list := [0x4000],
     cores := [0 \<mapsto> (demo_core 0 CORE_BOOTING 0)\<lparr>in_irq := False\<rparr>]\<rparr>"

lemma demo_kmain_inv: "sched_inv demo_kmain"
  by (auto simp: sched_inv_def demo_kmain_def core_ok_def split: if_splits)

theorem boot_tick_witness:
  "\<exists>s' l'. isr_handler demo_isr 0 0x9000 demo_kmain = Inr (0x8000, s') \<and> cores s' 0 = Some l' \<and> c_state l' = CORE_IDLE \<and>
     (\<forall>p t. threads s' p = Some t \<longrightarrow> t_regs t \<noteq> 0x9000)"
proof -
  let ?l = "(demo_core 0 CORE_BOOTING 0)\<lparr>in_irq := False\<rparr>"
  have d: "\<not> sched_dat demo_kmain" "cores demo_kmain 0 = Some ?l" "c_state ?l = CORE_BOOTING"
    "\<not> in_irq ?l" "\<not> nested_irq ?l" "\<not> need_resched ?l" "threads demo_kmain (idle_thread ?l) = Some (demo_thread THREAD_STOPPED)"
    by (simp_all add: demo_kmain_def demo_core_def)
  have k: "procs demo_kmain (kernel_proc demo_kmain) = Some \<lparr>p_name = [], p_cr3 = 0, p_ring = 0, p_heap = 0, p_elf_obj = 0x6000, pt_list = [0x2000]\<rparr>"
    "pt_list \<lparr>p_name = [], p_cr3 = 0, p_ring = 0, p_heap = 0, p_elf_obj = 0x6000, pt_list = [0x2000]\<rparr> \<noteq> []"
    "(global_ticks demo_kmain + 1) mod 8 = 0" by (simp_all add: demo_kmain_def)
  have r: "int_frame (mach demo_kmain) 0x9000 32 0" "handlers (mach demo_kmain) 32 = Some Timer_handler"
    "pic_master_offset (dev demo_kmain) = 0x20" "pic_slave_offset (dev demo_kmain) = 0x28"
    by (simp_all add: int_frame_def demo_kmain_def vld_def mmu_def) (simp_all add: ld32_def st32_def)
  have t: "t_regs (demo_thread THREAD_STOPPED) = 0x8000" by (simp add: demo_thread_def)
  have m: "map_option t_regs (threads demo_kmain p) \<noteq> Some 0x9000" for p using t by (simp add: demo_kmain_def)
  have "proc_list demo_kmain \<noteq> []" by (simp add: demo_kmain_def)
  with boot_tick [OF demo_kmain_inv d k r, of demo_isr] t obtain s' l' where
    x: "isr_handler demo_isr 0 0x9000 demo_kmain = Inr (0x8000, s')" "cores s' 0 = Some l'" "c_state l' = CORE_IDLE"
    "\<forall>p. map_option t_regs (threads s' p) = map_option t_regs (threads demo_kmain p)" by auto
  have "t_regs t \<noteq> 0x9000" if "threads s' p = Some t" for p t using x(4) m [of p] that by (metis option.simps(9))
  with x(1-3) show ?thesis by blast
qed

section \<open>What the boot sequence wires up\<close>

text \<open>The tables through which interrupts and system calls are dispatched, and the lists of the scheduler.\<close>

definition tables_kept :: "kstate \<Rightarrow> kstate \<Rightarrow> bool" where
  "tables_kept s t \<longleftrightarrow> handlers (mach t) = handlers (mach s) \<and> iflag (mach t) = iflag (mach s) \<and> syscalls t = syscalls s \<and>
     thread_list t = thread_list s \<and> proc_list t = proc_list s \<and> cores t = cores s"

interpretation tables: frame_rel tables_kept
  by unfold_locales (auto simp: tables_kept_def)

lemma tables_mach: "memory_only.keeps f \<Longrightarrow> tables.keeps (mach_op f)"
  by (auto simp: tables.keeps_def tables_kept_def mach_op_Inr memory_only_def dest: memory_only.keepsD)

lemma tables_ops:
  "tables.keeps (get_thread p)" "tables.keeps (mod_thread p f)" "tables.keeps (get_proc p)" "tables.keeps (mod_proc p g)"
  "tables.keeps sched_lock" "tables.keeps sched_unlock" "tables.keeps (mach_op (vmm_replace_cr3 d))" "tables.keeps (smod (next_tid_update h))"
  by (auto simp: tables.keeps_def tables_kept_def get_thread_def mod_thread_def get_proc_def mod_proc_def sched_lock_def sched_unlock_def
      mach_op_Inr vmm_replace_cr3_def vmm_set_cr3_def sbind_eq_Inr sthen_eq_Inr split: option.splits if_splits)

lemma tables_store: "tables.keeps (smod (\<lambda>s. s\<lparr>threads := f s\<rparr>))" "tables.keeps (smod (\<lambda>s. s\<lparr>procs := g s\<rparr>))"
  by (auto simp: tables.keeps_def tables_kept_def)

lemmas tables_intros = tables.keeps_all tables_ops tables_store tables_mach memory_prims kmalloc_memory

lemma zero_bytes_memory: "memory_only.keeps (zero_bytes p n)"
  unfolding zero_bytes_def by (intro memory_intros)

lemma heap_malloc_memory: "memory_only.keeps (heap_malloc L h sz al)"
  unfolding heap_malloc_def by (intro heap_intros alloc_memory aligned_memory)

lemma frames_tables: "tables.keeps (user_frame L pr p)" "tables.keeps (kernel_frame p)" "tables.keeps (common_frame proc entry pr p)"
  "tables.keeps (add_thread2proc proc p)" "tables.keeps (thread_alloc L)"
  unfolding user_frame_def kernel_frame_def common_frame_def add_thread2proc_def thread_alloc_def
  by (intro tables_intros heap_malloc_memory zero_bytes_memory)+

lemma thread_create_tables: "tables.keeps (thread_create L p entry)"
  unfolding thread_create_def by (intro tables_intros frames_tables)

lemma proc_create_tables:
  assumes r: "ring \<noteq> 3"
  shows "tables.keeps (proc_create_kernel L obj name ring)"
  unfolding proc_create_kernel_def proc_alloc_def if_not_P [OF r] by (intro tables_intros zero_bytes_memory)

text \<open>A successful run of \<open>sched_init\<close>.\<close>

lemma mach_steps:
  "mach_op interrupt_lock s = Inr (x, t) \<longleftrightarrow> x = iflag (mach s) \<and> t = s\<lparr>mach := (mach s)\<lparr>iflag := False\<rparr>\<rparr>"
  "mach_op (register_int_handler n h) s = Inr (y, t) \<longleftrightarrow> t = s\<lparr>mach := (mach s)\<lparr>handlers := (handlers (mach s))(n \<mapsto> h)\<rparr>\<rparr>"
  "mach_op (interrupt_unlock b) s = Inr (y, t) \<longleftrightarrow> t = s\<lparr>mach := (mach s)\<lparr>iflag := b \<or> iflag (mach s)\<rparr>\<rparr>"
  by (auto simp: mach_op_def interrupt_lock_def interrupt_unlock_def check_interrupts_def register_int_handler_def sbind_def sthen_def swhen_def)

lemma syscalls_set_Inr: "num < 256 \<Longrightarrow> syscalls_set num call s = Inr (x, t) \<longleftrightarrow> t = s\<lparr>syscalls := (syscalls s)(num \<mapsto> call)\<rparr>"
  by (auto simp: syscalls_set_def)

lemma small_numbers: "(0 :: u32) < 256" "(1 :: u32) < 256" "(2 :: u32) < 256" "(100 :: u32) < 256"
  by (simp_all add: word_less_nat_alt)

lemma proc_create_kept: "proc_create_kernel L obj name 0 s = Inr (p, t) \<Longrightarrow> tables_kept s t"
  by (rule tables.keepsD [OF proc_create_tables]) simp_all

lemma sched_init_wires:
  assumes "sched_init L obj entry s = Inr ((), t)"
  shows "handlers (mach t) = (handlers (mach s))(0xF0 \<mapsto> Sched_runner, 0xF1 \<mapsto> Core_panic)"
    "syscalls t = (syscalls s)(0 \<mapsto> Sched_thread_exit, 1 \<mapsto> Sched_thread_sleep, 2 \<mapsto> Sched_thread_yield)"
    "thread_list t = []" "proc_list t = []" "cores t = cores s" "iflag (mach t) = iflag (mach s)"
  using assms unfolding sched_init_def
  by (auto simp: sbind_eq_Inr sthen_eq_Inr mach_steps syscalls_set_Inr small_numbers tables_kept_def
      dest!: proc_create_kept tables.keepsD [OF thread_create_tables] simp del: list.map)

lemma map_identity_kept: "map_identity L ms s = Inr (x, t) \<Longrightarrow> tables_kept (kst (sm s)) (kst (sm t))"
proof (induction ms arbitrary: s)
  case (Cons m ms)
  obtain a n where m: "m = (a, n)" by (cases m)
  from Cons.prems obtain y u where u: "machine_op (vmm_map L a a n (ucast (VMM_PRESENT OR VMM_WRITE :: u32))) s = Inr (y, u)" "map_identity L ms u = Inr (x, t)"
    by (auto simp: map_identity_def m sthen_eq_Inr)
  then obtain k where k: "mach_op (vmm_map L a a n (ucast (VMM_PRESENT OR VMM_WRITE :: u32))) (kst (sm s)) = Inr (y, k)"
    "u = s\<lparr>sm := (sm s)\<lparr>kst := k\<rparr>\<rparr>" by (auto simp: kern_op_Inr)
  have "tables_kept (kst (sm s)) k" by (rule tables.keepsD [OF tables_mach [OF maps_memory(3)] k(1)])
  then show ?case using Cons.IH [OF u(2)] k(2) by (auto simp: tables_kept_def)
qed (simp add: map_identity_def tables_kept_def)

lemma load_table_kept: "load_kernel_table I mb s = Inr (x, t) \<Longrightarrow> tables_kept (kst (sm s)) (kst (sm t))"
  by (auto simp: load_kernel_table_def sthen_eq_Inr dest!: map_identity_kept)

lemma pit_init_Inr: "pit_init s = Inr (x, t) \<Longrightarrow>
    mach t = (mach s)\<lparr>handlers := (handlers (mach s))(32 \<mapsto> Timer_handler)\<rparr> \<and> syscalls t = syscalls s \<and> cores t = cores s"
  by (auto simp: pit_init_def sthen_eq_Inr mach_steps io_op_Inr)

text \<open>C19: when the service part of \<open>kmain\<close> returns, the timer, the rescheduling and the halting interrupt and the system
  call interrupt lead to their handlers and all other vectors to what they led to before; the four
  system calls are in place; nothing is scheduled yet; and the interrupt flag and the cores' records
  are as before, whatever the allocations on the way have done to the heap and the page tables.\<close>

theorem kmain_services_wires:
  assumes "kmain_services I mboot s = Inr ((), t)"
  shows "handlers (machine t) = (handlers (machine s))(32 \<mapsto> Timer_handler, 0xF0 \<mapsto> Sched_runner, 0xF1 \<mapsto> Core_panic,
      0x80 \<mapsto> Syscalls_handler) \<and>
    syscalls (kst (sm t)) = (syscalls (kst (sm s)))(0 \<mapsto> Sched_thread_exit, 1 \<mapsto> Sched_thread_sleep, 2 \<mapsto> Sched_thread_yield,
      100 \<mapsto> Test_handler) \<and>
    thread_list (kst (sm t)) = [] \<and> proc_list (kst (sm t)) = [] \<and> iflag (machine t) = iflag (machine s) \<and> cores (kst (sm t)) = cores (kst (sm s))"
proof -
  from assms obtain s1 k2 k3 where s1: "swhen (mb_flags mboot AND MULTIBOOT_INFO_ELF_SHDR \<noteq> 0) (load_kernel_table I mboot) s = Inr ((), s1)"
    and k: "pit_init (kst (sm s1)) = Inr ((), k2)" "sched_init (links I) (sym_kernel_obj I) (sym_kernel_thread I) k2 = Inr ((), k3)"
    and t: "kst (sm t) = k3\<lparr>mach := (mach k3)\<lparr>handlers := (handlers (mach k3))(0x80 \<mapsto> Syscalls_handler)\<rparr>,
      syscalls := (syscalls k3)(100 \<mapsto> Test_handler)\<rparr>"
    by (auto simp: kmain_services_def sthen_eq_Inr kern_op_Inr syscalls_init_def mach_steps syscalls_set_Inr small_numbers)
  have "tables_kept (kst (sm s)) (kst (sm s1))" using s1 load_table_kept by (auto simp: swhen_def tables_kept_def split: if_splits)
  then show ?thesis using pit_init_Inr [OF k(1)] sched_init_wires [OF k(2)] t by (simp add: tables_kept_def)
qed

text \<open>A kernel whose heap is not there: every allocation gives the null pointer.\<close>

lemma no_heap:
  assumes "kernel_heap (mach s) = 0"
  shows "mach_op (kmalloc L sz) s = Inr (0, s)" "proc_create_kernel L obj name ring s = Inr (0, s)"
    "\<not> sched_dat s \<Longrightarrow> thread_create L p entry s = Inr (0, s)"
proof -
  show k: "mach_op (kmalloc L sz) s = Inr (0, s)" for sz using assms by (simp add: mach_op_def kmalloc_def heap_malloc_def sbind_def)
  show "proc_create_kernel L obj name ring s = Inr (0, s)" by (simp add: proc_create_kernel_def proc_alloc_def sbind_def sthen_def k)
  have "mach_op (kmalloc L THREAD_SIZE) (s\<lparr>sched_dat := True\<rparr>) = Inr (0, s\<lparr>sched_dat := True\<rparr>)"
    using assms by (simp add: mach_op_def kmalloc_def heap_malloc_def sbind_def)
  then show "thread_create L p entry s = Inr (0, s)" if "\<not> sched_dat s" using that
    by (simp add: thread_create_def thread_alloc_def sched_lock_def sched_unlock_def sbind_def sthen_def)
qed

definition demo_mboot :: multiboot_info where
  "demo_mboot = \<lparr>mb_flags = 0, mb_mmap = [], mb_elf_num = 0, mb_elf_size = 0, mb_elf_addr = 0, mb_elf_shndx = 0, mb_framebuffer = undefined\<rparr>"

lemma one_small: "\<not> 256 \<le> (1 :: u32)"
  using small_numbers(2) unfolding linorder_not_le .

lemma mach_runs:
  "mach_op interrupt_lock s = Inr (iflag (mach s), s\<lparr>mach := (mach s)\<lparr>iflag := False\<rparr>\<rparr>)"
  "mach_op (register_int_handler n h) s = Inr ((), s\<lparr>mach := (mach s)\<lparr>handlers := (handlers (mach s))(n \<mapsto> h)\<rparr>\<rparr>)"
  "mach_op (interrupt_unlock b) s = Inr ((), s\<lparr>mach := (mach s)\<lparr>iflag := b \<or> iflag (mach s)\<rparr>\<rparr>)"
  using mach_steps by simp_all

lemma demo_services: "\<exists>t. kmain_services demo_image demo_mboot (demo_boot demo_kernel) = Inr ((), t)"
proof -
  have h: "kernel_heap (mach demo_kernel) = 0" "\<not> sched_dat demo_kernel" by (simp_all add: demo_kernel_def demo_machine_def)
  obtain d where d: "pit_set_freq (dev demo_kernel) = Inr ((), d)" by (auto simp: pit_set_freq_def io_simps)
  obtain k where k: "pit_init demo_kernel = Inr ((), k)" "kernel_heap (mach k) = 0" "\<not> sched_dat k"
    using h d by (simp add: pit_init_def sthen_def sbind_def mach_runs io_op_def)
  obtain j where j: "sched_init (links demo_image) 0x6000 0 k = Inr ((), j)"
    using k(2,3) by (simp add: sched_init_def sthen_def sbind_def mach_runs syscalls_set_def one_small no_heap del: list.map)
  show ?thesis
    using k(1) j by (simp add: kmain_services_def demo_mboot_def demo_boot_def sthen_def sbind_def sm_op_def k_op_def demo_image_def
        syscalls_init_def mach_runs syscalls_set_def)
qed

theorem kmain_services_wires_witness:
  "\<exists>t. kmain_services demo_image demo_mboot (demo_boot demo_kernel) = Inr ((), t) \<and> handlers (machine t) 32 = Some Timer_handler \<and>
     handlers (machine t) 0x80 = Some Syscalls_handler \<and> syscalls (kst (sm t)) 100 = Some Test_handler \<and> proc_list (kst (sm t)) = []"
proof -
  obtain t where t: "kmain_services demo_image demo_mboot (demo_boot demo_kernel) = Inr ((), t)" using demo_services by blast
  show ?thesis using kmain_services_wires [OF t] t by (intro exI [of _ t]) simp
qed

end
