(* ===== verification/Spec2Isabelle.thy ===== *)
theory Spec2Isabelle
  imports Prelude Memory Cstring Llist Pmm Vmm Vmm_Map Heap Heap_Alloc Heap_Free Dt Devices Kstate Thread Sched Sched_Inv Region V86 Isr Elf
    Acpi Plist Apic Stdio Font Vesa Screen Smp Stores Vmm_Spare Loader Lock Reap Control Kernel Boot
begin

text \<open>
  A verification development of pixOS, a small kernel for 32-bit x86 machines with several
  processors, written in C.

  \<^bold>\<open>The program.\<close> The boot loader calls \<open>kmain\<close> (\<^verbatim>\<open>src/kernel.c\<close>). It sets up the descriptor tables
  (\<^verbatim>\<open>src/int\<close>, \<^verbatim>\<open>src/sys/tss.c\<close>), finds the ACPI tables (\<^verbatim>\<open>src/sys/acpi\<close>), starts the three layers of
  memory management (\<^verbatim>\<open>src/mm\<close>: a bitmap of page frames, two-level paging, a heap on top of both),
  the screen and the serial line (\<^verbatim>\<open>src/drivers\<close>), the interrupt controllers (\<^verbatim>\<open>src/sys/pic.c\<close>,
  \<^verbatim>\<open>src/sys/apic.c\<close>), the timer, the scheduler with its threads and processes (\<^verbatim>\<open>src/proc\<close>) and the other
  processors (\<^verbatim>\<open>src/sys/smp.c\<close>). From then on everything happens in interrupts: \<open>isr_handler\<close> calls the
  registered handler, which may run the scheduler, and the frame it returns is the one the assembly
  restores. Firmware calls run in virtual-8086 mode under a monitor (\<^verbatim>\<open>src/proc/v86.c\<close>). The library
  under all this is \<^verbatim>\<open>src/klibc\<close>.

  \<^bold>\<open>How code becomes definitions.\<close> A C function is a definition of the same name. An operation has the
  type \<open>('s, 'a) op\<close> of the theory \<open>Prelude\<close>: from a state to an error or a result with the new state.
  Errors are the values of \<open>kerror\<close>: a panic with its message, a core that halts, a page fault, an
  access outside an array, a computation that never ends. Machine integers are words of their width
  and wrap around as in C; a pointer is a 32-bit word; memory is a function from addresses to bytes.
  A structure is a record, or bytes at its offsets where the code shares or overlays it: chunks of
  the heap, page tables, register frames, ELF and ACPI tables. What the linker defines and what the
  hardware or the firmware answers are arguments.

  \<^bold>\<open>Loops.\<close> A loop with a counter is a \<open>primrec\<close> on the exact number of its rounds or \<open>sfor\<close>; no loop is cut
  short by a bound of the model. A loop that may run for ever is a \<open>partial_function\<close> into \<open>option\<close> or
  \<open>sloop\<close>, which turns a missing result into the error \<open>Diverges\<close>; where the code relies on such a loop
  to end, that it ends is part of the theorem, and where it does not end that is a theorem too.

  \<^bold>\<open>The theories.\<close>

  \<^item> \<open>Prelude\<close>, \<open>Memory\<close>: words, errors, the monad of operations with its loops, rounding macros; bytes and
    words in memory (locale \<open>word_store\<close>). The locale \<open>frame_rel\<close> has the rules for what an operation leaves
    alone, and is interpreted on seven frame relations of the development.
  \<^item> \<open>Cstring\<close>, \<open>Stdio\<close>, \<open>Llist\<close>, \<open>Plist\<close>, \<open>Lock\<close>: \<^verbatim>\<open>src/klibc\<close> and \<^verbatim>\<open>include/klibc\<close>. Number conversion against the
    digits of a number and back, bounds of the copying routines, formatting against the meaning of
    the directives, lists as sequences (locale \<open>node_queue\<close>, interpreted on the list of pending calls).
    \<open>Lock\<close> has the spinlocks instruction by instruction as the step relation \<open>lock_step\<close> of any number of
    cores, with mutual exclusion by an invariant.
  \<^item> \<open>Pmm\<close>: \<^verbatim>\<open>src/mm/pmm.c\<close>. The abstract state is the set of free pages; the accounting invariant, first fit,
    disjointness of blocks (locale \<open>page_allocator\<close>), the setup from the memory map.
  \<^item> \<open>Vmm\<close>, \<open>Vmm_Map\<close>, \<open>Vmm_Spare\<close>: \<^verbatim>\<open>src/mm/vmm.c\<close>. The specification is the hardware's walk as a partial function
    on addresses; mapping and unmapping refine its update, translation through the window pages
    agrees with it, a forked address space shares the kernel's part. \<open>Vmm_Spare\<close>: frames that are neither
    free nor page tables are not touched.
  \<^item> \<open>Heap\<close>, \<open>Heap_Alloc\<close>, \<open>Heap_Free\<close>, \<open>Region\<close>, \<open>Stores\<close>, \<open>Control\<close>: \<^verbatim>\<open>src/mm/heap.c\<close>, \<^verbatim>\<open>src/mm/mm.c\<close> and the allocation calls of
    \<^verbatim>\<open>src/klibc/stdlib.c\<close>. Best fit and the heap invariant on allocation, the return
    of an inner block to the free list on release; \<open>region\<close>, \<open>does\<close> and \<open>stores\<close> let a
    mapped region be treated as plain memory; \<open>Control\<close>: memory management touches no control state,
    whatever the memory looks like.
  \<^item> \<open>Dt\<close>, \<open>Devices\<close>, \<open>Acpi\<close>, \<open>Apic\<close>: descriptor tables and task state, ports as a log of accesses with the
    devices' answers as a function of the log, the serial line, the two kinds of interrupt
    controllers, the search of the firmware's tables. The parser of the MADT against its encoding,
    the routing of interrupts.
  \<^item> \<open>Kstate\<close>, \<open>Thread\<close>, \<open>Sched\<close>, \<open>Sched_Inv\<close>, \<open>Reap\<close>: the state of the running kernel, threads, processes and the
    scheduler. \<open>sched_inv\<close> relates cores and threads; \<open>sched_step\<close> is the relation of whole operations of
    single cores, \<open>sched_reach\<close> its reachable states. No assertion of the scheduler fails, a thread runs on
    one core, sleepers wake in time; starvation and the race of \<open>sched_thread_sleep\<close> are shown as they are.
  \<^item> \<open>Isr\<close>, \<open>V86\<close>: dispatch of interrupts and system calls, and the monitor of virtual-8086 code.
  \<^item> \<open>Elf\<close>, \<open>Loader\<close>: ELF images, symbols, stack traces, and the loading of segments into an address space.
  \<^item> \<open>Font\<close>, \<open>Vesa\<close>, \<open>Screen\<close>: glyphs, video modes and the console.
  \<^item> \<open>Smp\<close>: the start of the other processors, the boot block and what the trampoline reads from it.
  \<^item> \<open>Kernel\<close>, \<open>Boot\<close>: one record for the state of all components, with their operations lifted to it; the
    report of a panic; \<open>kmain\<close>, the kernel thread and the test threads. What is wired up when \<open>kmain\<close> has
    done its part, and what a timer tick does to the core that is still booting.

  \<^bold>\<open>Concurrency.\<close> An operation stands for what one core does without being interrupted; other cores act
  between operations. The scheduler's functions run with interrupts disabled, and those that change
  its lists hold its lock. Where the code lets others in between, the operation is cut there: the two
  halves of sleeping and exiting, the instructions of the spinlocks. What the others do while the
  code waits is an argument (\<open>wait\<close> in \<open>Smp\<close>, \<open>resume\<close> in \<open>Boot\<close>).

  \<^bold>\<open>Not modelled.\<close> The assembly that enters the kernel, pushes and restores register frames, loads
  descriptor tables and model specific registers, and switches to virtual-8086 mode and back; the
  spinlocks of \<^verbatim>\<open>lock_asm.s\<close> are the exception. There is no translation cache, so \<open>vmm_invlpg\<close> does nothing.
  Messages of the components on the serial line are left out, except for the output routines
  themselves and the report of a panic; the locks around messages are left out with them. Headers
  that only declare (\<^verbatim>\<open>include/int/isr.h\<close>, the feature bits of \<^verbatim>\<open>include/io/cpuid.h\<close>, most of
  \<^verbatim>\<open>include/multiboot.h\<close>) have nothing to model. Allocation is proved correct when a chunk that fits is in the
  free list, and release for a block whose predecessor is in use and that is not the last of the heap.
  The growing and shrinking of the heap and the merging with a free predecessor are modelled, and only
  that they leave the control state alone is proved of them.
\<close>

end
